(* ===== verification/Prelude.thy ===== *)
theory Prelude
  imports Main "HOL-Library.Monad_Syntax" "HOL-Library.Tree" "HOL-Library.Word"
begin

text \<open>
  Shared vocabulary of the development: pointers, the option monad in which every pointer-chasing
  routine of the C++ containers is written (None stands for undefined behaviour: a null or dangling
  dereference, or a loop that never ends), and the list lemmas that the traversal, insertion and
  search proofs share.
\<close>

named_theorems ptr_defs \<open>definitions of the elementary heap reads and writes\<close>

type_synonym ptr = "nat option"

abbreviation nullptr :: ptr where
  "nullptr \<equiv> None"

subsection \<open>The element after and before a position of a list\<close>

definition next_of :: "'a list \<Rightarrow> 'a option" where
  "next_of ys = (case ys of [] \<Rightarrow> None | y # _ \<Rightarrow> Some y)"

definition prev_of :: "'a list \<Rightarrow> 'a option" where
  "prev_of xs = (if xs = [] then None else Some (last xs))"

lemma next_of_simps [simp]: "next_of [] = None" "next_of (y # ys) = Some y"
  by (simp_all add: next_of_def)

lemma next_of_append: "next_of (xs @ ys) = (if xs = [] then next_of ys else next_of xs)"
  by (cases xs) auto

lemma prev_of_simps [simp]: "prev_of [] = None" "prev_of (xs @ [y]) = Some y"
  by (simp_all add: prev_of_def)

lemma prev_of_append: "prev_of (xs @ ys) = (if ys = [] then prev_of xs else prev_of ys)"
  by (simp add: prev_of_def)

lemma prev_of_Cons: "prev_of (x # xs) = (if xs = [] then Some x else prev_of xs)"
  by (simp add: prev_of_def)

lemma prev_of_single [simp]: "prev_of [y] = Some y"
  by (simp add: prev_of_def)

lemma next_of_eq_None [simp]: "next_of xs = None \<longleftrightarrow> xs = []"
  by (cases xs) auto

lemma prev_of_eq_None [simp]: "prev_of xs = None \<longleftrightarrow> xs = []"
  by (simp add: prev_of_def)

lemma prev_of_rev: "prev_of xs = next_of (rev xs)"
  by (cases xs rule: rev_cases) auto

text \<open>In a list without repetitions the split around an element is unique.\<close>

lemma distinct_split_unique:
  assumes "distinct (xs @ a # ys)" and "xs @ a # ys = xs' @ a # ys'"
  shows "xs' = xs \<and> ys' = ys"
proof -
  have "a \<notin> set xs" "a \<notin> set ys"
    using assms(1) by auto
  with assms show ?thesis
    by (metis append_Cons_eq_iff)
qed

end
