(* ===== verification/BstHeap.thy ===== *)
theory BstHeap
  imports Prelude
begin

text \<open>
  The memory of the binary search tree containers
  (associative_container/search_tree/binary_search_tree/include/binary_search_tree.h): nodes with a
  key, a value and three pointers in an explicit heap, the tree object with its root and its size,
  and the abstraction of the pointer structure to a tree of addresses. A position inside the tree is
  a context (the path from the hole up to the root), which is what the loops that climb parent
  pointers walk along. The field \<open>ext\<close> holds what a derived node type adds (nothing for the plain and
  the splay tree, a colour, a height).
\<close>

subsection \<open>Nodes, heap and tree object\<close>

record ('k, 'v, 'e) node =
  nd_key :: 'k
  nd_val :: 'v
  parent :: ptr
  left_subtree :: ptr
  right_subtree :: ptr
  ext :: 'e

type_synonym ('k, 'v, 'e) heap = "nat \<Rightarrow> ('k, 'v, 'e) node option"

record ('k, 'v, 'e) bst =
  heap :: "('k, 'v, 'e) heap"
  root :: ptr
  tree_size :: "64 word"

definition node_ctor :: "ptr \<Rightarrow> 'k \<Rightarrow> 'v \<Rightarrow> 'e \<Rightarrow> ('k, 'v, 'e) node" where
  "node_ctor par k v e =
     \<lparr>nd_key = k, nd_val = v, parent = par, left_subtree = nullptr, right_subtree = nullptr, ext = e\<rparr>"

text \<open>Reads and writes through a pointer; None is a null or dangling access.\<close>

definition deref :: "('k, 'v, 'e) heap \<Rightarrow> ptr \<Rightarrow> ('k, 'v, 'e) node option" where
  [ptr_defs]: "deref h p = (case p of None \<Rightarrow> None | Some a \<Rightarrow> h a)"

definition write_node ::
  "('k, 'v, 'e) heap \<Rightarrow> ptr \<Rightarrow> (('k, 'v, 'e) node \<Rightarrow> ('k, 'v, 'e) node) \<Rightarrow> ('k, 'v, 'e) heap option" where
  [ptr_defs]: "write_node h p f =
     (case p of None \<Rightarrow> None
      | Some a \<Rightarrow> (case h a of None \<Rightarrow> None | Some n \<Rightarrow> Some (h(a \<mapsto> f n))))"

definition set_left :: "('k, 'v, 'e) heap \<Rightarrow> ptr \<Rightarrow> ptr \<Rightarrow> ('k, 'v, 'e) heap option" where
  [ptr_defs]: "set_left h p q = write_node h p (\<lambda>n. n\<lparr>left_subtree := q\<rparr>)"

definition set_right :: "('k, 'v, 'e) heap \<Rightarrow> ptr \<Rightarrow> ptr \<Rightarrow> ('k, 'v, 'e) heap option" where
  [ptr_defs]: "set_right h p q = write_node h p (\<lambda>n. n\<lparr>right_subtree := q\<rparr>)"

definition set_parent :: "('k, 'v, 'e) heap \<Rightarrow> ptr \<Rightarrow> ptr \<Rightarrow> ('k, 'v, 'e) heap option" where
  [ptr_defs]: "set_parent h p q = write_node h p (\<lambda>n. n\<lparr>parent := q\<rparr>)"

text \<open>The write guarded by a null test, \<open>if (e != nullptr) e->parent = c\<close>.\<close>

definition set_parent_nn :: "('k, 'v, 'e) heap \<Rightarrow> ptr \<Rightarrow> ptr \<Rightarrow> ('k, 'v, 'e) heap option" where
  [ptr_defs]: "set_parent_nn h p q = (if p = nullptr then Some h else set_parent h p q)"

text \<open>The key and value stored at an address: what no pointer write changes.\<close>

definition kv_at :: "('k, 'v, 'e) heap \<Rightarrow> nat \<Rightarrow> ('k \<times> 'v) option" where
  "kv_at h a = (case h a of None \<Rightarrow> None | Some n \<Rightarrow> Some (nd_key n, nd_val n))"

subsection \<open>The tree of addresses a heap holds\<close>

fun rep :: "('k, 'v, 'e) heap \<Rightarrow> ptr \<Rightarrow> ptr \<Rightarrow> nat tree \<Rightarrow> bool" where
  "rep h par p Leaf = (p = nullptr)"
| "rep h par p (Node l a r) =
     (p = Some a \<and>
      (case h a of None \<Rightarrow> False
       | Some n \<Rightarrow> parent n = par \<and> rep h (Some a) (left_subtree n) l \<and>
                    rep h (Some a) (right_subtree n) r))"

text \<open>A context: the ancestors of a hole, innermost first, each with its other subtree.\<close>

datatype crumb = InLeft nat "nat tree" | InRight "nat tree" nat

type_synonym ctx = "crumb list"

fun plug :: "ctx \<Rightarrow> nat tree \<Rightarrow> nat tree" where
  "plug [] t = t"
| "plug (InLeft a r # c) t = plug c (Node t a r)"
| "plug (InRight l a # c) t = plug c (Node l a t)"

fun before :: "ctx \<Rightarrow> nat list" where
  "before [] = []"
| "before (InLeft a r # c) = before c"
| "before (InRight l a # c) = before c @ inorder l @ [a]"

fun after :: "ctx \<Rightarrow> nat list" where
  "after [] = []"
| "after (InLeft a r # c) = a # inorder r @ after c"
| "after (InRight l a # c) = after c"

fun set_ctx :: "ctx \<Rightarrow> nat set" where
  "set_ctx [] = {}"
| "set_ctx (InLeft a r # c) = insert a (set_tree r \<union> set_ctx c)"
| "set_ctx (InRight l a # c) = insert a (set_tree l \<union> set_ctx c)"

fun ctx_parent :: "ctx \<Rightarrow> ptr" where
  "ctx_parent [] = nullptr"
| "ctx_parent (InLeft a r # c) = Some a"
| "ctx_parent (InRight l a # c) = Some a"

text \<open>The heap holds the context, and the hole is filled by pointer \<open>p\<close>.\<close>

fun rep_ctx :: "('k, 'v, 'e) heap \<Rightarrow> ptr \<Rightarrow> ctx \<Rightarrow> ptr \<Rightarrow> bool" where
  "rep_ctx h rt [] p = (rt = p)"
| "rep_ctx h rt (InLeft a r # c) p =
     (case h a of None \<Rightarrow> False
      | Some n \<Rightarrow> parent n = ctx_parent c \<and> left_subtree n = p \<and>
                   rep h (Some a) (right_subtree n) r \<and> rep_ctx h rt c (Some a))"
| "rep_ctx h rt (InRight l a # c) p =
     (case h a of None \<Rightarrow> False
      | Some n \<Rightarrow> parent n = ctx_parent c \<and> right_subtree n = p \<and>
                   rep h (Some a) (left_subtree n) l \<and> rep_ctx h rt c (Some a))"

text \<open>A tree object holds the tree \<open>t\<close>: shape, parent links and no sharing.\<close>

definition bst_rep :: "('k, 'v, 'e) bst \<Rightarrow> nat tree \<Rightarrow> bool" where
  "bst_rep b t \<longleftrightarrow> rep (heap b) nullptr (root b) t \<and> distinct (inorder t)"

definition entries :: "('k, 'v, 'e) heap \<Rightarrow> nat list \<Rightarrow> ('k \<times> 'v) list" where
  "entries h xs = List.map_filter (kv_at h) xs"

subsection \<open>Representation lemmas\<close>

lemma rep_null [simp]: "rep h par None t \<longleftrightarrow> t = Leaf"
  by (cases t) auto

lemma rep_Some: "rep h par (Some a) t \<longleftrightarrow>
  (\<exists>l r n. t = Node l a r \<and> h a = Some n \<and> parent n = par \<and>
     rep h (Some a) (left_subtree n) l \<and> rep h (Some a) (right_subtree n) r)"
  by (cases t) (auto split: option.splits)

lemma rep_alloc: "rep h par p t \<Longrightarrow> x \<in> set_tree t \<Longrightarrow> h x \<noteq> None"
  by (induction t arbitrary: par p) (auto split: option.splits)

lemma rep_unique: "rep h par p t \<Longrightarrow> rep h par p u \<Longrightarrow> t = u"
proof (induction t arbitrary: par p u)
  case Leaf
  then show ?case by simp
next
  case (Node l a r)
  then show ?case by (cases u) (auto split: option.splits)
qed

lemma rep_cong:
  "(\<And>x. x \<in> set_tree t \<Longrightarrow> h' x = h x) \<Longrightarrow> rep h' par p t = rep h par p t"
  by (induction t arbitrary: par p) (auto split: option.splits)

lemma rep_upd [simp]: "x \<notin> set_tree t \<Longrightarrow> rep (h(x := n)) par p t = rep h par p t"
  by (rule rep_cong) auto

lemma rep_ctx_cong:
  "(\<And>x. x \<in> set_ctx c \<Longrightarrow> h' x = h x) \<Longrightarrow> rep_ctx h' rt c p = rep_ctx h rt c p"
proof (induction c arbitrary: p)
  case Nil
  then show ?case by simp
next
  case (Cons k c)
  then show ?case
    by (cases k) (auto split: option.splits intro!: rep_cong simp: rep_cong [of _ h' h])
qed

lemma rep_ctx_upd [simp]: "x \<notin> set_ctx c \<Longrightarrow> rep_ctx (h(x := n)) rt c p = rep_ctx h rt c p"
  by (rule rep_ctx_cong) auto

lemma rep_plug:
  "rep h nullptr rt (plug c t) \<longleftrightarrow> (\<exists>p. rep_ctx h rt c p \<and> rep h (ctx_parent c) p t)"
proof (induction c t rule: plug.induct)
  case (2 a r c t)
  then show ?case by (auto simp: rep_Some split: option.splits) 
next
  case (3 l a c t)
  then show ?case by (auto simp: rep_Some split: option.splits)
qed auto

lemma inorder_plug: "inorder (plug c t) = before c @ inorder t @ after c"
  by (induction c t rule: plug.induct) auto

lemma set_tree_plug: "set_tree (plug c t) = set_ctx c \<union> set_tree t"
  by (induction c t rule: plug.induct) auto

lemma set_before_after: "set (before c) \<union> set (after c) = set_ctx c"
  by (induction c rule: set_ctx.induct) auto

lemma plug_append: "plug (c @ d) t = plug d (plug c t)"
  by (induction c t rule: plug.induct) auto

lemma rep_ctx_hole: "rep_ctx h rt c p \<Longrightarrow> rep_ctx h rt c q \<Longrightarrow> p = q"
proof (cases c)
  case (Cons k c')
  assume "rep_ctx h rt c p" "rep_ctx h rt c q"
  with Cons show ?thesis by (cases k) (auto split: option.splits)
qed simp

text \<open>Every address of a tree is the root of the subtree in some context.\<close>

lemma tree_split_at:
  "a \<in> set_tree t \<Longrightarrow> \<exists>c l r. t = plug c (Node l a r)"
proof (induction t)
  case Leaf
  then show ?case by simp
next
  case (Node l x r)
  consider "a = x" | "a \<in> set_tree l" | "a \<in> set_tree r"
    using Node.prems by auto
  then show ?case
  proof cases
    case 1
    then have "Node l x r = plug [] (Node l a r)" by simp
    then show ?thesis by blast
  next
    case 2
    then obtain c l' r' where "l = plug c (Node l' a r')"
      using Node.IH(1) by blast
    then have "Node l x r = plug (c @ [InLeft x r]) (Node l' a r')"
      by (simp add: plug_append)
    then show ?thesis by blast
  next
    case 3
    then obtain c l' r' where "r = plug c (Node l' a r')"
      using Node.IH(2) by blast
    then have "Node l x r = plug (c @ [InRight l x]) (Node l' a r')"
      by (simp add: plug_append)
    then show ?thesis by blast
  qed
qed

text \<open>The parts of a tree without repeated addresses do not overlap.\<close>

lemma distinct_plug:
  "distinct (inorder (plug c t)) \<longleftrightarrow>
     distinct (before c) \<and> distinct (inorder t) \<and> distinct (after c) \<and>
     set (before c) \<inter> set (after c) = {} \<and> set_tree t \<inter> set_ctx c = {}"
  by (auto simp: inorder_plug set_before_after [symmetric])

lemma bst_rep_plugE:
  assumes "bst_rep b (plug c (Node l a r))"
  obtains n where "heap b a = Some n" "parent n = ctx_parent c"
    "rep (heap b) (Some a) (left_subtree n) l" "rep (heap b) (Some a) (right_subtree n) r"
    "rep_ctx (heap b) (root b) c (Some a)"
  using assms by (auto simp: bst_rep_def rep_plug split: option.splits)

lemma entries_cong: "(\<And>x. x \<in> set xs \<Longrightarrow> kv_at h' x = kv_at h x) \<Longrightarrow> entries h' xs = entries h xs"
proof (induction xs)
  case (Cons x xs)
  have "kv_at h' x = kv_at h x" "entries h' xs = entries h xs"
    using Cons by auto
  then show ?case by (simp add: entries_def List.map_filter_simps split: option.split)
qed (simp add: entries_def List.map_filter_simps)

lemma entries_append [simp]: "entries h (xs @ ys) = entries h xs @ entries h ys"
  by (simp add: entries_def map_filter_def)

lemma entries_Nil [simp]: "entries h [] = []"
  by (simp add: entries_def List.map_filter_simps)

lemma entries_Cons: "entries h (x # xs) = (case kv_at h x of None \<Rightarrow> [] | Some e \<Rightarrow> [e]) @ entries h xs"
  by (simp add: entries_def List.map_filter_simps split: option.splits)

subsection \<open>What a pointer write leaves alone\<close>

definition data_at :: "('k, 'v, 'e) heap \<Rightarrow> nat \<Rightarrow> ('k \<times> 'v \<times> 'e) option" where
  "data_at h a = (case h a of None \<Rightarrow> None | Some n \<Rightarrow> Some (nd_key n, nd_val n, ext n))"

lemma data_at_kv: "data_at h' a = data_at h a \<Longrightarrow> kv_at h' a = kv_at h a"
  by (auto simp: data_at_def kv_at_def split: option.splits)

lemma kv_at_data: "kv_at h x = map_option (\<lambda>(k, v, e). (k, v)) (data_at h x)"
  by (simp add: kv_at_def data_at_def split: option.split)

lemma data_at_entries: "data_at h' = data_at h \<Longrightarrow> entries h' xs = entries h xs"
  by (intro entries_cong data_at_kv) simp

lemma data_at_upd [simp]:
  "h a = Some n \<Longrightarrow> nd_key n' = nd_key n \<Longrightarrow> nd_val n' = nd_val n \<Longrightarrow> ext n' = ext n \<Longrightarrow>
     data_at (h(a \<mapsto> n')) = data_at h"
  by (rule HOL.ext) (simp add: data_at_def)

text \<open>The parent write as a heap function, for a pointer that is null or allocated.\<close>

definition repar :: "('k, 'v, 'e) heap \<Rightarrow> ptr \<Rightarrow> ptr \<Rightarrow> ('k, 'v, 'e) heap" where
  "repar h p q = (case p of None \<Rightarrow> h
     | Some a \<Rightarrow> (case h a of None \<Rightarrow> h | Some n \<Rightarrow> h(a \<mapsto> n\<lparr>parent := q\<rparr>)))"

lemma set_parent_nn_repar: "rep h par p t \<Longrightarrow> set_parent_nn h p q = Some (repar h p q)"
  by (cases p) (auto simp: ptr_defs repar_def rep_Some)

lemma repar_None [simp]: "repar h None q = h"
  by (simp add: repar_def)

lemma repar_other [simp]: "p \<noteq> Some x \<Longrightarrow> repar h p q x = h x"
  by (auto simp: repar_def split: option.splits)

lemma repar_same: "h a = Some n \<Longrightarrow> repar h (Some a) q a = Some (n\<lparr>parent := q\<rparr>)"
  by (simp add: repar_def)

lemma data_at_repar [simp]: "data_at (repar h p q) = data_at h"
  by (auto simp: repar_def split: option.splits)

lemma rep_repar_other [simp]:
  "p \<notin> Some ` set_tree t \<Longrightarrow> rep (repar h p q) par p' t = rep h par p' t"
  by (rule rep_cong) (auto intro!: repar_other)

lemma rep_ctx_repar_other [simp]:
  "p \<notin> Some ` set_ctx c \<Longrightarrow> rep_ctx (repar h p q) rt c p' = rep_ctx h rt c p'"
  by (rule rep_ctx_cong) (auto intro!: repar_other)

lemma rep_repar_same:
  "rep h par p t \<Longrightarrow> distinct (inorder t) \<Longrightarrow> rep (repar h p q) q p t"
  by (cases t) (auto simp: repar_def split: option.splits)

lemma ptr_notin: "rep h par p t \<Longrightarrow> set_tree t \<inter> S = {} \<Longrightarrow> p \<notin> Some ` S"
  by (cases t) auto

lemma rep_data_cong_alloc: "rep h par p t \<Longrightarrow> x \<in> set_tree t \<Longrightarrow> data_at h x \<noteq> None"
  using rep_alloc [of h par p t x] by (auto simp: data_at_def split: option.splits)

lemma set_left_Some [simp]: "h a = Some n \<Longrightarrow> set_left h (Some a) q = Some (h(a \<mapsto> n\<lparr>left_subtree := q\<rparr>))"
  by (simp add: ptr_defs)

lemma set_right_Some [simp]: "h a = Some n \<Longrightarrow> set_right h (Some a) q = Some (h(a \<mapsto> n\<lparr>right_subtree := q\<rparr>))"
  by (simp add: ptr_defs)

lemma set_parent_Some [simp]: "h a = Some n \<Longrightarrow> set_parent h (Some a) q = Some (h(a \<mapsto> n\<lparr>parent := q\<rparr>))"
  by (simp add: ptr_defs)

lemma deref_Some [simp]: "deref h (Some a) = h a"
  by (simp add: ptr_defs)

definition valid_ptr :: "('k, 'v, 'e) heap \<Rightarrow> ptr \<Rightarrow> bool" where
  "valid_ptr h p \<longleftrightarrow> (case p of None \<Rightarrow> True | Some a \<Rightarrow> h a \<noteq> None)"

lemma valid_upd [simp]: "valid_ptr h p \<Longrightarrow> valid_ptr (h(a \<mapsto> n)) p"
  by (auto simp: valid_ptr_def split: option.splits)

lemma valid_repar [simp]: "valid_ptr h p \<Longrightarrow> valid_ptr (repar h p' q) p"
  by (auto simp: valid_ptr_def repar_def split: option.splits)

lemma rep_valid: "rep h par p t \<Longrightarrow> valid_ptr h p"
  by (cases p) (auto simp: valid_ptr_def rep_Some)

lemma set_parent_nn_valid [simp]: "valid_ptr h p \<Longrightarrow> set_parent_nn h p q = Some (repar h p q)"
  by (auto simp: ptr_defs repar_def valid_ptr_def split: option.splits)

subsection \<open>A concrete tree\<close>

text \<open>Four nodes with keys 5, 3, 9 and 4 at the addresses 0 to 3; the witnesses use it.\<close>

definition sample_heap :: "(int, int, unit) heap" where
  "sample_heap = (\<lambda>_. None)
     (0 \<mapsto> \<lparr>nd_key = 5, nd_val = 50, parent = None, left_subtree = Some 1, right_subtree = Some 2, ext = ()\<rparr>,
      1 \<mapsto> \<lparr>nd_key = 3, nd_val = 30, parent = Some 0, left_subtree = None, right_subtree = Some 3, ext = ()\<rparr>,
      2 \<mapsto> \<lparr>nd_key = 9, nd_val = 90, parent = Some 0, left_subtree = None, right_subtree = None, ext = ()\<rparr>,
      3 \<mapsto> \<lparr>nd_key = 4, nd_val = 40, parent = Some 1, left_subtree = None, right_subtree = None, ext = ()\<rparr>)"

definition sample_bst :: "(int, int, unit) bst" where
  "sample_bst = \<lparr>heap = sample_heap, root = Some 0, tree_size = 4\<rparr>"

definition sample_tree :: "nat tree" where
  "sample_tree = Node (Node Leaf 1 (Node Leaf 3 Leaf)) 0 (Node Leaf 2 Leaf)"

lemma sample_rep: "bst_rep sample_bst sample_tree"
  by (simp add: bst_rep_def sample_bst_def sample_tree_def sample_heap_def)

end
