(* ===== verification/BstRotate.thy ===== *)
theory BstRotate
  imports BstHeap
begin

text \<open>
  The six rotations of binary_search_tree.h as heap programs. A parameter \<open>node *&subtree_root\<close> is
  modelled by its value on entry and its value on return: the caller stores the second one in the
  variable or field the reference names. Every rotation is shown to compute the corresponding
  rotation of the abstract tree in any context, so it keeps the order of the nodes, their data and
  the parent links.
\<close>

subsection \<open>The rotations of the code\<close>

definition replace_child :: "('k, 'v, 'e) heap \<Rightarrow> ptr \<Rightarrow> ptr \<Rightarrow> ptr \<Rightarrow> ('k, 'v, 'e) heap option" where
  "replace_child h par a c =
     (if par = nullptr then Some h
      else do {
        pn \<leftarrow> deref h par;
        (if a = left_subtree pn then set_left h par c else set_right h par c)
      })"

definition small_left_rotation ::
  "('k, 'v, 'e) heap \<Rightarrow> ptr \<Rightarrow> (('k, 'v, 'e) heap \<times> ptr) option" where
  "small_left_rotation h subtree_root =
     (if subtree_root = nullptr then Some (h, subtree_root)
      else do {
        an \<leftarrow> deref h subtree_root;
        (if right_subtree an = nullptr then Some (h, subtree_root)
         else do {
           let a = subtree_root;
           let b = left_subtree an;
           let c = right_subtree an;
           cn \<leftarrow> deref h c;
           let d = left_subtree cn;
           let e = right_subtree cn;
           h \<leftarrow> replace_child h (parent an) a c;
           h \<leftarrow> set_left h c a;
           h \<leftarrow> set_parent h c (parent an);
           h \<leftarrow> set_parent h a c;
           h \<leftarrow> set_right h c e;
           h \<leftarrow> set_parent_nn h e c;
           h \<leftarrow> set_left h a b;
           h \<leftarrow> set_parent_nn h b a;
           h \<leftarrow> set_right h a d;
           h \<leftarrow> set_parent_nn h d a;
           Some (h, c)
         })
      })"

definition small_right_rotation ::
  "('k, 'v, 'e) heap \<Rightarrow> ptr \<Rightarrow> (('k, 'v, 'e) heap \<times> ptr) option" where
  "small_right_rotation h subtree_root =
     (if subtree_root = nullptr then Some (h, subtree_root)
      else do {
        an \<leftarrow> deref h subtree_root;
        (if left_subtree an = nullptr then Some (h, subtree_root)
         else do {
           let a = subtree_root;
           let b = left_subtree an;
           let c = right_subtree an;
           bn \<leftarrow> deref h b;
           let d = left_subtree bn;
           let e = right_subtree bn;
           h \<leftarrow> replace_child h (parent an) a b;
           h \<leftarrow> set_left h b d;
           h \<leftarrow> set_parent h b (parent an);
           h \<leftarrow> set_parent_nn h d b;
           h \<leftarrow> set_right h b a;
           h \<leftarrow> set_parent h a b;
           h \<leftarrow> set_left h a e;
           h \<leftarrow> set_parent_nn h e a;
           h \<leftarrow> set_right h a c;
           h \<leftarrow> set_parent_nn h c a;
           Some (h, b)
         })
      })"

definition big_left_rotation ::
  "('k, 'v, 'e) heap \<Rightarrow> ptr \<Rightarrow> (('k, 'v, 'e) heap \<times> ptr) option" where
  "big_left_rotation h subtree_root = do {
     n \<leftarrow> deref h subtree_root;
     (if right_subtree n = nullptr then Some (h, subtree_root)
      else do {
        (h, v) \<leftarrow> small_right_rotation h (right_subtree n);
        h \<leftarrow> set_right h subtree_root v;
        small_left_rotation h subtree_root
      })
   }"

definition big_right_rotation ::
  "('k, 'v, 'e) heap \<Rightarrow> ptr \<Rightarrow> (('k, 'v, 'e) heap \<times> ptr) option" where
  "big_right_rotation h subtree_root = do {
     n \<leftarrow> deref h subtree_root;
     (if left_subtree n = nullptr then Some (h, subtree_root)
      else do {
        (h, v) \<leftarrow> small_left_rotation h (left_subtree n);
        h \<leftarrow> set_left h subtree_root v;
        small_right_rotation h subtree_root
      })
   }"

definition double_left_rotation ::
  "('k, 'v, 'e) heap \<Rightarrow> ptr \<Rightarrow> (('k, 'v, 'e) heap \<times> ptr) option" where
  "double_left_rotation h subtree_root = do {
     n \<leftarrow> deref h subtree_root;
     (if right_subtree n = nullptr then Some (h, subtree_root)
      else do {
        rn \<leftarrow> deref h (right_subtree n);
        (if right_subtree rn = nullptr then Some (h, subtree_root)
         else do {
           (h, v) \<leftarrow> small_left_rotation h subtree_root;
           small_left_rotation h v
         })
      })
   }"

definition double_right_rotation ::
  "('k, 'v, 'e) heap \<Rightarrow> ptr \<Rightarrow> (('k, 'v, 'e) heap \<times> ptr) option" where
  "double_right_rotation h subtree_root = do {
     n \<leftarrow> deref h subtree_root;
     (if left_subtree n = nullptr then Some (h, subtree_root)
      else do {
        ln \<leftarrow> deref h (left_subtree n);
        (if left_subtree ln = nullptr then Some (h, subtree_root)
         else do {
           (h, v) \<leftarrow> small_right_rotation h subtree_root;
           small_right_rotation h v
         })
      })
   }"

subsection \<open>Rotations of abstract trees\<close>

fun rotl :: "nat tree \<Rightarrow> nat tree" where
  "rotl (Node b a (Node d c e)) = Node (Node b a d) c e"
| "rotl t = t"

fun rotr :: "nat tree \<Rightarrow> nat tree" where
  "rotr (Node (Node d b e) a c) = Node d b (Node e a c)"
| "rotr t = t"

lemma inorder_rotl [simp]: "inorder (rotl t) = inorder t"
  by (induction t rule: rotl.induct) auto

lemma inorder_rotr [simp]: "inorder (rotr t) = inorder t"
  by (induction t rule: rotr.induct) auto

lemma set_tree_rot [simp]: "set_tree (rotl t) = set_tree t" "set_tree (rotr t) = set_tree t"
  by (metis inorder_rotl set_inorder) (metis inorder_rotr set_inorder)

text \<open>What it means for a heap program to carry out \<open>f\<close> on the subtree in a hole.\<close>

definition sub_at :: "('k, 'v, 'e) heap \<Rightarrow> ptr \<Rightarrow> ctx \<Rightarrow> ptr \<Rightarrow> nat tree \<Rightarrow> bool" where
  "sub_at h rt c p t \<longleftrightarrow>
     rep_ctx h rt c p \<and> rep h (ctx_parent c) p t \<and> distinct (inorder (plug c t))"

definition new_root :: "ctx \<Rightarrow> ptr \<Rightarrow> ptr \<Rightarrow> ptr" where
  "new_root c rt v = (if c = [] then v else rt)"

definition performs ::
  "('k, 'v, 'e) heap \<Rightarrow> (('k, 'v, 'e) heap \<times> ptr) option \<Rightarrow> ptr \<Rightarrow> ctx \<Rightarrow> nat tree \<Rightarrow> bool" where
  "performs h res rt c t' \<longleftrightarrow>
     (\<exists>h' v. res = Some (h', v) \<and> sub_at h' (new_root c rt v) c v t' \<and> data_at h' = data_at h)"

subsection \<open>The small rotations compute the abstract ones\<close>

lemma replace_child_ctx:
  assumes "rep_ctx h rt c (Some a)" "a \<notin> set_ctx c" "distinct (before c)" "distinct (after c)" "set (before c) \<inter> set (after c) = {}"
  obtains h' where "replace_child h (ctx_parent c) (Some a) q = Some h'"
    "rep_ctx h' (new_root c rt q) c q" "\<And>x. x \<notin> set_ctx c \<Longrightarrow> h' x = h x" "data_at h' = data_at h"
proof (cases c)
  case Nil
  then show ?thesis using assms that [of h] by (simp add: replace_child_def new_root_def)
next
  case (Cons k c')
  show ?thesis
  proof (cases k)
    case (InLeft x r)
    with Cons assms(1) obtain n where n: "h x = Some n" "parent n = ctx_parent c'" "left_subtree n = Some a"
      "rep h (Some x) (right_subtree n) r" "rep_ctx h rt c' (Some x)"
      by (auto split: option.splits)
    have nin: "x \<notin> set_tree r" "x \<notin> set_ctx c'"
      using assms(3-5) Cons InLeft by (auto simp: set_before_after [symmetric])
    show ?thesis
      using n nin Cons InLeft
      by (intro that [of "h(x \<mapsto> n\<lparr>left_subtree := q\<rparr>)"]) (auto simp: replace_child_def new_root_def)
  next
    case (InRight l x)
    with Cons assms(1) obtain n where n: "h x = Some n" "parent n = ctx_parent c'" "right_subtree n = Some a"
      "rep h (Some x) (left_subtree n) l" "rep_ctx h rt c' (Some x)"
      by (auto split: option.splits)
    have nin: "x \<notin> set_tree l" "x \<notin> set_ctx c'"
      using assms(3-5) Cons InRight by (auto simp: set_before_after [symmetric])
    have "left_subtree n \<noteq> Some a"
      using n(4) assms(2) Cons InRight by (cases l) auto
    then show ?thesis
      using n nin Cons InRight
      by (intro that [of "h(x \<mapsto> n\<lparr>right_subtree := q\<rparr>)"]) (auto simp: replace_child_def new_root_def)
  qed
qed


lemma sub_at_disjoint:
  "sub_at h rt c p t \<Longrightarrow> set_tree t \<inter> set_ctx c = {} \<and> distinct (inorder t)"
  by (auto simp: sub_at_def distinct_plug)

text \<open>Redirecting the parent's child pointer touches no node of the subtree.\<close>

lemma replace_child_sub:
  assumes "sub_at h rt c (Some a) t"
  obtains h' where "replace_child h (ctx_parent c) (Some a) q = Some h'"
    "rep_ctx h' (new_root c rt q) c q" "\<And>x. x \<in> set_tree t \<Longrightarrow> h' x = h x" "data_at h' = data_at h"
proof -
  have d: "rep_ctx h rt c (Some a)" "distinct (before c)" "distinct (after c)"
      "set (before c) \<inter> set (after c) = {}" "set_tree t \<inter> set_ctx c = {}"
    using assms by (simp_all add: sub_at_def distinct_plug)
  have "a \<in> set_tree t"
    using assms by (cases t) (auto simp: sub_at_def)
  then have "a \<notin> set_ctx c"
    using d(5) by auto
  from replace_child_ctx [OF d(1) this d(2-4), of q] that d(5) show ?thesis
    by (metis disjoint_iff)
qed

lemma small_left_node:
  assumes s: "sub_at h rt c p (Node b a (Node d x e))"
  shows "performs h (small_left_rotation h p) rt c (Node (Node b a d) x e)"
proof -
  from s obtain an xn where an: "p = Some a" "h a = Some an" "parent an = ctx_parent c"
      "rep h (Some a) (left_subtree an) b" "right_subtree an = Some x"
    and xn: "h x = Some xn" "parent xn = Some a"
      "rep h (Some x) (left_subtree xn) d" "rep h (Some x) (right_subtree xn) e"
    by (auto simp: sub_at_def split: option.splits)
  from s have s': "sub_at h rt c (Some a) (Node b a (Node d x e))"
    using an(1) by simp
  from replace_child_sub [OF this, of "Some x"] obtain h1
    where h1: "replace_child h (ctx_parent c) (Some a) (Some x) = Some h1"
      "rep_ctx h1 (new_root c rt (Some x)) c (Some x)" "data_at h1 = data_at h"
      and eq: "\<And>y. y \<in> set_tree (Node b a (Node d x e)) \<Longrightarrow> h1 y = h y"
    by auto
  note dc = sub_at_disjoint [OF s]
  have ax: "a \<noteq> x" "a \<notin> set_tree b" "a \<notin> set_tree d" "a \<notin> set_tree e"
      "x \<notin> set_tree b" "x \<notin> set_tree d" "x \<notin> set_tree e" "a \<notin> set_ctx c" "x \<notin> set_ctx c"
    and st: "set_tree b \<inter> set_tree d = {}" "set_tree b \<inter> set_tree e = {}"
      "set_tree d \<inter> set_tree b = {}" "set_tree e \<inter> set_tree b = {}"
      "set_tree d \<inter> set_tree e = {}" "set_tree e \<inter> set_tree d = {}"
      "set_tree b \<inter> set_ctx c = {}" "set_tree d \<inter> set_ctx c = {}" "set_tree e \<inter> set_ctx c = {}"
      "distinct (inorder b)" "distinct (inorder d)" "distinct (inorder e)"
    using dc by auto
  have h1ax: "h1 a = Some an" "h1 x = Some xn"
    using an xn eq by auto
  have r1: "rep h1 (Some a) (left_subtree an) b" "rep h1 (Some x) (left_subtree xn) d"
      "rep h1 (Some x) (right_subtree xn) e"
    using an(4) xn(3,4) eq by (auto simp: rep_cong [of _ h1 h])
  have ne: "left_subtree an \<noteq> Some a" "left_subtree an \<noteq> Some x" "left_subtree xn \<noteq> Some a"
      "left_subtree xn \<noteq> Some x" "right_subtree xn \<noteq> Some a" "right_subtree xn \<noteq> Some x"
    using r1 ax by (cases b; cases d; cases e; auto)+
  note nin = r1 [THEN ptr_notin] and vs = r1 [THEN rep_valid]
  note same = rep_repar_same [where par = "Some a" and t = b]
    rep_repar_same [where par = "Some x" and t = d] rep_repar_same [where par = "Some x" and t = e]
  have "distinct (inorder (plug c (Node (Node b a d) x e)))"
    using s by (simp add: sub_at_def inorder_plug)
  then show ?thesis
    using an xn
    by (simp add: performs_def sub_at_def small_left_rotation_def h1 h1ax ax ax(1) [THEN not_sym] ne
        vs nin st r1 same Let_def)
qed

lemma small_right_node:
  assumes s: "sub_at h rt c p (Node (Node d x e) a b)"
  shows "performs h (small_right_rotation h p) rt c (Node d x (Node e a b))"
proof -
  from s obtain an xn where an: "p = Some a" "h a = Some an" "parent an = ctx_parent c"
      "rep h (Some a) (right_subtree an) b" "left_subtree an = Some x"
    and xn: "h x = Some xn" "parent xn = Some a"
      "rep h (Some x) (left_subtree xn) d" "rep h (Some x) (right_subtree xn) e"
    by (auto simp: sub_at_def split: option.splits)
  from s have s': "sub_at h rt c (Some a) (Node (Node d x e) a b)"
    using an(1) by simp
  from replace_child_sub [OF this, of "Some x"] obtain h1
    where h1: "replace_child h (ctx_parent c) (Some a) (Some x) = Some h1"
      "rep_ctx h1 (new_root c rt (Some x)) c (Some x)" "data_at h1 = data_at h"
      and eq: "\<And>y. y \<in> set_tree (Node (Node d x e) a b) \<Longrightarrow> h1 y = h y"
    by auto
  note dc = sub_at_disjoint [OF s]
  have ax: "a \<noteq> x" "a \<notin> set_tree b" "a \<notin> set_tree d" "a \<notin> set_tree e"
      "x \<notin> set_tree b" "x \<notin> set_tree d" "x \<notin> set_tree e" "a \<notin> set_ctx c" "x \<notin> set_ctx c"
    and st: "set_tree b \<inter> set_tree d = {}" "set_tree b \<inter> set_tree e = {}"
      "set_tree d \<inter> set_tree b = {}" "set_tree e \<inter> set_tree b = {}"
      "set_tree d \<inter> set_tree e = {}" "set_tree e \<inter> set_tree d = {}"
      "set_tree b \<inter> set_ctx c = {}" "set_tree d \<inter> set_ctx c = {}" "set_tree e \<inter> set_ctx c = {}"
      "distinct (inorder b)" "distinct (inorder d)" "distinct (inorder e)"
    using dc by auto
  have h1ax: "h1 a = Some an" "h1 x = Some xn"
    using an xn eq by auto
  have r1: "rep h1 (Some a) (right_subtree an) b" "rep h1 (Some x) (left_subtree xn) d"
      "rep h1 (Some x) (right_subtree xn) e"
    using an(4) xn(3,4) eq by (auto simp: rep_cong [of _ h1 h])
  have ne: "right_subtree an \<noteq> Some a" "right_subtree an \<noteq> Some x" "left_subtree xn \<noteq> Some a"
      "left_subtree xn \<noteq> Some x" "right_subtree xn \<noteq> Some a" "right_subtree xn \<noteq> Some x"
    using r1 ax by (cases b; cases d; cases e; auto)+
  note nin = r1 [THEN ptr_notin] and vs = r1 [THEN rep_valid]
  note same = rep_repar_same [where par = "Some a" and t = b]
    rep_repar_same [where par = "Some x" and t = d] rep_repar_same [where par = "Some x" and t = e]
  have "distinct (inorder (plug c (Node d x (Node e a b))))"
    using s by (simp add: sub_at_def inorder_plug)
  then show ?thesis
    using an xn
    by (simp add: performs_def sub_at_def small_right_rotation_def h1 h1ax ax ax(1) [THEN not_sym] ne
        vs nin st r1 same Let_def)
qed

lemma sub_at_cases:
  assumes "sub_at h rt c p t"
  shows "(p = None \<and> t = Leaf) \<or> (\<exists>a l r n. p = Some a \<and> t = Node l a r \<and> h a = Some n \<and>
    (left_subtree n = None \<longleftrightarrow> l = Leaf) \<and> (right_subtree n = None \<longleftrightarrow> r = Leaf))"
proof -
  have "rep h par q t' \<Longrightarrow> (q = None \<longleftrightarrow> t' = Leaf)" for par q t'
    by (cases t') auto
  then show ?thesis
    using assms by (cases t) (auto simp: sub_at_def split: option.splits)
qed

lemma small_left_rotation_performs:
  assumes "sub_at h rt c p t"
  shows "performs h (small_left_rotation h p) rt c (rotl t)"
  using sub_at_cases [OF assms]
proof (elim disjE exE conjE)
  fix a l r n
  assume t: "p = Some a" "t = Node l a r" "h a = Some n" "(right_subtree n = None) = (r = Leaf)"
  show ?thesis
  proof (cases r)
    case Leaf
    with t assms have "small_left_rotation h p = Some (h, p)" "rotl t = t" "new_root c rt p = rt"
      by (auto simp: small_left_rotation_def new_root_def sub_at_def)
    then show ?thesis using assms by (simp add: performs_def)
  next
    case (Node d x e)
    then show ?thesis using small_left_node assms t(2) by simp
  qed
next
  assume "p = None" "t = Leaf"
  then show ?thesis
    using assms by (auto simp: performs_def small_left_rotation_def new_root_def sub_at_def)
qed

lemma small_right_rotation_performs:
  assumes "sub_at h rt c p t"
  shows "performs h (small_right_rotation h p) rt c (rotr t)"
  using sub_at_cases [OF assms]
proof (elim disjE exE conjE)
  fix a l r n
  assume t: "p = Some a" "t = Node l a r" "h a = Some n" "(left_subtree n = None) = (l = Leaf)"
  show ?thesis
  proof (cases l)
    case Leaf
    with t assms have "small_right_rotation h p = Some (h, p)" "rotr t = t" "new_root c rt p = rt"
      by (auto simp: small_right_rotation_def new_root_def sub_at_def)
    then show ?thesis using assms by (simp add: performs_def)
  next
    case (Node d x e)
    then show ?thesis using small_right_node assms t(2) by simp
  qed
next
  assume "p = None" "t = Leaf"
  then show ?thesis
    using assms by (auto simp: performs_def small_right_rotation_def new_root_def sub_at_def)
qed

subsection \<open>Moving the hole, and the composed rotations\<close>

lemma sub_at_right:
  "sub_at h rt c p (Node l a r) \<Longrightarrow> h a = Some n \<Longrightarrow> sub_at h rt (InRight l a # c) (right_subtree n) r"
  by (auto simp: sub_at_def)

lemma sub_at_left:
  "sub_at h rt c p (Node l a r) \<Longrightarrow> h a = Some n \<Longrightarrow> sub_at h rt (InLeft a r # c) (left_subtree n) l"
  by (auto simp: sub_at_def)

lemma sub_at_up_right:
  "sub_at h rt (InRight l a # c) q r \<Longrightarrow>
     sub_at h rt c (Some a) (Node l a r) \<and> (\<exists>n. h a = Some n \<and> right_subtree n = q)"
  by (auto simp: sub_at_def split: option.splits)

lemma sub_at_up_left:
  "sub_at h rt (InLeft a r # c) q l \<Longrightarrow>
     sub_at h rt c (Some a) (Node l a r) \<and> (\<exists>n. h a = Some n \<and> left_subtree n = q)"
  by (auto simp: sub_at_def split: option.splits)

lemma performs_step:
  assumes "performs h res rt c t"
    and "\<And>h' v. res = Some (h', v) \<Longrightarrow> sub_at h' (new_root c rt v) c v t \<Longrightarrow> data_at h' = data_at h \<Longrightarrow>
           performs h' (k (h', v)) (new_root c rt v) c t'"
  shows "performs h (res \<bind> k) rt c t'"
  using assms by (fastforce simp: performs_def new_root_def)

lemma performs_node:
  "performs h res rt c (Node l x r) \<Longrightarrow>
     \<exists>h' rt'. res = Some (h', Some x) \<and> sub_at h' rt' c (Some x) (Node l x r) \<and> data_at h' = data_at h \<and>
       (c = [] \<longrightarrow> rt' = Some x)"
  by (auto simp: performs_def sub_at_def new_root_def split: if_splits)

fun bigl :: "nat tree \<Rightarrow> nat tree" where
  "bigl (Node b a r) = rotl (Node b a (rotr r))"
| "bigl Leaf = Leaf"

fun bigr :: "nat tree \<Rightarrow> nat tree" where
  "bigr (Node l a c) = rotr (Node (rotl l) a c)"
| "bigr Leaf = Leaf"

lemma big_left_rotation_performs:
  assumes "sub_at h rt c p (Node b a r)"
  shows "performs h (big_left_rotation h p) rt c (bigl (Node b a r))"
proof -
  obtain n where n: "p = Some a" "h a = Some n" "right_subtree n = None \<longleftrightarrow> r = Leaf"
    using sub_at_cases [OF assms] by auto
  show ?thesis
  proof (cases "r = Leaf")
    case True
    then show ?thesis
      using n assms by (auto simp: big_left_rotation_def performs_def new_root_def sub_at_def)
  next
    case False
    have "sub_at h rt (InRight b a # c) (right_subtree n) r"
      using assms n(2) by (rule sub_at_right)
    from small_right_rotation_performs [OF this]
    obtain h' v where 1: "small_right_rotation h (right_subtree n) = Some (h', v)"
      "sub_at h' rt (InRight b a # c) v (rotr r)" "data_at h' = data_at h"
      by (auto simp: performs_def new_root_def)
    from sub_at_up_right [OF 1(2)] obtain n' where
      2: "sub_at h' rt c (Some a) (Node b a (rotr r))" "h' a = Some n'" "right_subtree n' = v"
      by blast
    have "set_right h' p v = Some h'"
      using 2 n(1) by (auto simp: fun_upd_idem)
    then have "big_left_rotation h p = small_left_rotation h' p"
      using n 1 False by (auto simp: big_left_rotation_def)
    moreover have "performs h' (small_left_rotation h' p) rt c (bigl (Node b a r))"
      using small_left_rotation_performs [OF 2(1)] n(1) by simp
    ultimately show ?thesis
      using 1(3) by (simp add: performs_def)
  qed
qed

lemma big_right_rotation_performs:
  assumes "sub_at h rt c p (Node l a c0)"
  shows "performs h (big_right_rotation h p) rt c (bigr (Node l a c0))"
proof -
  obtain n where n: "p = Some a" "h a = Some n" "left_subtree n = None \<longleftrightarrow> l = Leaf"
    using sub_at_cases [OF assms] by auto
  show ?thesis
  proof (cases "l = Leaf")
    case True
    then show ?thesis
      using n assms by (auto simp: big_right_rotation_def performs_def new_root_def sub_at_def)
  next
    case False
    have "sub_at h rt (InLeft a c0 # c) (left_subtree n) l"
      using assms n(2) by (rule sub_at_left)
    from small_left_rotation_performs [OF this]
    obtain h' v where 1: "small_left_rotation h (left_subtree n) = Some (h', v)"
      "sub_at h' rt (InLeft a c0 # c) v (rotl l)" "data_at h' = data_at h"
      by (auto simp: performs_def new_root_def)
    from sub_at_up_left [OF 1(2)] obtain n' where
      2: "sub_at h' rt c (Some a) (Node (rotl l) a c0)" "h' a = Some n'" "left_subtree n' = v"
      by blast
    have "set_left h' p v = Some h'"
      using 2 n(1) by (auto simp: fun_upd_idem)
    then have "big_right_rotation h p = small_right_rotation h' p"
      using n 1 False by (auto simp: big_right_rotation_def)
    moreover have "performs h' (small_right_rotation h' p) rt c (bigr (Node l a c0))"
      using small_right_rotation_performs [OF 2(1)] n(1) by simp
    ultimately show ?thesis
      using 1(3) by (simp add: performs_def)
  qed
qed

fun doublel :: "nat tree \<Rightarrow> nat tree" where
  "doublel (Node b a (Node d x (Node l y r))) = Node (Node (Node b a d) x l) y r"
| "doublel t = t"

fun doubler :: "nat tree \<Rightarrow> nat tree" where
  "doubler (Node (Node (Node l y r) x d) a b) = Node l y (Node r x (Node d a b))"
| "doubler t = t"

lemma sub_at_child_null:
  assumes "sub_at h rt c p (Node l a r)" "h a = Some n"
  shows "left_subtree n = None \<longleftrightarrow> l = Leaf" "right_subtree n = None \<longleftrightarrow> r = Leaf"
  using sub_at_cases [OF assms(1)] assms(2) by auto

lemma double_left_rotation_performs:
  assumes s: "sub_at h rt c p (Node b a r)"
  shows "performs h (double_left_rotation h p) rt c (doublel (Node b a r))"
proof -
  obtain n where n: "p = Some a" "h a = Some n"
    using sub_at_cases [OF s] by auto
  have stay: "performs h (Some (h, p)) rt c (Node b a r)"
    using s by (auto simp: performs_def new_root_def sub_at_def)
  note nr = sub_at_child_null(2) [OF s n(2)]
  show ?thesis
  proof (cases r)
    case Leaf
    then show ?thesis using n nr stay by (simp add: double_left_rotation_def)
  next
    case (Node d x e)
    note sr = sub_at_right [OF s n(2), unfolded Node]
    obtain xn where xn: "right_subtree n = Some x" "h x = Some xn"
      using sub_at_cases [OF sr] by auto
    note nx = sub_at_child_null(2) [OF sr xn(2)]
    show ?thesis
    proof (cases e)
      case Leaf
      then show ?thesis using n xn nx stay Node by (simp add: double_left_rotation_def)
    next
      case e: (Node l y r')
      have "performs h (small_left_rotation h p \<bind> (\<lambda>(h, v). small_left_rotation h v)) rt c
          (rotl (rotl (Node b a r)))"
        by (rule performs_step [OF small_left_rotation_performs [OF s]])
          (simp add: small_left_rotation_performs)
      then show ?thesis using n xn nx Node e by (auto simp: double_left_rotation_def)
    qed
  qed
qed

lemma double_right_rotation_performs:
  assumes s: "sub_at h rt c p (Node l a c0)"
  shows "performs h (double_right_rotation h p) rt c (doubler (Node l a c0))"
proof -
  obtain n where n: "p = Some a" "h a = Some n"
    using sub_at_cases [OF s] by auto
  have stay: "performs h (Some (h, p)) rt c (Node l a c0)"
    using s by (auto simp: performs_def new_root_def sub_at_def)
  note nr = sub_at_child_null(1) [OF s n(2)]
  show ?thesis
  proof (cases l)
    case Leaf
    then show ?thesis using n nr stay by (simp add: double_right_rotation_def)
  next
    case (Node e x d)
    note sr = sub_at_left [OF s n(2), unfolded Node]
    obtain xn where xn: "left_subtree n = Some x" "h x = Some xn"
      using sub_at_cases [OF sr] by auto
    note nx = sub_at_child_null(1) [OF sr xn(2)]
    show ?thesis
    proof (cases e)
      case Leaf
      then show ?thesis using n xn nx stay Node by (simp add: double_right_rotation_def)
    next
      case e: (Node l' y r)
      have "performs h (small_right_rotation h p \<bind> (\<lambda>(h, v). small_right_rotation h v)) rt c
          (rotr (rotr (Node l a c0)))"
        by (rule performs_step [OF small_right_rotation_performs [OF s]])
          (simp add: small_right_rotation_performs)
      then show ?thesis using n xn nx Node e by (auto simp: double_right_rotation_def)
    qed
  qed
qed

lemma inorder_big [simp]: "inorder (bigl t) = inorder t" "inorder (bigr t) = inorder t"
  by (cases t; simp)+

lemma inorder_doublel [simp]: "inorder (doublel t) = inorder t"
  by (induction t rule: doublel.induct) auto

lemma inorder_doubler [simp]: "inorder (doubler t) = inorder t"
  by (induction t rule: doubler.induct) auto


subsection \<open>Properties\<close>

text \<open>What a rotation of the subtree in context \<open>c\<close> of a whole tree object means: it ends, the reference
  gets a new value, and with it stored in the root (when the subtree is the whole tree) the object
  holds the tree with that subtree replaced, the data of all nodes unchanged.\<close>

definition rotates ::
  "('k, 'v, 'e) bst \<Rightarrow> (('k, 'v, 'e) heap \<times> ptr) option \<Rightarrow> ctx \<Rightarrow> nat tree \<Rightarrow> bool" where
  "rotates b res c t' \<longleftrightarrow>
     (\<exists>h' v. res = Some (h', v) \<and> data_at h' = data_at (heap b) \<and>
       bst_rep (b\<lparr>heap := h', root := new_root c (root b) v\<rparr>) (plug c t'))"

lemma performs_rotates:
  "performs (heap b) res (root b) c t' \<Longrightarrow> rotates b res c t'"
  by (auto simp: performs_def rotates_def sub_at_def bst_rep_def rep_plug)

lemma bst_sub_at:
  "bst_rep b (plug c t) \<Longrightarrow> \<exists>p. rep_ctx (heap b) (root b) c p \<and> sub_at (heap b) (root b) c p t"
  by (auto simp: bst_rep_def rep_plug sub_at_def)

text \<open>C8: at any position of a tree the two small rotations carry out the rotation of the abstract tree:
  parent links stay consistent, no node is lost or duplicated, and the inorder listing is unchanged.\<close>

theorem small_rotations_correct:
  assumes "bst_rep b (plug c t)" and "rep_ctx (heap b) (root b) c p"
  shows "rotates b (small_left_rotation (heap b) p) c (rotl t) \<and>
         rotates b (small_right_rotation (heap b) p) c (rotr t) \<and>
         inorder (plug c (rotl t)) = inorder (plug c t) \<and> inorder (plug c (rotr t)) = inorder (plug c t)"
proof -
  have s: "sub_at (heap b) (root b) c p t"
    using bst_sub_at [OF assms(1)] rep_ctx_hole [OF _ assms(2)] by blast
  show ?thesis
    using small_left_rotation_performs [OF s] small_right_rotation_performs [OF s]
    by (simp add: performs_rotates inorder_plug)
qed

theorem small_rotations_correct_witness:
  "rotates sample_bst (small_left_rotation sample_heap (Some 1)) [InLeft 0 (Node Leaf 2 Leaf)]
     (Node (Node Leaf 1 Leaf) 3 Leaf)"
  using small_rotations_correct [of sample_bst "[InLeft 0 (Node Leaf 2 Leaf)]" "Node Leaf 1 (Node Leaf 3 Leaf)" "Some 1"]
    sample_rep
  by (simp add: sample_tree_def sample_bst_def sample_heap_def)

text \<open>the big and the double rotations carry out the composed rotations of the abstract tree on a
  non-empty subtree, and leave the inorder listing as it was.\<close>

theorem composed_rotations_correct:
  assumes "bst_rep b (plug c (Node l a r))" and "rep_ctx (heap b) (root b) c p"
  shows "rotates b (big_left_rotation (heap b) p) c (bigl (Node l a r)) \<and>
         rotates b (big_right_rotation (heap b) p) c (bigr (Node l a r)) \<and>
         rotates b (double_left_rotation (heap b) p) c (doublel (Node l a r)) \<and>
         rotates b (double_right_rotation (heap b) p) c (doubler (Node l a r)) \<and>
         (\<forall>f \<in> {bigl, bigr, doublel, doubler}. inorder (plug c (f (Node l a r))) = inorder (plug c (Node l a r)))"
proof -
  have s: "sub_at (heap b) (root b) c p (Node l a r)"
    using bst_sub_at [OF assms(1)] rep_ctx_hole [OF _ assms(2)] by blast
  show ?thesis
    using big_left_rotation_performs [OF s] big_right_rotation_performs [OF s]
      double_left_rotation_performs [OF s] double_right_rotation_performs [OF s]
    by (auto simp only: performs_rotates inorder_plug inorder_big inorder_doublel inorder_doubler)
qed

theorem composed_rotations_correct_witness:
  "rotates sample_bst (big_right_rotation sample_heap (Some 0)) []
     (Node (Node Leaf 1 Leaf) 3 (Node Leaf 0 (Node Leaf 2 Leaf)))"
  using composed_rotations_correct [of sample_bst "[]" "Node Leaf 1 (Node Leaf 3 Leaf)" 0 "Node Leaf 2 Leaf" "Some 0"]
    sample_rep
  by (simp add: sample_tree_def sample_bst_def)

end
