(* ===== verification/BstTraverse.thy ===== *)
theory BstTraverse
  imports BstRotate
begin

text \<open>
  The six step functions of the iterators in binary_search_tree.h (get_next_infix, get_prev_infix,
  get_next_prefix, get_prev_prefix, get_next_postfix, get_prev_postfix) over the pointer heap, every
  while loop a \<open>partial_function\<close>, so that a loop which does not end has the value None. The
  lemmas place a node in its context and show that each step yields the neighbour of the node in the
  inorder, preorder or postorder listing of the abstract tree; in particular every loop ends.
\<close>

subsection \<open>The loops\<close>

text \<open>\<open>while (tmp->left_subtree) tmp = tmp->left_subtree;\<close> and its mirror image.\<close>

partial_function (option) go_left :: "('k, 'v, 'e) heap \<Rightarrow> ptr \<Rightarrow> ptr option" where
  "go_left h tmp = do {
     n \<leftarrow> deref h tmp;
     (if left_subtree n = nullptr then Some tmp else go_left h (left_subtree n))
   }"

partial_function (option) go_right :: "('k, 'v, 'e) heap \<Rightarrow> ptr \<Rightarrow> ptr option" where
  "go_right h tmp = do {
     n \<leftarrow> deref h tmp;
     (if right_subtree n = nullptr then Some tmp else go_right h (right_subtree n))
   }"

text \<open>The climbing loops: each gives the value the function returns after the loop.\<close>

partial_function (option) climb_next_infix :: "('k, 'v, 'e) heap \<Rightarrow> ptr \<Rightarrow> ptr option" where
  "climb_next_infix h tmp = do {
     n \<leftarrow> deref h tmp;
     (if parent n = nullptr then Some nullptr
      else do {
        pn \<leftarrow> deref h (parent n);
        (if left_subtree pn = tmp then Some (parent n) else climb_next_infix h (parent n))
      })
   }"

partial_function (option) climb_prev_infix :: "('k, 'v, 'e) heap \<Rightarrow> ptr \<Rightarrow> ptr option" where
  "climb_prev_infix h tmp = do {
     n \<leftarrow> deref h tmp;
     (if parent n = nullptr then Some nullptr
      else do {
        pn \<leftarrow> deref h (parent n);
        (if right_subtree pn = tmp then Some (parent n) else climb_prev_infix h (parent n))
      })
   }"

partial_function (option) climb_prefix_left :: "('k, 'v, 'e) heap \<Rightarrow> ptr \<Rightarrow> ptr \<Rightarrow> ptr option" where
  "climb_prefix_left h prev tmp =
     (if tmp = nullptr then Some nullptr
      else do {
        n \<leftarrow> deref h tmp;
        (if left_subtree n = prev \<and> right_subtree n \<noteq> nullptr then Some (right_subtree n)
         else climb_prefix_left h tmp (parent n))
      })"

partial_function (option) climb_prefix_right :: "('k, 'v, 'e) heap \<Rightarrow> ptr \<Rightarrow> ptr option" where
  "climb_prefix_right h tmp = do {
     n \<leftarrow> deref h tmp;
     (if parent n = nullptr then Some nullptr
      else do {
        pn \<leftarrow> deref h (parent n);
        (if right_subtree pn \<noteq> tmp \<and> right_subtree pn \<noteq> nullptr then Some (right_subtree pn)
         else climb_prefix_right h (parent n))
      })
   }"

text \<open>The nested loop of get_prev_prefix: one step left, then all the way right, again and again.\<close>

partial_function (option) left_then_right :: "('k, 'v, 'e) heap \<Rightarrow> ptr \<Rightarrow> ptr option" where
  "left_then_right h tmp = do {
     n \<leftarrow> deref h tmp;
     (if left_subtree n = nullptr then Some tmp
      else do { tmp' \<leftarrow> go_right h (left_subtree n); left_then_right h tmp' })
   }"

partial_function (option) climb_prev_postfix :: "('k, 'v, 'e) heap \<Rightarrow> ptr \<Rightarrow> ptr option" where
  "climb_prev_postfix h tmp = do {
     n \<leftarrow> deref h tmp;
     (if parent n = nullptr then Some nullptr
      else do {
        pn \<leftarrow> deref h (parent n);
        (if right_subtree pn = tmp \<and> left_subtree pn \<noteq> nullptr then Some (left_subtree pn)
         else climb_prev_postfix h (parent n))
      })
   }"

subsection \<open>The step functions\<close>

definition get_next_infix :: "('k, 'v, 'e) heap \<Rightarrow> ptr \<Rightarrow> ptr option" where
  "get_next_infix h n =
     (if n = nullptr then Some nullptr
      else do {
        nd \<leftarrow> deref h n;
        (if parent nd = nullptr then
           (if right_subtree nd \<noteq> nullptr then go_left h (right_subtree nd) else Some nullptr)
         else do {
           pn \<leftarrow> deref h (parent nd);
           (if right_subtree nd = nullptr \<and> n = left_subtree pn then Some (parent nd)
            else if right_subtree nd \<noteq> nullptr then go_left h (right_subtree nd)
            else climb_next_infix h n)
         })
      })"

definition get_prev_infix :: "('k, 'v, 'e) heap \<Rightarrow> ptr \<Rightarrow> ptr option" where
  "get_prev_infix h n =
     (if n = nullptr then Some nullptr
      else do {
        nd \<leftarrow> deref h n;
        (if left_subtree nd \<noteq> nullptr then go_right h (left_subtree nd)
         else if parent nd = nullptr then Some nullptr
         else do {
           pn \<leftarrow> deref h (parent nd);
           (if right_subtree pn = n then Some (parent nd) else climb_prev_infix h n)
         })
      })"

text \<open>The last branch of the code has no return statement; it is undefined behaviour.\<close>

definition get_next_prefix :: "('k, 'v, 'e) heap \<Rightarrow> ptr \<Rightarrow> ptr option" where
  "get_next_prefix h n =
     (if n = nullptr then Some nullptr
      else do {
        nd \<leftarrow> deref h n;
        (if left_subtree nd \<noteq> nullptr then Some (left_subtree nd)
         else if right_subtree nd \<noteq> nullptr then Some (right_subtree nd)
         else do {
           pn \<leftarrow> deref h (parent nd);
           (if n = left_subtree pn then climb_prefix_left h n (parent nd)
            else if n = right_subtree pn then climb_prefix_right h (parent nd)
            else None)
         })
      })"

definition get_prev_prefix :: "('k, 'v, 'e) heap \<Rightarrow> ptr \<Rightarrow> ptr option" where
  "get_prev_prefix h n =
     (if n = nullptr then Some nullptr
      else do {
        nd \<leftarrow> deref h n;
        (if parent nd = nullptr then Some nullptr
         else do {
           pn \<leftarrow> deref h (parent nd);
           (if n = left_subtree pn then Some (parent nd)
            else if n = right_subtree pn then left_then_right h (parent nd)
            else None)
         })
      })"

definition get_next_postfix :: "('k, 'v, 'e) heap \<Rightarrow> ptr \<Rightarrow> ptr option" where
  "get_next_postfix h n =
     (if n = nullptr then Some nullptr
      else do {
        nd \<leftarrow> deref h n;
        (if parent nd = nullptr then Some nullptr
         else do {
           pn \<leftarrow> deref h (parent nd);
           (if n = right_subtree pn \<or> right_subtree pn = nullptr then Some (parent nd)
            else do { tmp \<leftarrow> go_left h (right_subtree pn); go_right h tmp })
         })
      })"

definition get_prev_postfix :: "('k, 'v, 'e) heap \<Rightarrow> ptr \<Rightarrow> ptr option" where
  "get_prev_postfix h n = do {
     nd \<leftarrow> deref h n;
     (if right_subtree nd \<noteq> nullptr then Some (right_subtree nd)
      else if left_subtree nd \<noteq> nullptr then Some (left_subtree nd)
      else if parent nd = nullptr then Some nullptr
      else do {
        pn \<leftarrow> deref h (parent nd);
        (if left_subtree pn = n then climb_prev_postfix h n else Some (left_subtree pn))
      })
   }"

subsection \<open>Listings before and after a hole\<close>

fun pre_before :: "ctx \<Rightarrow> nat list" where
  "pre_before [] = []"
| "pre_before (InLeft a r # c) = pre_before c @ [a]"
| "pre_before (InRight l a # c) = pre_before c @ a # preorder l"

fun pre_after :: "ctx \<Rightarrow> nat list" where
  "pre_after [] = []"
| "pre_after (InLeft a r # c) = preorder r @ pre_after c"
| "pre_after (InRight l a # c) = pre_after c"

fun post_before :: "ctx \<Rightarrow> nat list" where
  "post_before [] = []"
| "post_before (InLeft a r # c) = post_before c"
| "post_before (InRight l a # c) = post_before c @ postorder l"

fun post_after :: "ctx \<Rightarrow> nat list" where
  "post_after [] = []"
| "post_after (InLeft a r # c) = postorder r @ a # post_after c"
| "post_after (InRight l a # c) = a # post_after c"

lemma preorder_plug: "preorder (plug c t) = pre_before c @ preorder t @ pre_after c"
  by (induction c t rule: plug.induct) auto

lemma postorder_plug: "postorder (plug c t) = post_before c @ postorder t @ post_after c"
  by (induction c t rule: plug.induct) auto

lemma next_of_preorder: "next_of (preorder t) = (case t of Leaf \<Rightarrow> None | Node l a r \<Rightarrow> Some a)"
  by (cases t) auto

lemma prev_of_postorder: "prev_of (postorder t) = (case t of Leaf \<Rightarrow> None | Node l a r \<Rightarrow> Some a)"
  by (cases t) (simp_all add: prev_of_append)

lemma preorder_eq_Nil [simp]: "preorder t = [] \<longleftrightarrow> t = Leaf"
  by (cases t) auto

lemma postorder_eq_Nil [simp]: "postorder t = [] \<longleftrightarrow> t = Leaf"
  by (cases t) auto

lemma inorder_eq_Nil [simp]: "inorder t = [] \<longleftrightarrow> t = Leaf"
  by (cases t) auto

lemma next_of_Nil_append: "next_of ([] @ xs) = next_of xs"
  by simp

subsection \<open>Every step reaches the neighbour in the listing\<close>

lemma sub_at_crumb:
  assumes "sub_at h rt (k # c) (Some a) t"
  obtains (l) x r xn where "k = InLeft x r" "h x = Some xn" "parent xn = ctx_parent c"
      "left_subtree xn = Some a" "right_subtree xn \<noteq> Some a" "right_subtree xn = (case r of Leaf \<Rightarrow> None | Node _ y _ \<Rightarrow> Some y)"
      "sub_at h rt c (Some x) (Node t x r)"
  | (r) l x xn where "k = InRight l x" "h x = Some xn" "parent xn = ctx_parent c"
      "right_subtree xn = Some a" "left_subtree xn \<noteq> Some a" "left_subtree xn = (case l of Leaf \<Rightarrow> None | Node _ y _ \<Rightarrow> Some y)"
      "sub_at h rt c (Some x) (Node l x t)"
proof (cases k)
  case (InLeft x r)
  with sub_at_up_left assms obtain xn where
    1: "sub_at h rt c (Some x) (Node t x r)" "h x = Some xn" "left_subtree xn = Some a" by metis
  then have "parent xn = ctx_parent c" "rep h (Some x) (right_subtree xn) r"
      and "a \<in> set_tree t" "set_tree t \<inter> set_tree r = {}"
    using assms 1 InLeft sub_at_disjoint [OF 1(1)] by (auto simp: sub_at_def rep_Some)
  with 1 InLeft show ?thesis by (intro l) (auto split: tree.splits simp: rep_Some)
next
  case (InRight l x)
  with sub_at_up_right assms obtain xn where
    1: "sub_at h rt c (Some x) (Node l x t)" "h x = Some xn" "right_subtree xn = Some a" by metis
  then have "parent xn = ctx_parent c" "rep h (Some x) (left_subtree xn) l"
      and "a \<in> set_tree t" "set_tree t \<inter> set_tree l = {}"
    using assms 1 InRight sub_at_disjoint [OF 1(1)] by (auto simp: sub_at_def rep_Some)
  with 1 InRight show ?thesis by (intro r) (auto split: tree.splits simp: rep_Some)
qed

lemma sub_at_node:
  assumes "sub_at h rt c (Some a) t"
  obtains l r n where "t = Node l a r" "h a = Some n" "parent n = ctx_parent c"
      "left_subtree n = (case l of Leaf \<Rightarrow> None | Node _ y _ \<Rightarrow> Some y)"
      "right_subtree n = (case r of Leaf \<Rightarrow> None | Node _ y _ \<Rightarrow> Some y)"
      "rep h (Some a) (left_subtree n) l" "rep h (Some a) (right_subtree n) r"
  using assms by (force simp: sub_at_def rep_Some split: tree.splits)

lemma climb_next_infix_spec:
  "sub_at h rt c (Some a) t \<Longrightarrow> climb_next_infix h (Some a) = Some (next_of (after c))"
proof (induction c arbitrary: a t)
  case Nil
  then show ?case
    by (subst climb_next_infix.simps) (auto elim!: sub_at_node)
next
  case (Cons k c)
  obtain n where n: "h a = Some n" "parent n = ctx_parent (k # c)"
    using Cons.prems by (auto elim: sub_at_node)
  from Cons.prems show ?case
  proof (cases rule: sub_at_crumb)
    case (l x r xn)
    then show ?thesis using n by (subst climb_next_infix.simps) simp
  next
    case (r l x xn)
    then show ?thesis using n Cons.IH [OF r(7)] by (subst climb_next_infix.simps) simp
  qed
qed

lemma climb_prev_infix_spec:
  "sub_at h rt c (Some a) t \<Longrightarrow> climb_prev_infix h (Some a) = Some (prev_of (before c))"
proof (induction c arbitrary: a t)
  case Nil
  then show ?case
    by (subst climb_prev_infix.simps) (auto elim!: sub_at_node)
next
  case (Cons k c)
  obtain n where n: "h a = Some n" "parent n = ctx_parent (k # c)"
    using Cons.prems by (auto elim: sub_at_node)
  from Cons.prems show ?case
  proof (cases rule: sub_at_crumb)
    case (l x r xn)
    then show ?thesis using n Cons.IH [OF l(7)] by (subst climb_prev_infix.simps) simp
  next
    case (r l x xn)
    then show ?thesis using n by (subst climb_prev_infix.simps) (simp add: prev_of_append)
  qed
qed

lemma go_left_spec:
  "rep h par p t \<Longrightarrow> t \<noteq> Leaf \<Longrightarrow> go_left h p = Some (next_of (inorder t))"
proof (induction t arbitrary: par p)
  case (Node l a r)
  then show ?case
    by (subst go_left.simps; cases l) (auto split: option.splits simp: next_of_append)
qed simp

lemma go_right_spec:
  "rep h par p t \<Longrightarrow> t \<noteq> Leaf \<Longrightarrow> go_right h p = Some (prev_of (inorder t))"
proof (induction t arbitrary: par p)
  case (Node l a r)
  then show ?case
    by (subst go_right.simps; cases r) (auto split: option.splits simp: prev_of_append prev_of_Cons)
qed simp

lemma get_next_infix_at:
  assumes s: "sub_at h rt c (Some a) (Node l a r)"
  shows "get_next_infix h (Some a) = Some (next_of (inorder r @ after c))"
proof -
  obtain n where n: "h a = Some n" "parent n = ctx_parent c"
    and r: "rep h (Some a) (right_subtree n) r" "right_subtree n = None \<longleftrightarrow> r = Leaf"
    using s by (auto elim!: sub_at_node split: tree.splits)
  have go: "r \<noteq> Leaf \<Longrightarrow> go_left h (right_subtree n) = Some (next_of (inorder r @ after c))"
    using go_left_spec [OF r(1)] by (simp add: next_of_append)
  show ?thesis
  proof (cases c)
    case Nil
    then show ?thesis using n r go by (auto simp: get_next_infix_def)
  next
    case (Cons k c')
    note climb = climb_next_infix_spec [OF s]
    from s [unfolded Cons] show ?thesis
      by (cases rule: sub_at_crumb) (use n r go climb Cons in \<open>auto simp: get_next_infix_def\<close>)
  qed
qed

lemma get_prev_infix_at:
  assumes s: "sub_at h rt c (Some a) (Node l a r)"
  shows "get_prev_infix h (Some a) = Some (prev_of (before c @ inorder l))"
proof -
  obtain n where n: "h a = Some n" "parent n = ctx_parent c"
    and r: "rep h (Some a) (left_subtree n) l" "left_subtree n = None \<longleftrightarrow> l = Leaf"
    using s by (auto elim!: sub_at_node split: tree.splits)
  have go: "l \<noteq> Leaf \<Longrightarrow> go_right h (left_subtree n) = Some (prev_of (before c @ inorder l))"
    using go_right_spec [OF r(1)] by (simp add: prev_of_append)
  show ?thesis
  proof (cases c)
    case Nil
    then show ?thesis using n r go by (auto simp: get_prev_infix_def)
  next
    case (Cons k c')
    note climb = climb_prev_infix_spec [OF s]
    from s [unfolded Cons] show ?thesis
      by (cases rule: sub_at_crumb) (use n r go climb Cons in \<open>auto simp: get_prev_infix_def prev_of_append\<close>)
  qed
qed

text \<open>In the climb of \<open>climb_prefix_left\<close> the cursor \<open>tmp\<close> is the parent of \<open>prev\<close>.\<close>

lemma climb_prefix_left_spec:
  "sub_at h rt c (Some a) t \<Longrightarrow>
     climb_prefix_left h (Some a) (ctx_parent c) = Some (next_of (pre_after c))"
proof (induction c arbitrary: a t)
  case Nil
  then show ?case by (subst climb_prefix_left.simps) simp
next
  case (Cons k c)
  from Cons.prems show ?case
  proof (cases rule: sub_at_crumb)
    case (l x r xn)
    then show ?thesis
      using Cons.IH [OF l(7)]
      by (subst climb_prefix_left.simps) (auto split: tree.splits)
  next
    case (r l x xn)
    then show ?thesis
      using Cons.IH [OF r(7)] by (subst climb_prefix_left.simps) simp
  qed
qed

lemma climb_prefix_right_spec:
  "sub_at h rt c (Some a) t \<Longrightarrow> climb_prefix_right h (Some a) = Some (next_of (pre_after c))"
proof (induction c arbitrary: a t)
  case Nil
  then show ?case by (subst climb_prefix_right.simps) (auto elim!: sub_at_node)
next
  case (Cons k c)
  obtain n where n: "h a = Some n" "parent n = ctx_parent (k # c)"
    using Cons.prems by (auto elim: sub_at_node)
  from Cons.prems show ?case
  proof (cases rule: sub_at_crumb)
    case (l x r xn)
    then show ?thesis
      using n Cons.IH [OF l(7)] by (subst climb_prefix_right.simps) (auto split: tree.splits)
  next
    case (r l x xn)
    then show ?thesis
      using n Cons.IH [OF r(7)] by (subst climb_prefix_right.simps) simp
  qed
qed

lemma go_right_pos:
  "rep h par p t \<Longrightarrow> t \<noteq> Leaf \<Longrightarrow>
     \<exists>y l par'. go_right h p = Some (Some y) \<and> rep h par' (Some y) (Node l y Leaf) \<and>
       prev_of (preorder t) = (if l = Leaf then Some y else prev_of (preorder l)) \<and> size l < size t"
proof (induction t arbitrary: par p)
  case (Node l a r)
  obtain n where n: "p = Some a" "h a = Some n" "parent n = par" "rep h (Some a) (left_subtree n) l"
    "rep h (Some a) (right_subtree n) r"
    using Node.prems(1) by (auto split: option.splits)
  show ?case
  proof (cases "r = Leaf")
    case True
    with n have "go_right h p = Some (Some a)"
      by (subst go_right.simps) simp
    moreover have "rep h par (Some a) (Node l a Leaf)"
      using n True by simp
    moreover have "prev_of (preorder (Node l a r)) = (if l = Leaf then Some a else prev_of (preorder l))"
      using True by (simp add: prev_of_Cons)
    ultimately show ?thesis
      using n True by (intro exI [of _ a] exI [of _ l] exI [of _ par]) auto
  next
    case False
    from Node.IH(2) [OF n(5) False] obtain y l' par' where y:
      "go_right h (right_subtree n) = Some (Some y)" "rep h par' (Some y) (Node l' y Leaf)"
      "prev_of (preorder r) = (if l' = Leaf then Some y else prev_of (preorder l'))"
      "size l' < size r"
      by blast
    have "go_right h p = Some (Some y)"
      using n False y(1) by (subst go_right.simps) (cases r; auto)
    moreover have "prev_of (preorder (Node l a r)) = (if l' = Leaf then Some y else prev_of (preorder l'))"
      using False y(3) by (simp add: prev_of_Cons prev_of_append)
    ultimately show ?thesis
      using y(2,4) by (intro exI [of _ y] exI [of _ l'] exI [of _ par']) auto
  qed
qed simp

lemma left_then_right_spec:
  "rep h par (Some a) (Node l a r) \<Longrightarrow>
     left_then_right h (Some a) = Some (if l = Leaf then Some a else prev_of (preorder l))"
proof (induction "size l" arbitrary: par a l r rule: less_induct)
  case less
  obtain n where n: "h a = Some n" "rep h (Some a) (left_subtree n) l"
    using less.prems by (auto split: option.splits)
  show ?case
  proof (cases "l = Leaf")
    case True
    then show ?thesis using n by (subst left_then_right.simps) simp
  next
    case False
    from go_right_pos [OF n(2) False] obtain y l' par' where y:
      "go_right h (left_subtree n) = Some (Some y)" "rep h par' (Some y) (Node l' y Leaf)"
      "prev_of (preorder l) = (if l' = Leaf then Some y else prev_of (preorder l'))"
      "size l' < size l"
      by blast
    have "left_subtree n \<noteq> None"
      using n(2) False by (cases l) auto
    then show ?thesis
      using n y less.hyps [OF y(4,2)] False by (subst left_then_right.simps) auto
  qed
qed

lemma get_next_prefix_at:
  assumes s: "sub_at h rt c (Some a) (Node l a r)" and "c \<noteq> [] \<or> l \<noteq> Leaf \<or> r \<noteq> Leaf"
  shows "get_next_prefix h (Some a) = Some (next_of (preorder l @ preorder r @ pre_after c))"
proof -
  obtain n where n: "h a = Some n" "parent n = ctx_parent c"
      "left_subtree n = (case l of Leaf \<Rightarrow> None | Node _ y _ \<Rightarrow> Some y)"
      "right_subtree n = (case r of Leaf \<Rightarrow> None | Node _ y _ \<Rightarrow> Some y)"
    using s by (auto elim!: sub_at_node)
  show ?thesis
  proof (cases "l = Leaf \<and> r = Leaf")
    case False
    then show ?thesis using n by (auto simp: get_next_prefix_def split: tree.splits)
  next
    case True
    then obtain k c' where c: "c = k # c'"
      using assms(2) by (cases c) auto
    note cl = climb_prefix_left_spec [OF s]
    from s [unfolded c] show ?thesis
    proof (cases rule: sub_at_crumb)
      case (l x r' xn)
      then show ?thesis using n cl True c by (simp add: get_next_prefix_def)
    next
      case (r l' x xn)
      then show ?thesis
        using n True c climb_prefix_right_spec [OF r(7)] by (simp add: get_next_prefix_def)
    qed
  qed
qed

lemma get_prev_prefix_at:
  assumes s: "sub_at h rt c (Some a) (Node l a r)"
  shows "get_prev_prefix h (Some a) = Some (prev_of (pre_before c))"
proof -
  obtain n where n: "h a = Some n" "parent n = ctx_parent c"
    using s by (auto elim!: sub_at_node)
  show ?thesis
  proof (cases c)
    case Nil
    then show ?thesis using n by (simp add: get_prev_prefix_def)
  next
    case (Cons k c')
    from s [unfolded Cons] show ?thesis
    proof (cases rule: sub_at_crumb)
      case (l x r' xn)
      then show ?thesis using n Cons by (simp add: get_prev_prefix_def)
    next
      case (r l' x xn)
      have "rep h (ctx_parent c') (Some x) (Node l' x (Node l a r))"
        using r(7) by (simp add: sub_at_def)
      from left_then_right_spec [OF this] r n Cons show ?thesis
        by (simp add: get_prev_prefix_def prev_of_append prev_of_Cons)
    qed
  qed
qed

lemma climb_prev_postfix_spec:
  "sub_at h rt c (Some a) t \<Longrightarrow> climb_prev_postfix h (Some a) = Some (prev_of (post_before c))"
proof (induction c arbitrary: a t)
  case Nil
  then show ?case by (subst climb_prev_postfix.simps) (auto elim!: sub_at_node)
next
  case (Cons k c)
  obtain n where n: "h a = Some n" "parent n = ctx_parent (k # c)"
    using Cons.prems by (auto elim: sub_at_node)
  from Cons.prems show ?case
  proof (cases rule: sub_at_crumb)
    case (l x r xn)
    then show ?thesis
      using n Cons.IH [OF l(7)] by (subst climb_prev_postfix.simps) simp
  next
    case (r l x xn)
    then show ?thesis
      using n Cons.IH [OF r(7)]
      by (subst climb_prev_postfix.simps) (auto simp: prev_of_append prev_of_postorder split: tree.splits)
  qed
qed

lemma get_prev_postfix_at:
  assumes s: "sub_at h rt c (Some a) (Node l a r)"
    and ok: "l \<noteq> Leaf \<or> r \<noteq> Leaf \<or> (\<nexists>x c'. c = InRight Leaf x # c' \<and> post_before c' \<noteq> [])"
  shows "get_prev_postfix h (Some a) = Some (prev_of (post_before c @ postorder l @ postorder r))"
proof -
  obtain n where n: "h a = Some n" "parent n = ctx_parent c"
      "left_subtree n = (case l of Leaf \<Rightarrow> None | Node _ y _ \<Rightarrow> Some y)"
      "right_subtree n = (case r of Leaf \<Rightarrow> None | Node _ y _ \<Rightarrow> Some y)"
    using s by (auto elim!: sub_at_node)
  show ?thesis
  proof (cases "l = Leaf \<and> r = Leaf")
    case False
    then show ?thesis
      using n by (auto simp: get_prev_postfix_def prev_of_append prev_of_postorder split: tree.splits)
  next
    case True
    show ?thesis
    proof (cases c)
      case Nil
      then show ?thesis using n True by (simp add: get_prev_postfix_def)
    next
      case (Cons k c')
      note cl = climb_prev_postfix_spec [OF s]
      from s [unfolded Cons] show ?thesis
      proof (cases rule: sub_at_crumb)
        case (l x r' xn)
        then show ?thesis using n cl True Cons by (simp add: get_prev_postfix_def)
      next
        case (r l' x xn)
        then show ?thesis
          using n cl True Cons ok
          by (auto simp: get_prev_postfix_def prev_of_append prev_of_postorder split: tree.splits)
      qed
    qed
  qed
qed

text \<open>The forward postorder step assumes that the leftmost node of the sibling has no child.\<close>

fun leftmost_childless :: "nat tree \<Rightarrow> bool" where
  "leftmost_childless Leaf = True"
| "leftmost_childless (Node l a r) = (if l = Leaf then r = Leaf else leftmost_childless l)"

lemma leftmost_first:
  "rep h par p t \<Longrightarrow> t \<noteq> Leaf \<Longrightarrow> leftmost_childless t \<Longrightarrow>
     \<exists>x. go_left h p = Some (Some x) \<and> go_right h (Some x) = Some (Some x) \<and>
       next_of (postorder t) = Some x"
proof (induction t arbitrary: par p)
  case (Node l a r)
  obtain n where n: "p = Some a" "h a = Some n" "rep h (Some a) (left_subtree n) l"
    "rep h (Some a) (right_subtree n) r"
    using Node.prems(1) by (auto split: option.splits)
  show ?case
  proof (cases "l = Leaf")
    case True
    then show ?thesis
      using n Node.prems(3) by (subst go_left.simps, subst go_right.simps) simp
  next
    case False
    then have "left_subtree n \<noteq> None"
      using n(3) by (cases l) auto
    with Node.IH(1) [OF n(3) False] Node.prems(3) False n show ?thesis
      by (subst go_left.simps) (auto simp: next_of_append)
  qed
qed simp

lemma get_next_postfix_at:
  assumes s: "sub_at h rt c (Some a) t"
    and ok: "case c of InLeft x r # c' \<Rightarrow> leftmost_childless r | _ \<Rightarrow> True"
  shows "get_next_postfix h (Some a) = Some (next_of (post_after c))"
proof -
  obtain n where n: "h a = Some n" "parent n = ctx_parent c"
    using s by (auto elim!: sub_at_node)
  show ?thesis
  proof (cases c)
    case Nil
    then show ?thesis using n by (simp add: get_next_postfix_def)
  next
    case (Cons k c')
    from s [unfolded Cons] show ?thesis
    proof (cases rule: sub_at_crumb)
      case (l x r' xn)
      have "rep h (Some x) (right_subtree xn) r'"
        using l by (auto simp: sub_at_def)
      then show ?thesis
        using n Cons l ok leftmost_first [of h "Some x" "right_subtree xn" r']
        by (auto simp: get_next_postfix_def next_of_append split: tree.splits)
    next
      case (r l' x xn)
      then show ?thesis using n Cons by (simp add: get_next_postfix_def)
    qed
  qed
qed

end
