(* ===== verification/BstIter.thy ===== *)
theory BstIter
  imports BstTraverse
begin

text \<open>
  The twelve iterator classes of binary_search_tree.h and the begin/end family. An iterator holds
  the node it stands on and a backup: past the end (or before the beginning) the first is null and
  the second is the last node visited. A class is one function from a heap, the iterator \<open>*this\<close>
  and a member call to \<open>*this\<close> afterwards and the answer of the call. The const and the reverse
  classes hold a \<open>_base\<close> iterator and forward to it. Members that do not compile when they are
  used (the const qualified post-decrements, which decrement a const copy of \<open>*this\<close>, and the
  comparison of an infix_const_iterator with a null pointer constant) have the value None.
\<close>

subsection \<open>Iterators and member calls\<close>

record iter =
  it_data :: ptr
  it_backup :: ptr

datatype call =
    PreInc | PostInc | PreDec | PostDec
  | Eq iter | Neq iter
  | Deref | Arrow | Depth
  | GetNode | Base | Conv

datatype answer = Iter iter | Truth bool | NodeData nat | Count "64 word" | NodePtr ptr

definition mk_iter :: "ptr \<Rightarrow> iter" where
  "mk_iter p = \<lparr>it_data = p, it_backup = nullptr\<rparr>"

partial_function (option) depth_loop :: "('k, 'v, 'e) heap \<Rightarrow> ptr \<Rightarrow> 64 word \<Rightarrow> 64 word option" where
  "depth_loop h current res = do {
     n \<leftarrow> deref h current;
     (if parent n = nullptr then Some res else depth_loop h (parent n) (res + 1))
   }"

text \<open>\<open>_data->data\<close>: the reference is the address of an existing node.\<close>

definition node_data :: "('k, 'v, 'e) heap \<Rightarrow> ptr \<Rightarrow> nat option" where
  "node_data h p = (case p of None \<Rightarrow> None | Some a \<Rightarrow> (case h a of None \<Rightarrow> None | Some _ \<Rightarrow> Some a))"

definition step_iter :: "ptr option \<Rightarrow> iter \<Rightarrow> iter option" where
  "step_iter q it = do { p \<leftarrow> q; Some \<lparr>it_data = p, it_backup = it_data it\<rparr> }"

subsection \<open>The three base classes\<close>

fun prefix_iterator :: "('k, 'v, 'e) heap \<Rightarrow> iter \<Rightarrow> call \<Rightarrow> (iter \<times> answer) option" where
  "prefix_iterator h it PreInc = do {
     it' \<leftarrow> step_iter (get_next_prefix h (it_data it)) it; Some (it', Iter it') }"
| "prefix_iterator h it PostInc = do {
     it' \<leftarrow> step_iter (get_next_prefix h (it_data it)) it; Some (it', Iter it) }"
| "prefix_iterator h it PreDec =
     (if it_data it = nullptr then let it' = it\<lparr>it_data := it_backup it\<rparr> in Some (it', Iter it')
      else do { it' \<leftarrow> step_iter (get_prev_prefix h (it_data it)) it; Some (it', Iter it') })"
| "prefix_iterator h it PostDec =
     (if it_data it = nullptr then Some (it\<lparr>it_data := it_backup it\<rparr>, Iter it)
      else do { it' \<leftarrow> step_iter (get_prev_prefix h (it_data it)) it; Some (it', Iter it) })"
| "prefix_iterator h it (Eq other) = Some (it, Truth (it_data it = it_data other))"
| "prefix_iterator h it (Neq other) = Some (it, Truth (it_data it \<noteq> it_data other))"
| "prefix_iterator h it Deref = do { a \<leftarrow> node_data h (it_data it); Some (it, NodeData a) }"
| "prefix_iterator h it Arrow = do { a \<leftarrow> node_data h (it_data it); Some (it, NodeData a) }"
| "prefix_iterator h it Depth =
     (if it_data it = nullptr then Some (it, Count 0)
      else do { d \<leftarrow> depth_loop h (it_data it) 0; Some (it, Count d) })"
| "prefix_iterator h it _ = None"

fun infix_iterator :: "('k, 'v, 'e) heap \<Rightarrow> iter \<Rightarrow> call \<Rightarrow> (iter \<times> answer) option" where
  "infix_iterator h it PreInc =
     (if it_data it = nullptr then let it' = it\<lparr>it_data := it_backup it\<rparr> in Some (it', Iter it')
      else do { it' \<leftarrow> step_iter (get_next_infix h (it_data it)) it; Some (it', Iter it') })"
| "infix_iterator h it PostInc =
     (if it_data it = nullptr then Some (it\<lparr>it_data := it_backup it\<rparr>, Iter it)
      else do { it' \<leftarrow> step_iter (get_next_infix h (it_data it)) it; Some (it', Iter it) })"
| "infix_iterator h it PreDec =
     (if it_data it = nullptr then let it' = it\<lparr>it_data := it_backup it\<rparr> in Some (it', Iter it')
      else do { it' \<leftarrow> step_iter (get_prev_infix h (it_data it)) it; Some (it', Iter it') })"
| "infix_iterator h it PostDec =
     (if it_data it = nullptr then Some (it\<lparr>it_data := it_backup it\<rparr>, Iter it)
      else do { it' \<leftarrow> step_iter (get_prev_infix h (it_data it)) it; Some (it', Iter it) })"
| "infix_iterator h it (Eq other) = Some (it, Truth
     (if it_data it \<noteq> nullptr \<or> it_data other \<noteq> nullptr then it_data it = it_data other
      else it_backup it = it_backup other))"
| "infix_iterator h it (Neq other) = Some (it, Truth (\<not>
     (if it_data it \<noteq> nullptr \<or> it_data other \<noteq> nullptr then it_data it = it_data other
      else it_backup it = it_backup other)))"
| "infix_iterator h it Deref = do { a \<leftarrow> node_data h (it_data it); Some (it, NodeData a) }"
| "infix_iterator h it Arrow = do { a \<leftarrow> node_data h (it_data it); Some (it, NodeData a) }"
| "infix_iterator h it Depth = do { d \<leftarrow> depth_loop h (it_data it) 0; Some (it, Count d) }"
| "infix_iterator h it GetNode = Some (it, NodePtr (it_data it))"
| "infix_iterator h it _ = None"

fun postfix_iterator :: "('k, 'v, 'e) heap \<Rightarrow> iter \<Rightarrow> call \<Rightarrow> (iter \<times> answer) option" where
  "postfix_iterator h it PreInc =
     (if it_data it = nullptr then let it' = it\<lparr>it_data := it_backup it\<rparr> in Some (it', Iter it')
      else do { it' \<leftarrow> step_iter (get_next_postfix h (it_data it)) it; Some (it', Iter it') })"
| "postfix_iterator h it PostInc =
     (if it_data it = nullptr then Some (it\<lparr>it_data := it_backup it\<rparr>, Iter it)
      else do { it' \<leftarrow> step_iter (get_next_postfix h (it_data it)) it; Some (it', Iter it) })"
| "postfix_iterator h it PreDec =
     (if it_data it = nullptr then let it' = it\<lparr>it_data := it_backup it\<rparr> in Some (it', Iter it')
      else do { it' \<leftarrow> step_iter (get_prev_postfix h (it_data it)) it; Some (it', Iter it') })"
| "postfix_iterator h it PostDec =
     (if it_data it = nullptr then Some (it\<lparr>it_data := it_backup it\<rparr>, Iter it)
      else do { it' \<leftarrow> step_iter (get_prev_postfix h (it_data it)) it; Some (it', Iter it) })"
| "postfix_iterator h it (Eq other) = Some (it, Truth
     (if it_data it \<noteq> nullptr \<or> it_data other \<noteq> nullptr then it_data it = it_data other
      else it_backup it = it_backup other))"
| "postfix_iterator h it (Neq other) = Some (it, Truth (\<not>
     (if it_data it \<noteq> nullptr \<or> it_data other \<noteq> nullptr then it_data it = it_data other
      else it_backup it = it_backup other)))"
| "postfix_iterator h it Deref = do { a \<leftarrow> node_data h (it_data it); Some (it, NodeData a) }"
| "postfix_iterator h it Arrow = do { a \<leftarrow> node_data h (it_data it); Some (it, NodeData a) }"
| "postfix_iterator h it Depth = do { d \<leftarrow> depth_loop h (it_data it) 0; Some (it, Count d) }"
| "postfix_iterator h it _ = None"

subsection \<open>The const and reverse classes\<close>

text \<open>\<open>!(*this == other)\<close>, and the forwarding of an in-place step to \<open>_base\<close>.\<close>

definition negate :: "(iter \<times> answer) option \<Rightarrow> (iter \<times> answer) option" where
  "negate r = (case r of Some (it, Truth b) \<Rightarrow> Some (it, Truth (\<not> b)) | _ \<Rightarrow> None)"

definition pre_step :: "(iter \<times> answer) option \<Rightarrow> (iter \<times> answer) option" where
  "pre_step r = do { (base, _) \<leftarrow> r; Some (base, Iter base) }"

definition post_step :: "iter \<Rightarrow> (iter \<times> answer) option \<Rightarrow> (iter \<times> answer) option" where
  "post_step it r = do { (base, _) \<leftarrow> r; Some (base, Iter it) }"

text \<open>\<open>std::prev(_base)\<close>: a copy is decremented, the object itself stays.\<close>

definition std_prev :: "iter \<Rightarrow> (iter \<times> answer) option \<Rightarrow> (iter \<times> answer) option" where
  "std_prev it r = do { (base, _) \<leftarrow> r; Some (it, Iter base) }"

fun prefix_const_iterator :: "('k, 'v, 'e) heap \<Rightarrow> iter \<Rightarrow> call \<Rightarrow> (iter \<times> answer) option" where
  "prefix_const_iterator h it PreInc = pre_step (prefix_iterator h it PreInc)"
| "prefix_const_iterator h it PostInc = post_step it (prefix_iterator h it PreInc)"
| "prefix_const_iterator h it PreDec = pre_step (prefix_iterator h it PreDec)"
| "prefix_const_iterator h it (Eq other) = prefix_iterator h it (Eq other)"
| "prefix_const_iterator h it (Neq other) = negate (prefix_iterator h it (Eq other))"
| "prefix_const_iterator h it Deref = prefix_iterator h it Deref"
| "prefix_const_iterator h it Arrow = prefix_iterator h it Arrow"
| "prefix_const_iterator h it Depth = prefix_iterator h it Depth"
| "prefix_const_iterator h it _ = None"

fun prefix_reverse_iterator :: "('k, 'v, 'e) heap \<Rightarrow> iter \<Rightarrow> call \<Rightarrow> (iter \<times> answer) option" where
  "prefix_reverse_iterator h it PreInc = pre_step (prefix_iterator h it PreDec)"
| "prefix_reverse_iterator h it PostInc = post_step it (prefix_iterator h it PreDec)"
| "prefix_reverse_iterator h it PreDec = pre_step (prefix_iterator h it PreInc)"
| "prefix_reverse_iterator h it (Eq other) = prefix_iterator h it (Eq other)"
| "prefix_reverse_iterator h it (Neq other) = negate (prefix_iterator h it (Eq other))"
| "prefix_reverse_iterator h it Deref = prefix_iterator h it Deref"
| "prefix_reverse_iterator h it Arrow = prefix_iterator h it Arrow"
| "prefix_reverse_iterator h it Depth = prefix_iterator h it Depth"
| "prefix_reverse_iterator h it Base = Some (it, Iter it)"
| "prefix_reverse_iterator h it Conv = std_prev it (prefix_iterator h it PreDec)"
| "prefix_reverse_iterator h it _ = None"

fun prefix_const_reverse_iterator :: "('k, 'v, 'e) heap \<Rightarrow> iter \<Rightarrow> call \<Rightarrow> (iter \<times> answer) option" where
  "prefix_const_reverse_iterator h it PreInc = pre_step (prefix_const_iterator h it PreDec)"
| "prefix_const_reverse_iterator h it PostInc = post_step it (prefix_const_iterator h it PreDec)"
| "prefix_const_reverse_iterator h it PreDec = pre_step (prefix_const_iterator h it PreInc)"
| "prefix_const_reverse_iterator h it (Eq other) = prefix_const_iterator h it (Eq other)"
| "prefix_const_reverse_iterator h it (Neq other) = negate (prefix_const_iterator h it (Eq other))"
| "prefix_const_reverse_iterator h it Deref = prefix_const_iterator h it Deref"
| "prefix_const_reverse_iterator h it Arrow = prefix_const_iterator h it Arrow"
| "prefix_const_reverse_iterator h it Depth = prefix_const_iterator h it Depth"
| "prefix_const_reverse_iterator h it Base = Some (it, Iter it)"
| "prefix_const_reverse_iterator h it Conv = std_prev it (prefix_const_iterator h it PreDec)"
| "prefix_const_reverse_iterator h it _ = None"

fun infix_const_iterator :: "('k, 'v, 'e) heap \<Rightarrow> iter \<Rightarrow> call \<Rightarrow> (iter \<times> answer) option" where
  "infix_const_iterator h it PreInc = pre_step (infix_iterator h it PreInc)"
| "infix_const_iterator h it PostInc = post_step it (infix_iterator h it PreInc)"
| "infix_const_iterator h it PreDec = pre_step (infix_iterator h it PreDec)"
| "infix_const_iterator h it Deref = infix_iterator h it Deref"
| "infix_const_iterator h it Arrow = infix_iterator h it Arrow"
| "infix_const_iterator h it Depth = infix_iterator h it Depth"
| "infix_const_iterator h it _ = None"

fun infix_reverse_iterator :: "('k, 'v, 'e) heap \<Rightarrow> iter \<Rightarrow> call \<Rightarrow> (iter \<times> answer) option" where
  "infix_reverse_iterator h it PreInc = pre_step (infix_iterator h it PreDec)"
| "infix_reverse_iterator h it PostInc = post_step it (infix_iterator h it PreDec)"
| "infix_reverse_iterator h it PreDec = pre_step (infix_iterator h it PreInc)"
| "infix_reverse_iterator h it (Eq other) = infix_iterator h it (Eq other)"
| "infix_reverse_iterator h it (Neq other) = negate (infix_iterator h it (Eq other))"
| "infix_reverse_iterator h it Deref = infix_iterator h it Deref"
| "infix_reverse_iterator h it Arrow = infix_iterator h it Arrow"
| "infix_reverse_iterator h it Depth = infix_iterator h it Depth"
| "infix_reverse_iterator h it Base = Some (it, Iter it)"
| "infix_reverse_iterator h it Conv = std_prev it (infix_iterator h it PreDec)"
| "infix_reverse_iterator h it _ = None"

fun infix_const_reverse_iterator :: "('k, 'v, 'e) heap \<Rightarrow> iter \<Rightarrow> call \<Rightarrow> (iter \<times> answer) option" where
  "infix_const_reverse_iterator h it PreInc = pre_step (infix_const_iterator h it PreDec)"
| "infix_const_reverse_iterator h it PostInc = post_step it (infix_const_iterator h it PreDec)"
| "infix_const_reverse_iterator h it PreDec = pre_step (infix_const_iterator h it PreInc)"
| "infix_const_reverse_iterator h it (Eq other) = infix_const_iterator h it (Eq other)"
| "infix_const_reverse_iterator h it (Neq other) = negate (infix_const_iterator h it (Eq other))"
| "infix_const_reverse_iterator h it Deref = infix_const_iterator h it Deref"
| "infix_const_reverse_iterator h it Arrow = infix_const_iterator h it Arrow"
| "infix_const_reverse_iterator h it Depth = infix_const_iterator h it Depth"
| "infix_const_reverse_iterator h it Base = Some (it, Iter it)"
| "infix_const_reverse_iterator h it Conv = std_prev it (infix_const_iterator h it PreDec)"
| "infix_const_reverse_iterator h it _ = None"

text \<open>postfix_const_iterator::operator-- has no return statement; its value is undefined.\<close>

fun postfix_const_iterator :: "('k, 'v, 'e) heap \<Rightarrow> iter \<Rightarrow> call \<Rightarrow> (iter \<times> answer) option" where
  "postfix_const_iterator h it PreInc = pre_step (postfix_iterator h it PreInc)"
| "postfix_const_iterator h it PostInc = post_step it (postfix_iterator h it PreInc)"
| "postfix_const_iterator h it PreDec = None"
| "postfix_const_iterator h it (Eq other) = postfix_iterator h it (Eq other)"
| "postfix_const_iterator h it (Neq other) = postfix_iterator h it (Neq other)"
| "postfix_const_iterator h it Deref = postfix_iterator h it Deref"
| "postfix_const_iterator h it Arrow = postfix_iterator h it Arrow"
| "postfix_const_iterator h it Depth = postfix_iterator h it Depth"
| "postfix_const_iterator h it _ = None"

fun postfix_reverse_iterator :: "('k, 'v, 'e) heap \<Rightarrow> iter \<Rightarrow> call \<Rightarrow> (iter \<times> answer) option" where
  "postfix_reverse_iterator h it PreInc = pre_step (postfix_iterator h it PreDec)"
| "postfix_reverse_iterator h it PostInc = post_step it (postfix_iterator h it PreDec)"
| "postfix_reverse_iterator h it PreDec = pre_step (postfix_iterator h it PreInc)"
| "postfix_reverse_iterator h it (Eq other) = postfix_iterator h it (Eq other)"
| "postfix_reverse_iterator h it (Neq other) = negate (postfix_iterator h it (Eq other))"
| "postfix_reverse_iterator h it Deref = postfix_iterator h it Deref"
| "postfix_reverse_iterator h it Arrow = postfix_iterator h it Arrow"
| "postfix_reverse_iterator h it Depth = postfix_iterator h it Depth"
| "postfix_reverse_iterator h it Base = Some (it, Iter it)"
| "postfix_reverse_iterator h it Conv = std_prev it (postfix_iterator h it PreDec)"
| "postfix_reverse_iterator h it _ = None"

fun postfix_const_reverse_iterator :: "('k, 'v, 'e) heap \<Rightarrow> iter \<Rightarrow> call \<Rightarrow> (iter \<times> answer) option" where
  "postfix_const_reverse_iterator h it PreInc = pre_step (postfix_const_iterator h it PreDec)"
| "postfix_const_reverse_iterator h it PostInc = post_step it (postfix_const_iterator h it PreDec)"
| "postfix_const_reverse_iterator h it PreDec = pre_step (postfix_const_iterator h it PreInc)"
| "postfix_const_reverse_iterator h it (Eq other) = postfix_const_iterator h it (Eq other)"
| "postfix_const_reverse_iterator h it (Neq other) = negate (postfix_const_iterator h it (Eq other))"
| "postfix_const_reverse_iterator h it Deref = postfix_const_iterator h it Deref"
| "postfix_const_reverse_iterator h it Arrow = postfix_const_iterator h it Arrow"
| "postfix_const_reverse_iterator h it Depth = postfix_const_iterator h it Depth"
| "postfix_const_reverse_iterator h it Base = Some (it, Iter it)"
| "postfix_const_reverse_iterator h it Conv = std_prev it (postfix_const_iterator h it PreDec)"
| "postfix_const_reverse_iterator h it _ = None"

subsection \<open>Begin and end\<close>

definition begin_infix :: "('k, 'v, 'e) bst \<Rightarrow> iter option" where
  "begin_infix b =
     (if root b = nullptr then Some (mk_iter nullptr)
      else do { current \<leftarrow> go_left (heap b) (root b); Some (mk_iter current) })"

definition end_infix :: "('k, 'v, 'e) bst \<Rightarrow> iter option" where
  "end_infix b =
     (if root b = nullptr then Some (mk_iter nullptr)
      else do { current \<leftarrow> go_right (heap b) (root b);
                Some ((mk_iter nullptr)\<lparr>it_backup := current\<rparr>) })"

definition after_call :: "(iter \<times> answer) option \<Rightarrow> iter option" where
  "after_call r = do { (it, _) \<leftarrow> r; Some it }"

definition rbegin_infix :: "('k, 'v, 'e) bst \<Rightarrow> iter option" where
  "rbegin_infix b = do { it \<leftarrow> end_infix b; after_call (infix_iterator (heap b) it PostDec) }"

definition rend_infix :: "('k, 'v, 'e) bst \<Rightarrow> iter option" where
  "rend_infix b = do { it \<leftarrow> begin_infix b; after_call (infix_iterator (heap b) it PostDec) }"

definition begin_prefix :: "('k, 'v, 'e) bst \<Rightarrow> iter option" where
  "begin_prefix b = Some (mk_iter (root b))"

text \<open>The search of end_prefix for the backup: right as far as possible, then one step left, while
  the node has a left child.\<close>

partial_function (option) last_prefix :: "('k, 'v, 'e) heap \<Rightarrow> ptr \<Rightarrow> ptr option" where
  "last_prefix h tmp = do {
     n \<leftarrow> deref h tmp;
     (if left_subtree n = nullptr then Some tmp
      else do {
        tmp \<leftarrow> go_right h tmp;
        n \<leftarrow> deref h tmp;
        last_prefix h (if left_subtree n \<noteq> nullptr then left_subtree n else tmp)
      })
   }"

definition end_prefix :: "('k, 'v, 'e) bst \<Rightarrow> iter option" where
  "end_prefix b = do {
     tmp \<leftarrow> last_prefix (heap b) (root b);
     Some ((mk_iter nullptr)\<lparr>it_backup := tmp\<rparr>)
   }"

definition rbegin_prefix :: "('k, 'v, 'e) bst \<Rightarrow> iter option" where
  "rbegin_prefix b = do { it \<leftarrow> end_prefix b; after_call (prefix_iterator (heap b) it PostDec) }"

definition rend_prefix :: "('k, 'v, 'e) bst \<Rightarrow> iter option" where
  "rend_prefix b = do { it \<leftarrow> begin_prefix b; after_call (prefix_iterator (heap b) it PostDec) }"

definition begin_postfix :: "('k, 'v, 'e) bst \<Rightarrow> iter option" where
  "begin_postfix b = do {
     tmp \<leftarrow> go_left (heap b) (root b);
     tmp \<leftarrow> go_right (heap b) tmp;
     Some (mk_iter tmp)
   }"

definition end_postfix :: "('k, 'v, 'e) bst \<Rightarrow> iter option" where
  "end_postfix b = Some ((mk_iter nullptr)\<lparr>it_backup := root b\<rparr>)"

definition rbegin_postfix :: "('k, 'v, 'e) bst \<Rightarrow> iter option" where
  "rbegin_postfix b = do { it \<leftarrow> end_postfix b; after_call (postfix_iterator (heap b) it PostDec) }"

definition rend_postfix :: "('k, 'v, 'e) bst \<Rightarrow> iter option" where
  "rend_postfix b = do { it \<leftarrow> begin_postfix b; after_call (postfix_iterator (heap b) it PostDec) }"

subsection \<open>The traversal loop\<close>

text \<open>
  \<open>for (it = first; it != stop; ++it)\<close>, collecting the node of each position. The loop is the one of
  the destructor and of every client of the container; the class of the iterator is an argument.
\<close>

partial_function (option) traverse ::
  "(iter \<Rightarrow> call \<Rightarrow> (iter \<times> answer) option) \<Rightarrow> iter \<Rightarrow> iter \<Rightarrow> ptr list option" where
  "traverse cls it stop = do {
     (it, ne) \<leftarrow> cls it (Neq stop);
     (if ne = Truth True then do {
        rest \<leftarrow> (do { (it', _) \<leftarrow> cls it PreInc; traverse cls it' stop });
        Some (it_data it # rest)
      } else Some [])
   }"

subsection \<open>Containers whose iterators list them\<close>

text \<open>
  The contract between an iterator class and the traversal loop: the first position, the test
  against the end position and the step. The loop then visits exactly the list, in order.
\<close>

locale traversable =
  fixes cls :: "'c \<Rightarrow> iter \<Rightarrow> call \<Rightarrow> (iter \<times> answer) option"
    and first :: "'c \<Rightarrow> iter option" and stop :: "'c \<Rightarrow> iter option"
    and lists :: "'c \<Rightarrow> nat list \<Rightarrow> bool"
  assumes first_law: "lists b xs \<Longrightarrow>
        \<exists>it. first b = Some it \<and> it_data it = next_of xs \<and> (xs = [] \<longrightarrow> it_backup it = nullptr)"
    and stop_law: "lists b xs \<Longrightarrow>
        \<exists>e. stop b = Some e \<and>
          (\<forall>it. it_data it \<noteq> nullptr \<longrightarrow> cls b it (Neq e) = Some (it, Truth True)) \<and>
          (\<forall>it. it_data it = nullptr \<and> it_backup it = prev_of xs \<longrightarrow> cls b it (Neq e) = Some (it, Truth False))"
    and step_law: "lists b (xs @ a # ys) \<Longrightarrow> it_data it = Some a \<Longrightarrow>
        \<exists>it'. cls b it PreInc = Some (it', Iter it') \<and> it_data it' = next_of ys \<and> it_backup it' = Some a"
begin

lemma traverse_rest:
  assumes "lists b zs" "stop b = Some e" "zs = xs @ ys" "it_data it = next_of ys"
    "ys = [] \<Longrightarrow> it_backup it = prev_of zs"
  shows "traverse (cls b) it e = Some (map Some ys)"
  using assms(3-)
proof (induction ys arbitrary: xs it)
  case Nil
  then show ?case
    using stop_law [OF assms(1)] assms(2) by (subst traverse.simps) auto
next
  case (Cons a ys)
  obtain it' where it': "cls b it PreInc = Some (it', Iter it')" "it_data it' = next_of ys"
      "it_backup it' = Some a"
    using step_law [of b xs a ys it] assms(1) Cons.prems by auto
  have "ys = [] \<Longrightarrow> it_backup it' = prev_of zs"
    using it' Cons.prems(1) by simp
  then have "traverse (cls b) it' e = Some (map Some ys)"
    using Cons.IH [of "xs @ [a]" it'] it' Cons.prems(1) by simp
  moreover have "cls b it (Neq e) = Some (it, Truth True)"
    using stop_law [OF assms(1)] assms(2) Cons.prems(2) by auto
  ultimately show ?case
    using it' Cons.prems(2) by (subst traverse.simps) simp
qed

theorem traverse_all:
  assumes "lists b xs"
  shows "do { it \<leftarrow> first b; e \<leftarrow> stop b; traverse (cls b) it e } = Some (map Some xs)"
proof -
  obtain it where it: "first b = Some it" "it_data it = next_of xs" "xs = [] \<longrightarrow> it_backup it = nullptr"
    using first_law [OF assms] by blast
  obtain e where e: "stop b = Some e"
    using stop_law [OF assms] by blast
  show ?thesis
    using traverse_rest [OF assms e, of "[]" xs it] it e by simp
qed

end

lemma sub_at_top: "bst_rep b t \<Longrightarrow> sub_at (heap b) (root b) [] (root b) t"
  by (simp add: bst_rep_def sub_at_def)

lemma sub_at_plug:
  "bst_rep b (plug c (Node l a r)) \<Longrightarrow> sub_at (heap b) (root b) c (Some a) (Node l a r)"
  by (auto simp: bst_rep_def sub_at_def rep_plug)

lemma bst_split_inorder:
  assumes "bst_rep b t" "inorder t = xs @ a # ys"
  obtains c l r where "sub_at (heap b) (root b) c (Some a) (Node l a r)" "t = plug c (Node l a r)"
    "xs = before c @ inorder l" "ys = inorder r @ after c"
proof -
  have "a \<in> set_tree t"
    using assms(2) by (metis in_set_conv_decomp set_inorder)
  then obtain c l r where t: "t = plug c (Node l a r)"
    using tree_split_at by blast
  then have eq: "(before c @ inorder l) @ a # (inorder r @ after c) = xs @ a # ys"
    using assms(2) by (simp add: inorder_plug)
  have d: "distinct (xs @ a # ys)"
    using assms by (simp add: bst_rep_def)
  show ?thesis
    using that [of c l r] t assms(1) distinct_split_unique [OF d eq [symmetric]] sub_at_plug by blast
qed

lemma distinct_preorder: "distinct (preorder t) \<longleftrightarrow> distinct (inorder t)"
  by (induction t) auto

lemma bst_split_preorder:
  assumes "bst_rep b t" "preorder t = xs @ a # ys"
  obtains c l r where "sub_at (heap b) (root b) c (Some a) (Node l a r)" "t = plug c (Node l a r)"
    "xs = pre_before c" "ys = preorder l @ preorder r @ pre_after c"
proof -
  have "a \<in> set_tree t"
    using assms(2) by (metis in_set_conv_decomp set_preorder)
  then obtain c l r where t: "t = plug c (Node l a r)"
    using tree_split_at by blast
  then have eq: "pre_before c @ a # (preorder l @ preorder r @ pre_after c) = xs @ a # ys"
    using assms(2) by (simp add: preorder_plug)
  have d: "distinct (xs @ a # ys)"
    using assms by (metis bst_rep_def distinct_preorder)
  show ?thesis
    using that [of c l r] t assms(1) distinct_split_unique [OF d eq [symmetric]] sub_at_plug by blast
qed

definition infix_lists :: "('k, 'v, 'e) bst \<Rightarrow> nat list \<Rightarrow> bool" where
  "infix_lists b xs \<longleftrightarrow> (\<exists>t. bst_rep b t \<and> inorder t = xs)"

definition prefix_lists :: "('k, 'v, 'e) bst \<Rightarrow> nat list \<Rightarrow> bool" where
  "prefix_lists b xs \<longleftrightarrow> (\<exists>t. bst_rep b t \<and> preorder t = xs \<and> 2 \<le> length xs)"

lemma begin_infix_at:
  "bst_rep b t \<Longrightarrow> begin_infix b = Some (mk_iter (next_of (inorder t)))"
  using go_left_spec [of "heap b" None "root b" t]
  by (cases t) (auto simp: begin_infix_def bst_rep_def simp del: inorder.simps(2))

lemma end_infix_at:
  "bst_rep b t \<Longrightarrow> end_infix b = Some \<lparr>it_data = nullptr, it_backup = prev_of (inorder t)\<rparr>"
  using go_right_spec [of "heap b" None "root b" t]
  by (cases t) (auto simp: end_infix_def bst_rep_def mk_iter_def simp del: inorder.simps(2))

interpretation forward: traversable "\<lambda>b. infix_iterator (heap b)" begin_infix end_infix infix_lists
proof unfold_locales
  fix b :: "('a, 'b, 'c) bst" and xs a ys and it :: iter
  assume "infix_lists b (xs @ a # ys)" and it: "it_data it = Some a"
  then obtain t where "bst_rep b t" "inorder t = xs @ a # ys"
    by (auto simp: infix_lists_def)
  then show "\<exists>it'. infix_iterator (heap b) it PreInc = Some (it', Iter it') \<and> it_data it' = next_of ys \<and> it_backup it' = Some a"
    by (rule bst_split_inorder) (use it in \<open>auto simp: step_iter_def dest: get_next_infix_at\<close>)
next
  fix b :: "('a, 'b, 'c) bst" and xs
  assume "infix_lists b xs"
  then show "\<exists>it. begin_infix b = Some it \<and> it_data it = next_of xs \<and> (xs = [] \<longrightarrow> it_backup it = nullptr)"
    by (auto simp: infix_lists_def begin_infix_at mk_iter_def)
next
  fix b :: "('a, 'b, 'c) bst" and xs
  assume "infix_lists b xs"
  then show "\<exists>e. end_infix b = Some e \<and>
          (\<forall>it. it_data it \<noteq> nullptr \<longrightarrow> infix_iterator (heap b) it (Neq e) = Some (it, Truth True)) \<and>
          (\<forall>it. it_data it = nullptr \<and> it_backup it = prev_of xs \<longrightarrow> infix_iterator (heap b) it (Neq e) = Some (it, Truth False))"
    by (auto simp: infix_lists_def end_infix_at)
qed


lemma rbegin_infix_at:
  "bst_rep b t \<Longrightarrow> rbegin_infix b = Some \<lparr>it_data = prev_of (inorder t), it_backup = prev_of (inorder t)\<rparr>"
  by (simp add: rbegin_infix_def end_infix_at after_call_def)

lemma rend_infix_at:
  assumes "bst_rep b t"
  shows "rend_infix b = Some \<lparr>it_data = nullptr, it_backup = next_of (inorder t)\<rparr>"
proof (cases "inorder t")
  case Nil
  then show ?thesis
    using assms by (simp add: rend_infix_def begin_infix_at after_call_def mk_iter_def)
next
  case (Cons a ys)
  then have "inorder t = [] @ a # ys" by simp
  with assms obtain c l r where "sub_at (heap b) (root b) c (Some a) (Node l a r)" "[] = before c @ inorder l"
    by (rule bst_split_inorder)
  then have "get_prev_infix (heap b) (Some a) = Some None"
    by (simp add: get_prev_infix_at)
  then show ?thesis
    using assms Cons by (simp add: rend_infix_def begin_infix_at after_call_def mk_iter_def step_iter_def)
qed

interpretation backward: traversable "\<lambda>b. infix_reverse_iterator (heap b)" rbegin_infix rend_infix
  "\<lambda>b xs. infix_lists b (rev xs)"
proof unfold_locales
  fix b :: "('a, 'b, 'c) bst" and xs a ys and it :: iter
  assume "infix_lists b (rev (xs @ a # ys))" and it: "it_data it = Some a"
  then obtain t where "bst_rep b t" "inorder t = rev ys @ a # rev xs"
    by (auto simp: infix_lists_def)
  then show "\<exists>it'. infix_reverse_iterator (heap b) it PreInc = Some (it', Iter it') \<and>
      it_data it' = next_of ys \<and> it_backup it' = Some a"
  proof (rule bst_split_inorder)
    fix c l r
    assume "sub_at (heap b) (root b) c (Some a) (Node l a r)" "rev ys = before c @ inorder l"
    then have "get_prev_infix (heap b) (Some a) = Some (next_of ys)"
      using get_prev_infix_at prev_of_rev [of "rev ys"] by (metis rev_rev_ident)
    then show ?thesis using it by (simp add: step_iter_def pre_step_def)
  qed
next
  fix b :: "('a, 'b, 'c) bst" and xs
  assume "infix_lists b (rev xs)"
  then show "\<exists>it. rbegin_infix b = Some it \<and> it_data it = next_of xs \<and> (xs = [] \<longrightarrow> it_backup it = nullptr)"
    by (auto simp: infix_lists_def rbegin_infix_at prev_of_rev)
next
  fix b :: "('a, 'b, 'c) bst" and xs
  assume "infix_lists b (rev xs)"
  then show "\<exists>e. rend_infix b = Some e \<and>
          (\<forall>it. it_data it \<noteq> nullptr \<longrightarrow> infix_reverse_iterator (heap b) it (Neq e) = Some (it, Truth True)) \<and>
          (\<forall>it. it_data it = nullptr \<and> it_backup it = prev_of xs \<longrightarrow> infix_reverse_iterator (heap b) it (Neq e) = Some (it, Truth False))"
    by (auto simp: infix_lists_def rend_infix_at negate_def prev_of_rev)
qed

lemma last_prefix_returns:
  "rep h par (Some a) (Node l a r) \<Longrightarrow> \<exists>p. last_prefix h (Some a) = Some p"
proof (induction "size l + size r" arbitrary: par a l r rule: less_induct)
  case less
  obtain n where n: "h a = Some n" "rep h (Some a) (left_subtree n) l"
    using less.prems by (auto split: option.splits)
  show ?case
  proof (cases "l = Leaf")
    case True
    then show ?thesis using n by (subst last_prefix.simps) simp
  next
    case False
    obtain y l' par' where y: "go_right h (Some a) = Some (Some y)" "rep h par' (Some y) (Node l' y Leaf)"
        "size l' < size (Node l a r)" "prev_of (preorder (Node l a r)) = (if l' = Leaf then Some y else prev_of (preorder l'))"
      using go_right_pos [OF less.prems] by blast
    obtain m where m: "h y = Some m" "rep h (Some y) (left_subtree m) l'"
      using y(2) by (auto split: option.splits)
    have ln: "left_subtree n \<noteq> nullptr"
      using n(2) False by (cases l) auto
    show ?thesis
    proof (cases l')
      case Leaf
      have "last_prefix h (Some y) = Some (Some y)"
        using m Leaf by (subst last_prefix.simps) simp
      then show ?thesis
        using n ln y(1) m Leaf by (subst last_prefix.simps) simp
    next
      case (Node l2 z r2)
      then have "left_subtree m = Some z" "rep h (Some y) (Some z) (Node l2 z r2)"
        using m(2) by (auto split: option.splits)
      moreover have "size l2 + size r2 < size l + size r"
        using y(3) Node by simp
      ultimately show ?thesis
        using less.hyps [of l2 r2 "Some y" z] n ln y(1) m by (subst last_prefix.simps) simp
    qed
  qed
qed

lemma end_prefix_at:
  "bst_rep b t \<Longrightarrow> t \<noteq> Leaf \<Longrightarrow> \<exists>e. end_prefix b = Some e \<and> it_data e = nullptr"
proof -
  assume b: "bst_rep b t" and "t \<noteq> Leaf"
  then obtain l a r where t: "t = Node l a r" by (cases t) auto
  then have "root b = Some a" "rep (heap b) nullptr (Some a) (Node l a r)"
    using b by (simp_all add: bst_rep_def del: rep.simps(2)) (simp_all add: bst_rep_def)
  with last_prefix_returns show ?thesis
    by (fastforce simp: end_prefix_def mk_iter_def)
qed

interpretation preorder: traversable "\<lambda>b. prefix_iterator (heap b)" begin_prefix end_prefix prefix_lists
proof unfold_locales
  fix b :: "('a, 'b, 'c) bst" and xs a ys and it :: iter
  assume "prefix_lists b (xs @ a # ys)" and it: "it_data it = Some a"
  then obtain t where t: "bst_rep b t" "preorder t = xs @ a # ys" "2 \<le> length (preorder t)"
    by (auto simp: prefix_lists_def)
  then obtain c l r where s: "sub_at (heap b) (root b) c (Some a) (Node l a r)" "t = plug c (Node l a r)"
      "ys = preorder l @ preorder r @ pre_after c"
    by (blast elim: bst_split_preorder)
  have "c \<noteq> [] \<or> l \<noteq> Leaf \<or> r \<noteq> Leaf"
    using t(3) s(2) by auto
  then show "\<exists>it'. prefix_iterator (heap b) it PreInc = Some (it', Iter it') \<and> it_data it' = next_of ys \<and> it_backup it' = Some a"
    using get_next_prefix_at [OF s(1)] it s(3) by (simp add: step_iter_def)
next
  fix b :: "('a, 'b, 'c) bst" and xs
  assume "prefix_lists b xs"
  then obtain t where "bst_rep b t" "preorder t = xs"
    by (auto simp: prefix_lists_def)
  then show "\<exists>it. begin_prefix b = Some it \<and> it_data it = next_of xs \<and> (xs = [] \<longrightarrow> it_backup it = nullptr)"
    by (cases t) (auto simp: begin_prefix_def mk_iter_def bst_rep_def)
next
  fix b :: "('a, 'b, 'c) bst" and xs
  assume "prefix_lists b xs"
  then obtain t where "bst_rep b t" and t: "2 \<le> length (preorder t)"
    by (auto simp: prefix_lists_def)
  moreover from t have "t \<noteq> Leaf" by auto
  ultimately show "\<exists>e. end_prefix b = Some e \<and>
          (\<forall>it. it_data it \<noteq> nullptr \<longrightarrow> prefix_iterator (heap b) it (Neq e) = Some (it, Truth True)) \<and>
          (\<forall>it. it_data it = nullptr \<and> it_backup it = prev_of xs \<longrightarrow> prefix_iterator (heap b) it (Neq e) = Some (it, Truth False))"
    using end_prefix_at by fastforce
qed

lemma depth_loop_at:
  "sub_at h rt c (Some a) t \<Longrightarrow> depth_loop h (Some a) k = Some (k + of_nat (length c))"
proof (induction c arbitrary: a t k)
  case Nil
  then show ?case by (subst depth_loop.simps) (auto elim!: sub_at_node)
next
  case (Cons x c)
  obtain n where n: "h a = Some n" "parent n = ctx_parent (x # c)"
    using Cons.prems by (auto elim: sub_at_node)
  from Cons.prems show ?case
    by (cases rule: sub_at_crumb) (use n Cons.IH in \<open>subst depth_loop.simps, simp add: add.assoc\<close>)+
qed

subsection \<open>What the traversals guarantee\<close>

text \<open>in a tree whose inorder listing is xs, a, ys, the step functions of the inorder iterators
  started at a reach the first node of ys and the last node of xs (null when there is none); every
  loop of the two functions ends.\<close>

theorem infix_steps_are_neighbours:
  assumes "bst_rep b t" and "inorder t = xs @ a # ys"
  shows "get_next_infix (heap b) (Some a) = Some (next_of ys) \<and>
         get_prev_infix (heap b) (Some a) = Some (prev_of xs)"
proof -
  obtain c l r where s: "sub_at (heap b) (root b) c (Some a) (Node l a r)"
      "xs = before c @ inorder l" "ys = inorder r @ after c"
    by (rule bst_split_inorder [OF assms])
  show ?thesis
    using get_next_infix_at [OF s(1)] get_prev_infix_at [OF s(1)] s(2,3) by simp
qed

theorem infix_steps_are_neighbours_witness:
  "get_next_infix sample_heap (Some 1) = Some (Some 3) \<and>
   get_prev_infix sample_heap (Some 1) = Some None"
  using infix_steps_are_neighbours [OF sample_rep, of "[]" 1 "[3, 0, 2]"]
  by (simp add: sample_tree_def sample_bst_def)

text \<open>the same for the preorder iterators: the neighbours of a node in the preorder listing,
  for every tree of at least two nodes.\<close>

theorem prefix_steps_are_neighbours:
  assumes "bst_rep b t" and "preorder t = xs @ a # ys" and "2 \<le> length (preorder t)"
  shows "get_next_prefix (heap b) (Some a) = Some (next_of ys) \<and>
         get_prev_prefix (heap b) (Some a) = Some (prev_of xs)"
proof -
  obtain c l r where s: "sub_at (heap b) (root b) c (Some a) (Node l a r)" "t = plug c (Node l a r)"
      "xs = pre_before c" "ys = preorder l @ preorder r @ pre_after c"
    using bst_split_preorder [OF assms(1,2)] by blast
  have "c \<noteq> [] \<or> l \<noteq> Leaf \<or> r \<noteq> Leaf"
    using assms(3) s(2) by auto
  then show ?thesis
    using get_next_prefix_at [OF s(1)] get_prev_prefix_at [OF s(1)] s by simp
qed

theorem prefix_steps_are_neighbours_witness:
  "get_next_prefix sample_heap (Some 3) = Some (Some 2) \<and>
   get_prev_prefix sample_heap (Some 3) = Some (Some 1)"
  using prefix_steps_are_neighbours [OF sample_rep, of "[0, 1]" 3 "[2]"]
  by (simp add: sample_tree_def sample_bst_def prev_of_Cons)

text \<open>C28: the loop from begin_infix() to end_infix() visits every node of the tree exactly once, in
  inorder, and then stops.\<close>

theorem infix_traversal:
  assumes "bst_rep b t"
  shows "do { it \<leftarrow> begin_infix b; e \<leftarrow> end_infix b; traverse (infix_iterator (heap b)) it e } =
           Some (map Some (inorder t))"
  using assms by (intro forward.traverse_all) (auto simp: infix_lists_def)

theorem infix_traversal_witness:
  "do { it \<leftarrow> begin_infix sample_bst; e \<leftarrow> end_infix sample_bst;
        traverse (infix_iterator (heap sample_bst)) it e } = Some [Some 1, Some 3, Some 0, Some 2]"
  using infix_traversal [OF sample_rep] by (simp add: sample_tree_def)

text \<open>the loop from rbegin_infix() to rend_infix() over the reverse iterators visits the same
  nodes in the opposite order.\<close>

theorem infix_reverse_traversal:
  assumes "bst_rep b t"
  shows "do { it \<leftarrow> rbegin_infix b; e \<leftarrow> rend_infix b;
              traverse (infix_reverse_iterator (heap b)) it e } = Some (map Some (rev (inorder t)))"
  using assms by (intro backward.traverse_all) (auto simp: infix_lists_def)

theorem infix_reverse_traversal_witness:
  "do { it \<leftarrow> rbegin_infix sample_bst; e \<leftarrow> rend_infix sample_bst;
        traverse (infix_reverse_iterator (heap sample_bst)) it e } =
     Some [Some 2, Some 0, Some 3, Some 1]"
  using infix_reverse_traversal [OF sample_rep] by (simp add: sample_tree_def)

text \<open>the loop from begin_prefix() to end_prefix(), which the copy constructor runs over the other
  tree, visits every node once in preorder, for every tree of at least two nodes.\<close>

theorem prefix_traversal:
  assumes "bst_rep b t" and "2 \<le> length (preorder t)"
  shows "do { it \<leftarrow> begin_prefix b; e \<leftarrow> end_prefix b; traverse (prefix_iterator (heap b)) it e } =
           Some (map Some (preorder t))"
  using assms by (intro preorder.traverse_all) (auto simp: prefix_lists_def)

theorem prefix_traversal_witness:
  "do { it \<leftarrow> begin_prefix sample_bst; e \<leftarrow> end_prefix sample_bst;
        traverse (prefix_iterator (heap sample_bst)) it e } = Some [Some 0, Some 1, Some 3, Some 2]"
  using prefix_traversal [OF sample_rep] by (simp add: sample_tree_def)

text \<open>depth() of an iterator on a node is the number of its proper ancestors (modulo 2 to the 64).\<close>

theorem depth_counts_ancestors:
  assumes "bst_rep b (plug c (Node l a r))"
  shows "infix_iterator (heap b) (mk_iter (Some a)) Depth =
           Some (mk_iter (Some a), Count (of_nat (length c)))"
  using depth_loop_at [OF sub_at_plug [OF assms], of 0] by (simp add: mk_iter_def)

theorem depth_counts_ancestors_witness:
  "infix_iterator (heap sample_bst) (mk_iter (Some 3)) Depth = Some (mk_iter (Some 3), Count 2)"
  using depth_counts_ancestors
    [of sample_bst "[InRight Leaf 1, InLeft 0 (Node Leaf 2 Leaf)]" Leaf 3 Leaf] sample_rep
  by (simp add: sample_tree_def)

end
