(* ===== verification/BstSearch.thy ===== *)
theory BstSearch
  imports BstIter
begin

text \<open>
  Key order and search of binary_search_tree.h. The comparator is a template argument of the
  container; \<open>key_order\<close> is what the container relies on, and std::less, the default of the template,
  provides it. The search descends from the root; in a tree whose inorder listing is sorted it finds
  a node with the key exactly when there is one.
\<close>

subsection \<open>The comparator\<close>

locale key_order =
  fixes cmp :: "'k \<Rightarrow> 'k \<Rightarrow> bool"
  assumes cmp_irrefl: "\<not> cmp a a"
    and cmp_trans: "cmp a b \<Longrightarrow> cmp b c \<Longrightarrow> cmp a c"
    and cmp_total: "cmp a b \<or> a = b \<or> cmp b a"
begin

lemma cmp_asym: "cmp a b \<Longrightarrow> \<not> cmp b a"
  using cmp_irrefl cmp_trans by blast

lemma not_cmp_trans: "\<not> cmp b a \<Longrightarrow> \<not> cmp c b \<Longrightarrow> \<not> cmp c a"
  using cmp_trans cmp_total by metis

lemma cmp_not_cmp: "cmp k a \<Longrightarrow> \<not> cmp b a \<Longrightarrow> cmp k b"
  using cmp_trans cmp_total by metis

lemma not_cmp_mono: "\<not> cmp k a \<Longrightarrow> \<not> cmp a b \<Longrightarrow> \<not> cmp k b"
  using cmp_trans cmp_total by metis

end

definition std_less :: "'k::linorder \<Rightarrow> 'k \<Rightarrow> bool" where
  "std_less lhs rhs = (lhs < rhs)"

interpretation less: key_order std_less
  by unfold_locales (auto simp: std_less_def)

definition compare_keys :: "('k \<Rightarrow> 'k \<Rightarrow> bool) \<Rightarrow> 'k \<Rightarrow> 'k \<Rightarrow> bool" where
  "compare_keys cmp lhs rhs = cmp lhs rhs"

subsection \<open>Sorted listings\<close>

definition key_of :: "('k, 'v, 'e) heap \<Rightarrow> nat \<Rightarrow> 'k" where
  "key_of h a = nd_key (the (h a))"

definition val_of :: "('k, 'v, 'e) heap \<Rightarrow> nat \<Rightarrow> 'v" where
  "val_of h a = nd_val (the (h a))"

lemma entries_map: "\<forall>a \<in> set xs. h a \<noteq> None \<Longrightarrow> entries h xs = map (\<lambda>a. (key_of h a, val_of h a)) xs"
  by (induction xs) (auto simp: entries_Cons kv_at_def key_of_def val_of_def)

lemma rep_entries: "rep h par p t \<Longrightarrow> entries h (inorder t) = map (\<lambda>a. (key_of h a, val_of h a)) (inorder t)"
  by (rule entries_map) (auto dest: rep_alloc)

definition sorted_entries :: "('k \<Rightarrow> 'k \<Rightarrow> bool) \<Rightarrow> ('k \<times> 'v) list \<Rightarrow> bool" where
  "sorted_entries cmp es = sorted_wrt (\<lambda>x y. \<not> cmp (fst y) (fst x)) es"

definition sorted_nodes :: "('k \<Rightarrow> 'k \<Rightarrow> bool) \<Rightarrow> ('k, 'v, 'e) heap \<Rightarrow> nat list \<Rightarrow> bool" where
  "sorted_nodes cmp h xs = sorted_wrt (\<lambda>x y. \<not> cmp (key_of h y) (key_of h x)) xs"

lemma sorted_entries_nodes:
  "rep h par p t \<Longrightarrow> sorted_entries cmp (entries h (inorder t)) = sorted_nodes cmp h (inorder t)"
  by (simp add: rep_entries sorted_entries_def sorted_nodes_def sorted_wrt_map)

lemma sorted_nodes_Node:
  "sorted_nodes cmp h (inorder (Node l a r)) \<longleftrightarrow>
     sorted_nodes cmp h (inorder l) \<and> sorted_nodes cmp h (inorder r) \<and>
     (\<forall>x \<in> set_tree l. \<not> cmp (key_of h a) (key_of h x)) \<and>
     (\<forall>y \<in> set_tree r. \<not> cmp (key_of h y) (key_of h a)) \<and>
     (\<forall>x \<in> set_tree l. \<forall>y \<in> set_tree r. \<not> cmp (key_of h y) (key_of h x))"
  by (auto simp: sorted_nodes_def sorted_wrt_append)

subsection \<open>The search\<close>

partial_function (option) search_loop ::
  "('k \<Rightarrow> 'k \<Rightarrow> bool) \<Rightarrow> ('k, 'v, 'e) heap \<Rightarrow> 'k \<Rightarrow> ptr \<Rightarrow> ptr option" where
  "search_loop cmp h key current =
     (if current = nullptr then Some current
      else do {
        n \<leftarrow> deref h current;
        (if key = nd_key n then Some current
         else if compare_keys cmp key (nd_key n) then search_loop cmp h key (left_subtree n)
         else search_loop cmp h key (right_subtree n))
      })"

definition go_to_node_with_key :: "('k \<Rightarrow> 'k \<Rightarrow> bool) \<Rightarrow> ('k, 'v, 'e) bst \<Rightarrow> 'k \<Rightarrow> ptr option" where
  "go_to_node_with_key cmp b key = search_loop cmp (heap b) key (root b)"

datatype exn = OutOfRange string | BadAlloc

text \<open>A reference to the value of a node is the address of the node.\<close>

definition at_ref :: "('k \<Rightarrow> 'k \<Rightarrow> bool) \<Rightarrow> ('k, 'v, 'e) bst \<Rightarrow> 'k \<Rightarrow> (exn + ptr) option" where
  "at_ref cmp b key = do {
     current \<leftarrow> go_to_node_with_key cmp b key;
     Some (if current = nullptr then Inl (OutOfRange ''Incorrect key'') else Inr current)
   }"

text \<open>The const overload calls \<open>(*this).at(key)\<close>, which is itself.\<close>

partial_function (option) at_const :: "('k \<Rightarrow> 'k \<Rightarrow> bool) \<Rightarrow> ('k, 'v, 'e) bst \<Rightarrow> 'k \<Rightarrow> (exn + ptr) option" where
  "at_const cmp b key = at_const cmp b key"

definition index_op :: "('k \<Rightarrow> 'k \<Rightarrow> bool) \<Rightarrow> ('k, 'v, 'e) bst \<Rightarrow> 'k \<Rightarrow> ptr option" where
  "index_op cmp b key = do {
     n \<leftarrow> go_to_node_with_key cmp b key;
     nd \<leftarrow> deref (heap b) n;
     Some n
   }"

definition empty :: "('k, 'v, 'e) bst \<Rightarrow> bool" where
  "empty b = (tree_size b = 0)"

definition size_op :: "('k, 'v, 'e) bst \<Rightarrow> 64 word" where
  "size_op b = tree_size b"

definition clear :: "('k, 'v, 'e) bst \<Rightarrow> ('k, 'v, 'e) bst" where
  "clear b = b"

definition contains :: "('k \<Rightarrow> 'k \<Rightarrow> bool) \<Rightarrow> ('k, 'v, 'e) bst \<Rightarrow> 'k \<Rightarrow> bool option" where
  "contains cmp b key = do { n \<leftarrow> go_to_node_with_key cmp b key; Some (n = nullptr) }"

text \<open>The two bound searches, as loops that return the node they stop at.\<close>

partial_function (option) lower_bound_loop ::
  "('k \<Rightarrow> 'k \<Rightarrow> bool) \<Rightarrow> ('k, 'v, 'e) heap \<Rightarrow> 'k \<Rightarrow> ptr \<Rightarrow> ptr option" where
  "lower_bound_loop cmp h key current =
     (if current = nullptr then Some current
      else do {
        n \<leftarrow> deref h current;
        (if compare_keys cmp key (nd_key n) then do {
           ln \<leftarrow> deref h (left_subtree n);
           (if compare_keys cmp key (nd_key ln) then lower_bound_loop cmp h key (left_subtree n)
            else Some current)
         } else lower_bound_loop cmp h key (right_subtree n))
      })"

definition lower_bound :: "('k \<Rightarrow> 'k \<Rightarrow> bool) \<Rightarrow> ('k, 'v, 'e) bst \<Rightarrow> 'k \<Rightarrow> iter option" where
  "lower_bound cmp b key = do {
     current \<leftarrow> lower_bound_loop cmp (heap b) key (root b);
     (if current = nullptr then end_infix b
      else do { n \<leftarrow> deref (heap b) current; Some (mk_iter (left_subtree n)) })
   }"

partial_function (option) lower_bound_const_loop ::
  "('k \<Rightarrow> 'k \<Rightarrow> bool) \<Rightarrow> ('k, 'v, 'e) heap \<Rightarrow> 'k \<Rightarrow> ptr \<Rightarrow> ptr option" where
  "lower_bound_const_loop cmp h key current =
     (if current = nullptr then Some current
      else do {
        n \<leftarrow> deref h current;
        (if compare_keys cmp key (nd_key n) then
           (if left_subtree n = nullptr then Some current
            else do {
              ln \<leftarrow> deref h (left_subtree n);
              (if compare_keys cmp key (nd_key ln) then lower_bound_const_loop cmp h key (left_subtree n)
               else Some current)
            })
         else lower_bound_const_loop cmp h key (right_subtree n))
      })"

definition lower_bound_const :: "('k \<Rightarrow> 'k \<Rightarrow> bool) \<Rightarrow> ('k, 'v, 'e) bst \<Rightarrow> 'k \<Rightarrow> iter option" where
  "lower_bound_const cmp b key = do {
     current \<leftarrow> lower_bound_const_loop cmp (heap b) key (root b);
     (if current = nullptr then end_infix b else Some (mk_iter current))
   }"

partial_function (option) upper_bound_loop ::
  "('k \<Rightarrow> 'k \<Rightarrow> bool) \<Rightarrow> ('k, 'v, 'e) heap \<Rightarrow> 'k \<Rightarrow> ptr \<Rightarrow> ptr \<Rightarrow> ptr \<Rightarrow> (ptr \<times> ptr) option" where
  "upper_bound_loop cmp h key prev_prev prev current =
     (if current = nullptr then Some (prev_prev, prev)
      else do {
        n \<leftarrow> deref h current;
        upper_bound_loop cmp h key prev current
          (if compare_keys cmp key (nd_key n) then left_subtree n else right_subtree n)
      })"

definition upper_bound ::
  "('k \<Rightarrow> 'k \<Rightarrow> bool) \<Rightarrow> ('k, 'v, 'e) bst \<Rightarrow> ('k::linorder) \<Rightarrow> iter option" where
  "upper_bound cmp b key = do {
     (prev_prev, prev) \<leftarrow> upper_bound_loop cmp (heap b) key nullptr nullptr (root b);
     pn \<leftarrow> deref (heap b) prev;
     ppn \<leftarrow> deref (heap b) prev_prev;
     let mx = (if nd_key pn > nd_key ppn then prev else prev_prev);
     let mn = (if nd_key pn < nd_key ppn then prev else prev_prev);
     mnn \<leftarrow> deref (heap b) mn;
     Some (if compare_keys cmp key (nd_key mnn) then mk_iter mn else mk_iter mx)
   }"

subsection \<open>The search is right on a sorted tree\<close>

context key_order begin

lemma search_loop_at:
  "rep h par p t \<Longrightarrow> sorted_nodes cmp h (inorder t) \<Longrightarrow>
     \<exists>q. search_loop cmp h k p = Some q \<and>
       (case q of None \<Rightarrow> \<forall>x \<in> set_tree t. key_of h x \<noteq> k | Some a \<Rightarrow> a \<in> set_tree t \<and> key_of h a = k)"
proof (induction t arbitrary: par p)
  case Leaf
  then show ?case by (subst search_loop.simps) simp
next
  case (Node l a r)
  obtain n where n: "p = Some a" "h a = Some n" "rep h (Some a) (left_subtree n) l"
      "rep h (Some a) (right_subtree n) r" "key_of h a = nd_key n"
    using Node.prems(1) by (auto split: option.splits simp: key_of_def)
  note s = Node.prems(2) [unfolded sorted_nodes_Node]
  consider "k = nd_key n" | "cmp k (nd_key n)" "k \<noteq> nd_key n" | "cmp (nd_key n) k" "\<not> cmp k (nd_key n)" "k \<noteq> nd_key n"
    using cmp_total cmp_asym by blast
  then show ?case
  proof cases
    case 1
    then show ?thesis using n by (subst search_loop.simps) simp
  next
    case 2
    obtain q where "search_loop cmp h k (left_subtree n) = Some q"
      "case q of None \<Rightarrow> \<forall>x \<in> set_tree l. key_of h x \<noteq> k | Some a \<Rightarrow> a \<in> set_tree l \<and> key_of h a = k"
      using Node.IH(1) n(3) s by blast
    moreover have "\<forall>x \<in> set_tree r. key_of h x \<noteq> k"
      using s 2 n(5) by auto
    ultimately show ?thesis
      using 2 n by (subst search_loop.simps) (auto simp: compare_keys_def split: option.splits)
  next
    case 3
    obtain q where "search_loop cmp h k (right_subtree n) = Some q"
      "case q of None \<Rightarrow> \<forall>x \<in> set_tree r. key_of h x \<noteq> k | Some a \<Rightarrow> a \<in> set_tree r \<and> key_of h a = k"
      using Node.IH(2) n(4) s by blast
    moreover have "\<forall>x \<in> set_tree l. key_of h x \<noteq> k"
      using s 3 n(5) by auto
    ultimately show ?thesis
      using 3 n by (subst search_loop.simps) (auto simp: compare_keys_def split: option.splits)
  qed
qed

lemma go_to_node_finds:
  assumes "bst_rep b t" "sorted_entries cmp (entries (heap b) (inorder t))"
  shows "\<exists>q. go_to_node_with_key cmp b k = Some q \<and>
    (case q of None \<Rightarrow> k \<notin> fst ` set (entries (heap b) (inorder t))
     | Some a \<Rightarrow> a \<in> set_tree t \<and> (\<exists>v. kv_at (heap b) a = Some (k, v)))"
proof -
  have r: "rep (heap b) nullptr (root b) t"
    using assms(1) by (simp add: bst_rep_def)
  then obtain q where q: "search_loop cmp (heap b) k (root b) = Some q"
    "case q of None \<Rightarrow> \<forall>x \<in> set_tree t. key_of (heap b) x \<noteq> k | Some a \<Rightarrow> a \<in> set_tree t \<and> key_of (heap b) a = k"
    using search_loop_at assms(2) sorted_entries_nodes by blast
  then show ?thesis
    using rep_alloc [OF r]
    by (fastforce simp: go_to_node_with_key_def rep_entries [OF r] kv_at_def key_of_def split: option.splits)
qed

end

context key_order
begin

lemma go_to_node_iff:
  assumes "bst_rep b t" "sorted_entries cmp (entries (heap b) (inorder t))"
  shows "\<exists>q. go_to_node_with_key cmp b k = Some q \<and>
    (q = None \<longleftrightarrow> k \<notin> fst ` set (entries (heap b) (inorder t))) \<and>
    (\<forall>a. q = Some a \<longrightarrow> a \<in> set_tree t \<and> (\<exists>v. kv_at (heap b) a = Some (k, v)))"
proof -
  have r: "rep (heap b) nullptr (root b) t"
    using assms(1) by (simp add: bst_rep_def)
  obtain q where q: "go_to_node_with_key cmp b k = Some q"
    "case q of None \<Rightarrow> k \<notin> fst ` set (entries (heap b) (inorder t))
     | Some a \<Rightarrow> a \<in> set_tree t \<and> (\<exists>v. kv_at (heap b) a = Some (k, v))"
    using go_to_node_finds [OF assms] by blast
  have "k \<in> fst ` set (entries (heap b) (inorder t))" if "q = Some a" for a
    using q(2) that
    by (force simp: rep_entries [OF r] kv_at_def key_of_def val_of_def image_iff split: option.splits)
  then show ?thesis
    using q by (intro exI [of _ q]) (auto split: option.splits)
qed

end

lemma at_const_diverges: "at_const cmp b k = None"
proof -
  have "at_const cmp b k \<noteq> Some y" for y
    using at_const.raw_induct [of "\<lambda>_ _ _ _. False" cmp b k y] by blast
  then show ?thesis by (cases "at_const cmp b k") auto
qed


subsection \<open>Properties\<close>

lemma sample_entries: "entries sample_heap (inorder sample_tree) = [(3, 30), (4, 40), (5, 50), (9, 90)]"
  by (simp add: sample_tree_def entries_Cons kv_at_def sample_heap_def)

lemma sample_sorted: "sorted_entries std_less (entries (heap sample_bst) (inorder sample_tree))"
  by (simp add: sample_bst_def sample_entries sorted_entries_def std_less_def)

text \<open>C11: in a tree sorted by std::less the key search ends; it returns null exactly when no entry
  has the key, and otherwise a node of the tree that holds it.\<close>

theorem search_finds_key:
  assumes "bst_rep b t" and "sorted_entries std_less (entries (heap b) (inorder t))"
  shows "\<exists>q. go_to_node_with_key std_less b k = Some q \<and>
    (case q of None \<Rightarrow> k \<notin> fst ` set (entries (heap b) (inorder t))
     | Some a \<Rightarrow> a \<in> set_tree t \<and> (\<exists>v. kv_at (heap b) a = Some (k, v)))"
  using assms by (rule less.go_to_node_finds)

theorem search_finds_key_witness:
  "\<exists>q. go_to_node_with_key std_less sample_bst 4 = Some q \<and>
    (case q of None \<Rightarrow> 4 \<notin> fst ` set (entries (heap sample_bst) (inorder sample_tree))
     | Some a \<Rightarrow> a \<in> set_tree sample_tree \<and> (\<exists>v. kv_at (heap sample_bst) a = Some (4, v)))"
  by (rule search_finds_key [OF sample_rep sample_sorted])

text \<open>at throws out_of_range exactly on a key that is not in the tree, and otherwise refers to the
  value of a node with the key.\<close>

theorem at_ref_or_throws:
  assumes "bst_rep b t" and "sorted_entries std_less (entries (heap b) (inorder t))"
  shows "if k \<in> fst ` set (entries (heap b) (inorder t))
         then \<exists>a v. at_ref std_less b k = Some (Inr (Some a)) \<and> kv_at (heap b) a = Some (k, v)
         else at_ref std_less b k = Some (Inl (OutOfRange ''Incorrect key''))"
proof -
  obtain q where "go_to_node_with_key std_less b k = Some q"
    "q = None \<longleftrightarrow> k \<notin> fst ` set (entries (heap b) (inorder t))"
    "\<And>a. q = Some a \<Longrightarrow> a \<in> set_tree t \<and> (\<exists>v. kv_at (heap b) a = Some (k, v))"
    using less.go_to_node_iff [OF assms, of k] by blast
  then show ?thesis
    by (cases q) (auto simp: at_ref_def)
qed

theorem at_ref_or_throws_witness:
  "at_ref std_less sample_bst 6 = Some (Inl (OutOfRange ''Incorrect key'')) \<and>
   (\<exists>a v. at_ref std_less sample_bst 9 = Some (Inr (Some a)) \<and> kv_at (heap sample_bst) a = Some (9, v))"
proof -
  have e: "entries (heap sample_bst) (inorder sample_tree) = [(3, 30), (4, 40), (5, 50), (9, 90)]"
    using sample_entries by (simp add: sample_bst_def)
  show ?thesis
    using at_ref_or_throws [OF sample_rep sample_sorted, of 6]
      at_ref_or_throws [OF sample_rep sample_sorted, of 9] by (simp add: e)
qed

text \<open>contains answers the opposite of its name: true exactly when the key is not in the tree.\<close>

theorem contains_is_inverted:
  assumes "bst_rep b t" and "sorted_entries std_less (entries (heap b) (inorder t))"
  shows "contains std_less b k = Some (k \<notin> fst ` set (entries (heap b) (inorder t)))"
proof -
  obtain q where "go_to_node_with_key std_less b k = Some q"
    "q = None \<longleftrightarrow> k \<notin> fst ` set (entries (heap b) (inorder t))"
    "\<And>a. q = Some a \<Longrightarrow> a \<in> set_tree t \<and> (\<exists>v. kv_at (heap b) a = Some (k, v))"
    using less.go_to_node_iff [OF assms, of k] by blast
  then show ?thesis
    by (cases q) (auto simp: contains_def)
qed

theorem contains_is_inverted_witness:
  "contains std_less sample_bst 6 = Some True \<and> contains std_less sample_bst 9 = Some False"
proof -
  have e: "entries (heap sample_bst) (inorder sample_tree) = [(3, 30), (4, 40), (5, 50), (9, 90)]"
    using sample_entries by (simp add: sample_bst_def)
  show ?thesis
    using contains_is_inverted [OF sample_rep sample_sorted, of 6]
      contains_is_inverted [OF sample_rep sample_sorted, of 9] by (simp add: e)
qed

text \<open>the const overload of at never returns: it calls itself without end.\<close>

theorem at_const_never_returns: "at_const cmp b key = None"
  by (rule at_const_diverges)

end
