(* ===== verification/BstInsert.thy ===== *)
theory BstInsert
  imports BstSearch
begin

text \<open>
  Insertion into the binary search tree: the two insert overloads, the range and emplace forms, the
  assigning forms and the constructors. The rebalancing hook post_insert is chosen by the tag of the
  tree; \<open>tree_policy\<close> states what the insertion relies on, so the correctness of insertion is proved
  once and holds for every tag whose hook keeps the contract. The node the allocator hands out is an
  argument: a null pointer when it gives none, otherwise an address not in use.
\<close>

subsection \<open>The operations\<close>

type_synonym ('k, 'v, 'e) hook = "('k, 'v, 'e) bst \<Rightarrow> ptr \<Rightarrow> (('k, 'v, 'e) bst \<times> ptr) option"

definition create_node ::
  "('k, 'v, 'e) bst \<Rightarrow> ptr \<Rightarrow> ptr \<Rightarrow> 'k \<Rightarrow> 'v \<Rightarrow> 'e \<Rightarrow> ('k, 'v, 'e) bst" where
  "create_node b n par k v e =
     (case n of None \<Rightarrow> b | Some a \<Rightarrow> b\<lparr>heap := (heap b)(a \<mapsto> node_ctor par k v e)\<rparr>)"

partial_function (option) descend ::
  "('k \<Rightarrow> 'k \<Rightarrow> bool) \<Rightarrow> ('k, 'v, 'e) heap \<Rightarrow> 'k \<Rightarrow> ptr \<Rightarrow> ptr \<Rightarrow> ptr option" where
  "descend cmp h key prev current =
     (if current = nullptr then Some prev
      else do {
        n \<leftarrow> deref h current;
        (if compare_keys cmp key (nd_key n) then descend cmp h key current (left_subtree n)
         else descend cmp h key current (right_subtree n))
      })"

definition insert_copy ::
  "('k \<Rightarrow> 'k \<Rightarrow> bool) \<Rightarrow> 'e \<Rightarrow> ('k, 'v, 'e) hook \<Rightarrow> ('k, 'v, 'e) bst \<Rightarrow> ptr \<Rightarrow> 'k \<times> 'v \<Rightarrow>
     (('k, 'v, 'e) bst \<times> iter \<times> bool) option" where
  "insert_copy cmp e post_insert b new_node kv = do {
     prev \<leftarrow> descend cmp (heap b) (fst kv) nullptr (root b);
     let b = create_node b new_node prev (fst kv) (snd kv) e;
     (if new_node = nullptr then Some (b, mk_iter new_node, False)
      else if prev = nullptr then do {
        (b, _) \<leftarrow> post_insert (b\<lparr>root := new_node\<rparr>) new_node;
        Some (b, mk_iter new_node, True)
      }
      else do {
        pn \<leftarrow> deref (heap b) prev;
        h \<leftarrow> (if compare_keys cmp (fst kv) (nd_key pn) then set_left (heap b) prev new_node
              else set_right (heap b) prev new_node);
        (b, _) \<leftarrow> post_insert (b\<lparr>heap := h, tree_size := tree_size b + 1\<rparr>) new_node;
        Some (b, mk_iter new_node, True)
      })
   }"

text \<open>The overload for an rvalue counts the new node after the hook has run.\<close>

definition insert_move ::
  "('k \<Rightarrow> 'k \<Rightarrow> bool) \<Rightarrow> 'e \<Rightarrow> ('k, 'v, 'e) hook \<Rightarrow> ('k, 'v, 'e) bst \<Rightarrow> ptr \<Rightarrow> 'k \<times> 'v \<Rightarrow>
     (('k, 'v, 'e) bst \<times> iter \<times> bool) option" where
  "insert_move cmp e post_insert b new_node kv = do {
     prev \<leftarrow> descend cmp (heap b) (fst kv) nullptr (root b);
     let b = create_node b new_node prev (fst kv) (snd kv) e;
     (if new_node = nullptr then Some (b, mk_iter new_node, False)
      else if prev = nullptr then do {
        (b, _) \<leftarrow> post_insert (b\<lparr>root := new_node\<rparr>) new_node;
        Some (b, mk_iter new_node, True)
      }
      else do {
        pn \<leftarrow> deref (heap b) prev;
        h \<leftarrow> (if compare_keys cmp (fst kv) (nd_key pn) then set_left (heap b) prev new_node
              else set_right (heap b) prev new_node);
        (b, _) \<leftarrow> post_insert (b\<lparr>heap := h\<rparr>) new_node;
        Some (b\<lparr>tree_size := tree_size b + 1\<rparr>, mk_iter new_node, True)
      })
   }"

definition emplace ::
  "('k \<Rightarrow> 'k \<Rightarrow> bool) \<Rightarrow> 'e \<Rightarrow> ('k, 'v, 'e) hook \<Rightarrow> ('k, 'v, 'e) bst \<Rightarrow> ptr \<Rightarrow> 'k \<Rightarrow> 'v \<Rightarrow>
     (('k, 'v, 'e) bst \<times> iter \<times> bool) option" where
  "emplace cmp e post_insert b new_node k v = insert_move cmp e post_insert b new_node (k, v)"

text \<open>\<open>while (it != last) { insert(*it); it++; }\<close>: each element comes with the node allocated for it.\<close>

fun insert_seq ::
  "('k \<Rightarrow> 'k \<Rightarrow> bool) \<Rightarrow> 'e \<Rightarrow> ('k, 'v, 'e) hook \<Rightarrow> ('k, 'v, 'e) bst \<Rightarrow> (ptr \<times> 'k \<times> 'v) list \<Rightarrow>
     ('k, 'v, 'e) bst option" where
  "insert_seq cmp e post_insert b [] = Some b"
| "insert_seq cmp e post_insert b ((a, kv) # vs) = do {
     (b, _) \<leftarrow> insert_copy cmp e post_insert b a kv;
     insert_seq cmp e post_insert b vs
   }"

definition empty_bst :: "('k, 'v, 'e) heap \<Rightarrow> ('k, 'v, 'e) bst" where
  "empty_bst h = \<lparr>heap = h, root = nullptr, tree_size = 0\<rparr>"

definition bst_of_list ::
  "('k \<Rightarrow> 'k \<Rightarrow> bool) \<Rightarrow> 'e \<Rightarrow> ('k, 'v, 'e) hook \<Rightarrow> ('k, 'v, 'e) heap \<Rightarrow> (ptr \<times> 'k \<times> 'v) list \<Rightarrow>
     ('k, 'v, 'e) bst option" where
  "bst_of_list cmp e post_insert h data = insert_seq cmp e post_insert (empty_bst h) data"

definition insert_or_assign ::
  "('k \<Rightarrow> 'k \<Rightarrow> bool) \<Rightarrow> 'e \<Rightarrow> ('k, 'v, 'e) hook \<Rightarrow> ('k, 'v, 'e) bst \<Rightarrow> ptr \<Rightarrow> 'k \<times> 'v \<Rightarrow>
     (('k, 'v, 'e) bst \<times> iter) option" where
  "insert_or_assign cmp e post_insert b new_node kv = do {
     n \<leftarrow> go_to_node_with_key cmp b (fst kv);
     (if n = nullptr then do {
        (b, it, _) \<leftarrow> insert_copy cmp e post_insert b new_node kv;
        Some (b, it)
      } else do {
        h \<leftarrow> write_node (heap b) n (\<lambda>nd. nd\<lparr>nd_val := snd kv\<rparr>);
        Some (b\<lparr>heap := h\<rparr>, mk_iter n)
      })
   }"

text \<open>The hook of the plain tree does nothing (the primary template of bst_impl).\<close>

definition post_insert_bst :: "('k, 'v, 'e) hook" where
  "post_insert_bst b n = Some (b, n)"

subsection \<open>The insertion into a sorted listing\<close>

definition insert_entry ::
  "('k \<Rightarrow> 'k \<Rightarrow> bool) \<Rightarrow> 'k \<Rightarrow> 'v \<Rightarrow> ('k \<times> 'v) list \<Rightarrow> ('k \<times> 'v) list" where
  "insert_entry cmp k v es =
     takeWhile (\<lambda>x. \<not> cmp k (fst x)) es @ (k, v) # dropWhile (\<lambda>x. \<not> cmp k (fst x)) es"

text \<open>Where the descent ends.\<close>

fun slot :: "('k \<Rightarrow> 'k \<Rightarrow> bool) \<Rightarrow> ('k, 'v, 'e) heap \<Rightarrow> 'k \<Rightarrow> nat tree \<Rightarrow> ctx" where
  "slot cmp h k Leaf = []"
| "slot cmp h k (Node l a r) =
     (if cmp k (key_of h a) then slot cmp h k l @ [InLeft a r] else slot cmp h k r @ [InRight l a])"

lemma plug_slot: "plug (slot cmp h k t) Leaf = t"
  by (induction t) (auto simp: plug_append)

lemma before_append: "before (c @ d) = before d @ before c"
  by (induction c rule: before.induct) auto

lemma after_append: "after (c @ d) = after c @ after d"
  by (induction c rule: after.induct) auto

lemma ctx_parent_append: "ctx_parent (c @ d) = (if c = [] then ctx_parent d else ctx_parent c)"
  by (cases c rule: ctx_parent.cases) auto

lemma descend_at:
  "rep h (ctx_parent c) p t \<Longrightarrow>
     descend cmp h k (ctx_parent c) p = Some (ctx_parent (slot cmp h k t @ c))"
proof (induction t arbitrary: p c)
  case Leaf
  then show ?case by (subst descend.simps) simp
next
  case (Node l a r)
  obtain n where n: "p = Some a" "h a = Some n" "rep h (Some a) (left_subtree n) l"
      "rep h (Some a) (right_subtree n) r" "key_of h a = nd_key n"
    using Node.prems by (auto split: option.splits simp: key_of_def)
  then show ?case
    using Node.IH(1) [of "InLeft a r # c"] Node.IH(2) [of "InRight l a # c"]
    by (subst descend.simps) (simp add: compare_keys_def)
qed

text \<open>The last comparison of the descent is the one insert repeats to choose the side.\<close>

lemma slot_side:
  "slot cmp h k t = InLeft a r # c \<Longrightarrow> cmp k (key_of h a)"
  "slot cmp h k t = InRight l a # c \<Longrightarrow> \<not> cmp k (key_of h a)"
  by (induction t arbitrary: a r l c) (auto simp: append_eq_Cons_conv split: if_splits)

lemma slot_eq_Nil [simp]: "slot cmp h k t = [] \<longleftrightarrow> t = Leaf"
  by (cases t) auto

subsection \<open>Linking the new node\<close>

lemma fresh_notin:
  "bst_rep b t \<Longrightarrow> heap b a = None \<Longrightarrow> a \<notin> set_tree t"
  using rep_alloc unfolding bst_rep_def by blast

lemma link_left:
  assumes b: "bst_rep b (plug (InLeft x r # c) Leaf)" and a: "heap b a = None"
    and h1: "h1 = (heap b)(a \<mapsto> node_ctor (Some x) k v e)"
  shows "\<exists>h2. set_left h1 (Some x) (Some a) = Some h2 \<and>
     rep h2 nullptr (root b) (plug (InLeft x r # c) (Node Leaf a Leaf)) \<and>
     data_at h2 = (data_at (heap b))(a \<mapsto> (k, v, e))"
proof -
  have d: "distinct (inorder (plug (InLeft x r # c) Leaf))"
    and "rep (heap b) nullptr (root b) (plug (InLeft x r # c) Leaf)"
    using b by (auto simp: bst_rep_def)
  then have "rep_ctx (heap b) (root b) (InLeft x r # c) None"
    unfolding rep_plug by (auto split: option.splits)
  then obtain xn where xn: "heap b x = Some xn" "parent xn = ctx_parent c" "left_subtree xn = None"
      "rep (heap b) (Some x) (right_subtree xn) r" "rep_ctx (heap b) (root b) c (Some x)"
    by (auto split: option.splits)
  have "a \<notin> set_tree (plug (InLeft x r # c) Leaf)"
    using b a by (rule fresh_notin)
  then have nin: "a \<noteq> x" "a \<notin> set_tree r" "a \<notin> set_ctx c"
    by (auto simp: set_tree_plug)
  have dx: "x \<notin> set_tree r" "x \<notin> set_ctx c"
    using d by (auto simp: inorder_plug set_before_after [symmetric])
  have h1x: "h1 x = Some xn"
    using xn nin h1 by simp
  have "data_at (h1(x \<mapsto> xn\<lparr>left_subtree := Some a\<rparr>)) = data_at h1"
    using h1x by simp
  also have "\<dots> = (data_at (heap b))(a \<mapsto> (k, v, e))"
    using h1 by (auto simp: data_at_def node_ctor_def)
  finally show ?thesis
    using xn nin dx h1 h1x
    by (intro exI [of _ "h1(x \<mapsto> xn\<lparr>left_subtree := Some a\<rparr>)"]) (auto simp: rep_plug node_ctor_def)
qed

lemma link_right:
  assumes b: "bst_rep b (plug (InRight l x # c) Leaf)" and a: "heap b a = None"
    and h1: "h1 = (heap b)(a \<mapsto> node_ctor (Some x) k v e)"
  shows "\<exists>h2. set_right h1 (Some x) (Some a) = Some h2 \<and>
     rep h2 nullptr (root b) (plug (InRight l x # c) (Node Leaf a Leaf)) \<and>
     data_at h2 = (data_at (heap b))(a \<mapsto> (k, v, e))"
proof -
  have d: "distinct (inorder (plug (InRight l x # c) Leaf))"
    and "rep (heap b) nullptr (root b) (plug (InRight l x # c) Leaf)"
    using b by (auto simp: bst_rep_def)
  then have "rep_ctx (heap b) (root b) (InRight l x # c) None"
    unfolding rep_plug by (auto split: option.splits)
  then obtain xn where xn: "heap b x = Some xn" "parent xn = ctx_parent c" "right_subtree xn = None"
      "rep (heap b) (Some x) (left_subtree xn) l" "rep_ctx (heap b) (root b) c (Some x)"
    by (auto split: option.splits)
  have "a \<notin> set_tree (plug (InRight l x # c) Leaf)"
    using b a by (rule fresh_notin)
  then have nin: "a \<noteq> x" "a \<notin> set_tree l" "a \<notin> set_ctx c"
    by (auto simp: set_tree_plug)
  have dx: "x \<notin> set_tree l" "x \<notin> set_ctx c"
    using d by (auto simp: inorder_plug set_before_after [symmetric])
  have h1x: "h1 x = Some xn"
    using xn nin h1 by simp
  have "data_at (h1(x \<mapsto> xn\<lparr>right_subtree := Some a\<rparr>)) = data_at h1"
    using h1x by simp
  also have "\<dots> = (data_at (heap b))(a \<mapsto> (k, v, e))"
    using h1 by (auto simp: data_at_def node_ctor_def)
  finally show ?thesis
    using xn nin dx h1 h1x
    by (intro exI [of _ "h1(x \<mapsto> xn\<lparr>right_subtree := Some a\<rparr>)"]) (auto simp: rep_plug node_ctor_def)
qed

lemma link_crumb:
  assumes b: "bst_rep b t" and a: "heap b a = None" and t: "t \<noteq> Leaf"
    and h1: "h1 = (heap b)(a \<mapsto> node_ctor (ctx_parent (slot cmp (heap b) k t)) k v e)"
  shows "\<exists>x xn h2. ctx_parent (slot cmp (heap b) k t) = Some x \<and> h1 x = Some xn \<and>
     (if cmp k (nd_key xn) then set_left h1 (Some x) (Some a) else set_right h1 (Some x) (Some a)) = Some h2 \<and>
     rep h2 nullptr (root b) (plug (slot cmp (heap b) k t) (Node Leaf a Leaf)) \<and>
     data_at h2 = (data_at (heap b))(a \<mapsto> (k, v, e))"
proof -
  have p: "bst_rep b (plug (slot cmp (heap b) k t) Leaf)"
    using b by (simp add: plug_slot)
  obtain k0 c where s: "slot cmp (heap b) k t = k0 # c"
    using t by (cases "slot cmp (heap b) k t") auto
  have alloc: "x \<in> set_tree t \<Longrightarrow> x \<noteq> a \<and> heap b x \<noteq> None" for x
    using b a rep_alloc unfolding bst_rep_def by fastforce
  have sub: "set_ctx (k0 # c) \<subseteq> set_tree t"
    using set_tree_plug [of "k0 # c" Leaf] plug_slot [of cmp "heap b" k t] s by auto
  show ?thesis
  proof (cases k0)
    case (InLeft x r)
    then obtain xn where "heap b x = Some xn" "x \<noteq> a"
      using alloc [of x] sub by auto
    moreover have "cmp k (key_of (heap b) x)"
      using slot_side(1) s InLeft by fastforce
    ultimately show ?thesis
      using link_left [OF p [unfolded s InLeft] a] h1 s InLeft by (auto simp: key_of_def)
  next
    case (InRight l x)
    then obtain xn where "heap b x = Some xn" "x \<noteq> a"
      using alloc [of x] sub by auto
    moreover have "\<not> cmp k (key_of (heap b) x)"
      using slot_side(2) s InRight by fastforce
    ultimately show ?thesis
      using link_right [OF p [unfolded s InRight] a] h1 s InRight by (auto simp: key_of_def)
  qed
qed

subsection \<open>The contract of a rebalancing hook and what insertion gets from it\<close>

text \<open>\<open>inv\<close> is what the hook keeps of the tree, \<open>usable\<close> what it needs of the address of a new node.\<close>

locale tree_policy =
  fixes e0 :: 'e
    and post_insert :: "('k, 'v, 'e) hook"
    and inv :: "('k, 'v, 'e) heap \<Rightarrow> nat tree \<Rightarrow> bool"
    and usable :: "nat \<Rightarrow> bool"
  assumes inv_empty: "inv h Leaf"
    and hook_law: "inv h (plug c Leaf) \<Longrightarrow> usable a \<Longrightarrow> bst_rep b (plug c (Node Leaf a Leaf)) \<Longrightarrow>
        data_at (heap b) = (data_at h)(a \<mapsto> (k, v, e0)) \<Longrightarrow>
        \<exists>b' p t'. post_insert b (Some a) = Some (b', p) \<and> bst_rep b' t' \<and>
          inorder t' = before c @ a # after c \<and> kv_at (heap b') = kv_at (heap b) \<and>
          tree_size b' = tree_size b \<and> inv (heap b') t'"

locale ordered_policy = key_order cmp + tree_policy e0 post_insert inv usable
  for cmp :: "'k \<Rightarrow> 'k \<Rightarrow> bool" and e0 :: 'e and post_insert :: "('k, 'v, 'e) hook" and inv and usable

context key_order
begin

lemma slot_sorted:
  "sorted_nodes cmp h (inorder t) \<Longrightarrow>
     (\<forall>x \<in> set (before (slot cmp h k t)). \<not> cmp k (key_of h x)) \<and>
     (\<forall>x \<in> set (after (slot cmp h k t)). cmp k (key_of h x))"
proof (induction t)
  case (Node l a r)
  note s = Node.prems [unfolded sorted_nodes_Node]
  show ?case
  proof (cases "cmp k (key_of h a)")
    case True
    then show ?thesis
      using Node.IH(1) s by (auto simp: before_append after_append intro: cmp_not_cmp)
  next
    case False
    then show ?thesis
      using Node.IH(2) s by (auto simp: before_append after_append dest: not_cmp_mono)
  qed
qed simp

lemma insert_entry_split:
  "(\<forall>x \<in> set xs. \<not> cmp k (fst x)) \<Longrightarrow> (\<forall>x \<in> set ys. cmp k (fst x)) \<Longrightarrow>
     insert_entry cmp k v (xs @ ys) = xs @ (k, v) # ys"
  by (cases ys) (simp_all add: insert_entry_def takeWhile_append dropWhile_append)

lemma sorted_insert_entry:
  fixes es :: "('k \<times> 'v) list"
  assumes "sorted_entries cmp es"
  shows "sorted_entries cmp (insert_entry cmp k v es)"
proof -
  define p where "p = (\<lambda>x::'k \<times> 'v. \<not> cmp k (fst x))"
  have split: "es = takeWhile p es @ dropWhile p es"
    by simp
  have lo: "\<forall>x \<in> set (takeWhile p es). \<not> cmp k (fst x)"
    by (auto dest: set_takeWhileD simp: p_def)
  have s: "sorted_wrt (\<lambda>x y. \<not> cmp (fst y) (fst x)) (takeWhile p es @ dropWhile p es)"
    using assms by (simp add: sorted_entries_def)
  have hi: "\<forall>y \<in> set (dropWhile p es). \<not> cmp (fst y) k"
  proof (cases "dropWhile p es")
    case (Cons z zs)
    then have "cmp k (fst z)"
      using hd_dropWhile [of p es] by (auto simp: p_def)
    moreover have "\<forall>y \<in> set zs. \<not> cmp (fst y) (fst z)"
      using s Cons by (simp add: sorted_wrt_append)
    ultimately show ?thesis
      using Cons cmp_asym cmp_not_cmp by (metis set_ConsD)
  next
    case Nil
    then show ?thesis unfolding Nil by simp
  qed
  show ?thesis
    using s [unfolded sorted_wrt_append] lo hi
    by (simp add: sorted_entries_def insert_entry_def p_def [symmetric] sorted_wrt_append
        del: takeWhile_dropWhile_id)
qed

end

context ordered_policy
begin

lemma inserted:
  assumes b: "bst_rep b t" and i: "inv (heap b) t" and a: "heap b a = None" and u: "usable a"
    and c_def: "c = slot cmp (heap b) k t"
  shows "\<exists>b' t'. insert_copy cmp e0 post_insert b (Some a) (k, v) = Some (b', mk_iter (Some a), True) \<and>
     bst_rep b' t' \<and> inv (heap b') t' \<and> inorder t' = before c @ a # after c \<and>
     kv_at (heap b') = (kv_at (heap b))(a \<mapsto> (k, v)) \<and>
     tree_size b' = (if t = Leaf then tree_size b else tree_size b + 1)"
proof -
  have desc: "descend cmp (heap b) k nullptr (root b) = Some (ctx_parent c)"
    using descend_at [of "heap b" "[]" "root b" t cmp k] b by (simp add: bst_rep_def c_def)
  define h1 where "h1 = (heap b)(a \<mapsto> node_ctor (ctx_parent c) k v e0)"
  have cn: "create_node b (Some a) (ctx_parent c) k v e0 = b\<lparr>heap := h1\<rparr>"
    by (simp add: create_node_def h1_def)
  have pc: "plug c Leaf = t"
    by (simp add: c_def plug_slot)
  have ic: "inv (heap b) (plug c Leaf)"
    using i pc by simp
  have dis: "distinct (inorder (plug c (Node Leaf a Leaf)))"
    using b fresh_notin [OF b a] pc [symmetric]
    by (auto simp: bst_rep_def inorder_plug set_tree_plug set_before_after [symmetric])
  have kv: "data_at h = (data_at (heap b))(a \<mapsto> (k, v, e0)) \<Longrightarrow> kv_at h = (kv_at (heap b))(a \<mapsto> (k, v))" for h
    by (rule HOL.ext) (simp add: kv_at_data)
  show ?thesis
  proof (cases "t = Leaf")
    case True
    then have c: "c = []" by (simp add: c_def)
    define b1 where "b1 = b\<lparr>heap := h1, root := Some a\<rparr>"
    have r: "bst_rep b1 (plug c (Node Leaf a Leaf))"
      using c by (simp add: b1_def h1_def bst_rep_def node_ctor_def)
    have d: "data_at (heap b1) = (data_at (heap b))(a \<mapsto> (k, v, e0))"
      by (auto simp: b1_def h1_def data_at_def node_ctor_def)
    obtain b' p t' where "post_insert b1 (Some a) = Some (b', p)" "bst_rep b' t'"
        "inorder t' = before c @ a # after c" "kv_at (heap b') = kv_at (heap b1)"
        "tree_size b' = tree_size b1" "inv (heap b') t'"
      using hook_law [OF ic u r d] by blast
    moreover have "insert_copy cmp e0 post_insert b (Some a) (k, v) =
        (do { (b, _) \<leftarrow> post_insert b1 (Some a); Some (b, mk_iter (Some a), True) })"
      using desc c cn by (simp add: insert_copy_def b1_def Let_def)
    ultimately show ?thesis
      using True kv [OF d] by (auto simp: b1_def)
  next
    case False
    obtain x xn h2 where l: "ctx_parent c = Some x" "h1 x = Some xn"
        "(if cmp k (nd_key xn) then set_left h1 (Some x) (Some a) else set_right h1 (Some x) (Some a)) = Some h2"
        "rep h2 nullptr (root b) (plug c (Node Leaf a Leaf))"
        "data_at h2 = (data_at (heap b))(a \<mapsto> (k, v, e0))"
      using link_crumb [OF b a False h1_def [unfolded c_def]] unfolding c_def by blast
    define b1 where "b1 = b\<lparr>heap := h2, tree_size := tree_size b + 1\<rparr>"
    have r: "bst_rep b1 (plug c (Node Leaf a Leaf))"
      using l(4) dis by (simp add: b1_def bst_rep_def)
    have d: "data_at (heap b1) = (data_at (heap b))(a \<mapsto> (k, v, e0))"
      using l(5) by (simp add: b1_def)
    obtain b' p t' where "post_insert b1 (Some a) = Some (b', p)" "bst_rep b' t'"
        "inorder t' = before c @ a # after c" "kv_at (heap b') = kv_at (heap b1)"
        "tree_size b' = tree_size b1" "inv (heap b') t'"
      using hook_law [OF ic u r d] by blast
    moreover have "insert_copy cmp e0 post_insert b (Some a) (k, v) =
        (do { (b, _) \<leftarrow> post_insert b1 (Some a); Some (b, mk_iter (Some a), True) })"
      using desc l(1-3) cn by (simp add: insert_copy_def compare_keys_def Let_def b1_def split: if_splits)
    ultimately show ?thesis
      using False kv [OF d] by (auto simp: b1_def)
  qed
qed

lemma inserted_entries:
  assumes b: "bst_rep b t" and i: "inv (heap b) t" and a: "heap b a = None" and u: "usable a"
    and s: "sorted_entries cmp (entries (heap b) (inorder t))"
  shows "\<exists>b' t'. insert_copy cmp e0 post_insert b (Some a) (k, v) = Some (b', mk_iter (Some a), True) \<and>
     bst_rep b' t' \<and> inv (heap b') t' \<and>
     kv_at (heap b') = (kv_at (heap b))(a \<mapsto> (k, v)) \<and>
     entries (heap b') (inorder t') = insert_entry cmp k v (entries (heap b) (inorder t)) \<and>
     sorted_entries cmp (entries (heap b') (inorder t')) \<and>
     tree_size b' = (if t = Leaf then tree_size b else tree_size b + 1)"
proof -
  define c where "c = slot cmp (heap b) k t"
  from inserted [OF b i a u c_def] obtain b' t' where
    1: "insert_copy cmp e0 post_insert b (Some a) (k, v) = Some (b', mk_iter (Some a), True)"
     "bst_rep b' t'" "inv (heap b') t'" "inorder t' = before c @ a # after c"
     "kv_at (heap b') = (kv_at (heap b))(a \<mapsto> (k, v))"
     "tree_size b' = (if t = Leaf then tree_size b else tree_size b + 1)"
    by blast
  have r: "rep (heap b) nullptr (root b) t" using b by (simp add: bst_rep_def)
  have io: "inorder t = before c @ after c"
    using inorder_plug [of c Leaf] plug_slot [of cmp "heap b" k t] by (simp add: c_def)
  have an: "a \<notin> set (before c @ after c)"
    using fresh_notin [OF b a] io by (metis set_inorder)
  have e1: "entries (heap b') xs = entries (heap b) xs" if "a \<notin> set xs" for xs
    using that 1(5) by (intro entries_cong) auto
  have "entries (heap b') (inorder t') = entries (heap b) (before c) @ (k, v) # entries (heap b) (after c)"
    using an e1 [of "before c"] e1 [of "after c"] 1(5) by (simp add: 1(4) entries_Cons)
  also have "\<dots> = insert_entry cmp k v (entries (heap b) (before c) @ entries (heap b) (after c))"
  proof (rule insert_entry_split [symmetric])
    note so = slot_sorted [of "heap b" t k, folded c_def] s [unfolded sorted_entries_nodes [OF r]]
    have al: "\<forall>x \<in> set (before c) \<union> set (after c). heap b x \<noteq> None"
      using rep_alloc [OF r] io by (metis set_append set_inorder)
    show "\<forall>x \<in> set (entries (heap b) (before c)). \<not> cmp k (fst x)"
      "\<forall>x \<in> set (entries (heap b) (after c)). cmp k (fst x)"
      using so al by (auto simp: entries_map)
  qed
  finally have "entries (heap b') (inorder t') = insert_entry cmp k v (entries (heap b) (inorder t))"
    by (simp add: io)
  with 1 sorted_insert_entry [OF s] show ?thesis by metis
qed

end

context ordered_policy
begin

lemma inserted_seq:
  assumes "bst_rep b t" and "inv (heap b) t"
    and "distinct (map fst vs)" and "\<forall>p \<in> fst ` set vs. \<exists>a. p = Some a \<and> heap b a = None \<and> usable a"
    and "sorted_entries cmp (entries (heap b) (inorder t))"
  shows "\<exists>b' t'. insert_seq cmp e0 post_insert b vs = Some b' \<and> bst_rep b' t' \<and> inv (heap b') t' \<and>
     entries (heap b') (inorder t') =
       fold (\<lambda>(k, v). insert_entry cmp k v) (map snd vs) (entries (heap b) (inorder t)) \<and>
     sorted_entries cmp (entries (heap b') (inorder t')) \<and>
     tree_size b' = tree_size b + of_nat (length vs) - (if t = Leaf \<and> vs \<noteq> [] then 1 else 0)"
  using assms
proof (induction vs arbitrary: b t)
  case Nil
  then show ?case by auto
next
  case (Cons x vs)
  obtain a k v where x: "x = (Some a, k, v)" and a: "heap b a = None" and u: "usable a"
    using Cons.prems(4) by (cases x) auto
  obtain b1 t1 where 1: "insert_copy cmp e0 post_insert b (Some a) (k, v) = Some (b1, mk_iter (Some a), True)"
     "bst_rep b1 t1" "inv (heap b1) t1" "kv_at (heap b1) = (kv_at (heap b))(a \<mapsto> (k, v))"
     "entries (heap b1) (inorder t1) = insert_entry cmp k v (entries (heap b) (inorder t))"
     "sorted_entries cmp (entries (heap b1) (inorder t1))"
     "tree_size b1 = (if t = Leaf then tree_size b else tree_size b + 1)"
    using inserted_entries [OF Cons.prems(1,2) a u Cons.prems(5)] by blast
  have ne: "t1 \<noteq> Leaf"
    using 1(5) by (auto simp: insert_entry_def)
  have fresh: "heap b1 y = None" if "heap b y = None" "y \<noteq> a" for y
    using fun_cong [OF 1(4), of y] that by (auto simp: kv_at_def split: option.splits)
  have "\<forall>p \<in> fst ` set vs. \<exists>a. p = Some a \<and> heap b1 a = None \<and> usable a"
  proof
    fix p
    assume p: "p \<in> fst ` set vs"
    then obtain y where "p = Some y" "heap b y = None" "usable y"
      using Cons.prems(4) by auto
    moreover have "Some a \<notin> fst ` set vs"
      using Cons.prems(3) x by simp
    then have "p \<noteq> Some a"
      using p by metis
    ultimately show "\<exists>a. p = Some a \<and> heap b1 a = None \<and> usable a"
      using fresh by auto
  qed
  moreover have "distinct (map fst vs)"
    using Cons.prems(3) by simp
  ultimately obtain b' t' where
    "insert_seq cmp e0 post_insert b1 vs = Some b'" "bst_rep b' t'" "inv (heap b') t'"
     "entries (heap b') (inorder t') =
       fold (\<lambda>(k, v). insert_entry cmp k v) (map snd vs) (entries (heap b1) (inorder t1))"
     "sorted_entries cmp (entries (heap b') (inorder t'))"
     "tree_size b' = tree_size b1 + of_nat (length vs)"
    using Cons.IH [OF 1(2,3) _ _ 1(6)] ne by auto
  then show ?case
    using x 1(1,5,7) by (auto simp: algebra_simps)
qed

lemma built:
  assumes "distinct (map fst vs)" and "\<forall>p \<in> fst ` set vs. \<exists>a. p = Some a \<and> h a = None \<and> usable a"
  shows "\<exists>b t. bst_of_list cmp e0 post_insert h vs = Some b \<and> bst_rep b t \<and>
     entries (heap b) (inorder t) = fold (\<lambda>(k, v). insert_entry cmp k v) (map snd vs) [] \<and>
     sorted_entries cmp (entries (heap b) (inorder t)) \<and>
     size_op b = of_nat (length vs - 1)"
proof -
  have "bst_rep (empty_bst h) Leaf" "inv (heap (empty_bst h)) Leaf"
      "entries (heap (empty_bst h)) (inorder Leaf) = []" "tree_size (empty_bst h) = 0"
    by (simp_all add: bst_rep_def empty_bst_def inv_empty)
  with inserted_seq [of "empty_bst h" Leaf vs] assms obtain b t where
    "bst_of_list cmp e0 post_insert h vs = Some b" "bst_rep b t"
     "entries (heap b) (inorder t) = fold (\<lambda>(k, v). insert_entry cmp k v) (map snd vs) []"
     "sorted_entries cmp (entries (heap b) (inorder t))"
     "tree_size b = of_nat (length vs) - (if vs \<noteq> [] then 1 else 0)"
    by (auto simp: bst_of_list_def empty_bst_def sorted_entries_def)
  then show ?thesis
    by (cases vs) (auto simp: size_op_def)
qed

end

lemma assigned:
  assumes b: "bst_rep b t" and a: "heap b a = Some n" "a \<in> set_tree t"
    and h_def: "h = (heap b)(a \<mapsto> n\<lparr>nd_val := v\<rparr>)"
  shows "bst_rep (b\<lparr>heap := h\<rparr>) t \<and> (\<exists>xs ys. entries (heap b) (inorder t) = xs @ (nd_key n, nd_val n) # ys \<and>
     entries h (inorder t) = xs @ (nd_key n, v) # ys)"
proof -
  obtain c l r where t: "t = plug c (Node l a r)"
    using tree_split_at [OF a(2)] by blast
  from b [unfolded t] obtain p where d: "distinct (inorder t)" and r: "rep_ctx (heap b) (root b) c p" "rep (heap b) (ctx_parent c) p (Node l a r)"
    by (auto simp: bst_rep_def rep_plug t)
  have nin: "a \<notin> set (before c @ inorder l)" "a \<notin> set (inorder r @ after c)"
      "a \<notin> set_ctx c" "a \<notin> set_tree l" "a \<notin> set_tree r"
    using d by (auto simp: t inorder_plug set_before_after [symmetric])
  have "rep_ctx h (root b) c p" "rep h (ctx_parent c) p (Node l a r)"
    using r nin a by (auto simp: h_def)
  then have rep: "bst_rep (b\<lparr>heap := h\<rparr>) t"
    using d by (auto simp: bst_rep_def rep_plug t)
  have e: "entries h xs = entries (heap b) xs" if "a \<notin> set xs" for xs
    using that by (intro entries_cong) (auto simp: h_def kv_at_def)
  have io: "inorder t = (before c @ inorder l) @ a # (inorder r @ after c)"
    by (simp add: t inorder_plug)
  have "entries h (inorder t) =
      entries (heap b) (before c @ inorder l) @ (nd_key n, v) # entries (heap b) (inorder r @ after c)"
    unfolding io using e [OF nin(1)] e [OF nin(2)] by (simp add: entries_Cons kv_at_def h_def)
  moreover have "entries (heap b) (inorder t) =
      entries (heap b) (before c @ inorder l) @ (nd_key n, nd_val n) # entries (heap b) (inorder r @ after c)"
    unfolding io using a by (simp add: entries_Cons kv_at_def)
  ultimately show ?thesis using rep by blast
qed

interpretation plain: ordered_policy std_less "()" post_insert_bst "\<lambda>_ _. True" "\<lambda>_. True"
  by unfold_locales (auto simp: post_insert_bst_def inorder_plug)


subsection \<open>Properties\<close>

text \<open>C1: inserting into a plain tree sorted by std::less, with a fresh node from the allocator, links
  the node so that the new listing is the old one with the entry put after every entry whose key is
  not greater; the listing stays sorted, the returned iterator stands on the new node and the flag is
  true (equal keys are inserted again). The size counts the entry unless the tree was empty.\<close>

theorem insert_keeps_sorted:
  assumes "bst_rep b t" and "heap b a = None"
    and "sorted_entries std_less (entries (heap b) (inorder t))"
  shows "\<exists>b' t'. insert_copy std_less () post_insert_bst b (Some a) (k, v) =
       Some (b', mk_iter (Some a), True) \<and> bst_rep b' t' \<and>
     entries (heap b') (inorder t') = insert_entry std_less k v (entries (heap b) (inorder t)) \<and>
     sorted_entries std_less (entries (heap b') (inorder t')) \<and>
     tree_size b' = (if t = Leaf then tree_size b else tree_size b + 1)"
  using plain.inserted_entries [OF assms(1) TrueI assms(2) TrueI assms(3)] by blast

theorem insert_keeps_sorted_witness:
  "\<exists>b' t'. insert_copy std_less () post_insert_bst sample_bst (Some 7) (4, 44) =
       Some (b', mk_iter (Some 7), True) \<and> bst_rep b' t' \<and>
     entries (heap b') (inorder t') = [(3, 30), (4, 40), (4, 44), (5, 50), (9, 90)] \<and>
     tree_size b' = 5"
proof -
  have "entries (heap sample_bst) (inorder sample_tree) = [(3, 30), (4, 40), (5, 50), (9, 90)]"
    using sample_entries by (simp add: sample_bst_def)
  moreover have "heap sample_bst 7 = None" "sample_tree \<noteq> Leaf" "tree_size sample_bst = 4"
    by (simp_all add: sample_bst_def sample_heap_def sample_tree_def)
  ultimately show ?thesis
    using insert_keeps_sorted [OF sample_rep _ sample_sorted, of 7 4 44]
    by (auto simp: insert_entry_def std_less_def)
qed

text \<open>C16: a tree built from a list (the range and initializer-list constructors) lists the entries
  inserted one after the other into the empty listing, sorted; its size is one less than the number
  of entries, because the insertion into the empty tree does not count.\<close>

theorem build_sorts_and_undercounts:
  assumes "distinct (map fst vs)" and "\<forall>p \<in> fst ` set vs. \<exists>a. p = Some a \<and> h a = None"
  shows "\<exists>b t. bst_of_list std_less () post_insert_bst h vs = Some b \<and> bst_rep b t \<and>
     entries (heap b) (inorder t) = fold (\<lambda>(k, v). insert_entry std_less k v) (map snd vs) [] \<and>
     sorted_entries std_less (entries (heap b) (inorder t)) \<and>
     size_op b = of_nat (length vs - 1)"
  using assms by (intro plain.built) auto

theorem build_sorts_and_undercounts_witness:
  "\<exists>b t. bst_of_list std_less () post_insert_bst (\<lambda>_. None)
       [(Some 0, 5, ''a''), (Some 1, 3, ''b''), (Some 2, 9, ''c'')] = Some b \<and> bst_rep b t \<and>
     entries (heap b) (inorder t) = [(3::int, ''b''), (5, ''a''), (9, ''c'')] \<and> size_op b = 2"
  using build_sorts_and_undercounts
    [of "[(Some 0, 5::int, ''a''), (Some 1, 3, ''b''), (Some 2, 9, ''c'')]" "\<lambda>_. None"]
  by (auto simp: insert_entry_def std_less_def)

text \<open>insert_or_assign on a key that a sorted tree holds replaces the value of one entry with that
  key and leaves the shape and every other entry as they were.\<close>

theorem insert_or_assign_replaces:
  assumes "bst_rep b t" and "sorted_entries std_less (entries (heap b) (inorder t))"
    and "k \<in> fst ` set (entries (heap b) (inorder t))"
  shows "\<exists>b' a xs v0 ys. insert_or_assign std_less e post_insert b new_node (k, v) = Some (b', mk_iter (Some a)) \<and>
     bst_rep b' t \<and> tree_size b' = tree_size b \<and>
     entries (heap b) (inorder t) = xs @ (k, v0) # ys \<and> entries (heap b') (inorder t) = xs @ (k, v) # ys"
proof -
  obtain q where q: "go_to_node_with_key std_less b k = Some q"
    "q = None \<longleftrightarrow> k \<notin> fst ` set (entries (heap b) (inorder t))"
    "\<And>a. q = Some a \<Longrightarrow> a \<in> set_tree t \<and> (\<exists>v. kv_at (heap b) a = Some (k, v))"
    using less.go_to_node_iff [OF assms(1,2), of k] by blast
  then obtain a where a: "q = Some a" "a \<in> set_tree t"
    using assms(3) by (cases q) auto
  then obtain n where n: "heap b a = Some n" "nd_key n = k"
    using q(3) [OF a(1)] by (auto simp: kv_at_def split: option.splits)
  define h where "h = (heap b)(a \<mapsto> n\<lparr>nd_val := v\<rparr>)"
  have "insert_or_assign std_less e post_insert b new_node (k, v) = Some (b\<lparr>heap := h\<rparr>, mk_iter (Some a))"
    using q(1) a(1) n(1) by (simp add: insert_or_assign_def write_node_def h_def)
  with assigned [OF assms(1) n(1) a(2) h_def] n(2) show ?thesis
    by (metis bst.select_convs(3) bst.surjective bst.update_convs(1) bst.select_convs(1))
qed

theorem insert_or_assign_replaces_witness:
  "\<exists>b' a xs v0 ys. insert_or_assign std_less () post_insert_bst sample_bst None (9, 99) = Some (b', mk_iter (Some a)) \<and>
     bst_rep b' sample_tree \<and> tree_size b' = tree_size sample_bst \<and>
     entries (heap sample_bst) (inorder sample_tree) = xs @ (9, v0) # ys \<and>
     entries (heap b') (inorder sample_tree) = xs @ (9, 99) # ys"
proof (rule insert_or_assign_replaces [OF sample_rep sample_sorted])
  show "9 \<in> fst ` set (entries (heap sample_bst) (inorder sample_tree))"
    using sample_entries by (simp add: sample_bst_def)
qed

end
