(* ===== verification/BstErase.thy ===== *)
theory BstErase
  imports BstInsert
begin

text \<open>
  Deletion in the plain binary search tree (bst_impl::erase and the erase overloads of
  binary_search_tree.h), the destructor, and the copy and move operations. The code of erase handles
  four shapes of a node; the theorems below cover the shapes for which the pointer surgery is right.
\<close>

subsection \<open>Operations\<close>

definition delete_node :: "('k, 'v, 'e) bst \<Rightarrow> ptr \<Rightarrow> ('k, 'v, 'e) bst option" where
  "delete_node b p =
     (case p of None \<Rightarrow> None
      | Some a \<Rightarrow> (case heap b a of None \<Rightarrow> None | Some _ \<Rightarrow> Some (b\<lparr>heap := (heap b)(a := None)\<rparr>)))"

text \<open>The four cases of erase, each giving the heap and the value of \<open>new_node\<close>, or an updated
  \<open>_root\<close>. The pointer \<open>par\<close> is \<open>node_to_delete->parent\<close>.\<close>

definition erase_leaf ::
  "('k, 'v, 'e) bst \<Rightarrow> ptr \<Rightarrow> ('k, 'v, 'e) node \<Rightarrow> (('k, 'v, 'e) bst \<times> ptr) option" where
  "erase_leaf b n nd = do {
     pn \<leftarrow> deref (heap b) (parent nd);
     h \<leftarrow> (if left_subtree pn = n then set_left (heap b) (parent nd) nullptr
           else set_right (heap b) (parent nd) nullptr);
     Some (b\<lparr>heap := h\<rparr>, nullptr)
   }"

definition erase_left_only ::
  "('k, 'v, 'e) bst \<Rightarrow> ptr \<Rightarrow> ('k, 'v, 'e) node \<Rightarrow> (('k, 'v, 'e) bst \<times> ptr) option" where
  "erase_left_only b n nd = do {
     let new_node = left_subtree nd;
     pn \<leftarrow> deref (heap b) (parent nd);
     h \<leftarrow> (if left_subtree pn = n then set_left (heap b) (parent nd) new_node
           else set_right (heap b) (parent nd) new_node);
     h \<leftarrow> set_parent h new_node (parent nd);
     Some (b\<lparr>heap := h\<rparr>, new_node)
   }"

definition erase_right_only ::
  "('k, 'v, 'e) bst \<Rightarrow> ptr \<Rightarrow> ('k, 'v, 'e) node \<Rightarrow> (('k, 'v, 'e) bst \<times> ptr) option" where
  "erase_right_only b n nd = do {
     let new_node = right_subtree nd;
     b \<leftarrow> (if parent nd \<noteq> nullptr then do {
              pn \<leftarrow> deref (heap b) (parent nd);
              h \<leftarrow> (if left_subtree pn = n then set_left (heap b) (parent nd) new_node
                    else set_right (heap b) (parent nd) new_node);
              Some (b\<lparr>heap := h\<rparr>)
            } else Some (b\<lparr>root := new_node\<rparr>));
     h \<leftarrow> set_parent (heap b) new_node (parent nd);
     Some (b\<lparr>heap := h\<rparr>, new_node)
   }"

definition erase_two ::
  "('k, 'v, 'e) bst \<Rightarrow> ptr \<Rightarrow> ('k, 'v, 'e) node \<Rightarrow> (('k, 'v, 'e) bst \<times> ptr) option" where
  "erase_two b n nd = do {
     new_node \<leftarrow> go_right (heap b) (left_subtree nd);
     h \<leftarrow> (if parent nd \<noteq> nullptr then do {
              pn \<leftarrow> deref (heap b) (parent nd);
              (if right_subtree pn = n then set_right (heap b) (parent nd) new_node
               else set_left (heap b) (parent nd) new_node)
            } else Some (heap b));
     nn \<leftarrow> deref h new_node;
     h \<leftarrow> (if parent nn \<noteq> nullptr then do {
              qn \<leftarrow> deref h (parent nn);
              (if right_subtree qn = new_node then set_right h (parent nn) (left_subtree nn)
               else set_left h (parent nd) (left_subtree nn))
            } else Some h);
     nn \<leftarrow> deref h new_node;
     nd' \<leftarrow> deref h n;
     h \<leftarrow> (if parent nn = n then Some h else set_left h new_node (left_subtree nd'));
     h \<leftarrow> set_right h new_node (right_subtree nd');
     h \<leftarrow> set_parent h new_node (parent nd');
     nn \<leftarrow> deref h new_node;
     h \<leftarrow> set_parent_nn h (left_subtree nn) new_node;
     h \<leftarrow> set_parent_nn h (right_subtree nn) new_node;
     Some (b\<lparr>heap := h\<rparr>, new_node)
   }"

definition erase_bst :: "('k, 'v, 'e) bst \<Rightarrow> ptr \<Rightarrow> (exn + ('k, 'v, 'e) bst \<times> ptr) option" where
  "erase_bst b n =
     (if n = nullptr then Some (Inl (OutOfRange (''Incorrect iterator for erase'' @ [CHR 0x0A])))
      else do {
        nd \<leftarrow> deref (heap b) n;
        (b, new_node) \<leftarrow>
          (if left_subtree nd = nullptr \<and> right_subtree nd = nullptr then erase_leaf b n nd
           else if left_subtree nd \<noteq> nullptr \<and> right_subtree nd = nullptr then erase_left_only b n nd
           else if left_subtree nd = nullptr \<and> right_subtree nd \<noteq> nullptr then erase_right_only b n nd
           else erase_two b n nd);
        nd' \<leftarrow> deref (heap b) n;
        let b = (if parent nd' = nullptr then b\<lparr>root := new_node\<rparr> else b);
        b \<leftarrow> delete_node (b\<lparr>tree_size := tree_size b - 1\<rparr>) n;
        Some (Inr (b, new_node))
      })"

definition erase_iter :: "('k, 'v, 'e) bst \<Rightarrow> iter \<Rightarrow> (exn + ('k, 'v, 'e) bst \<times> iter) option" where
  "erase_iter b pos = do {
     r \<leftarrow> erase_bst b (it_data pos);
     Some (case r of Inl e \<Rightarrow> Inl e | Inr (b, n) \<Rightarrow> Inr (b, mk_iter n))
   }"

definition erase_key ::
  "('k \<Rightarrow> 'k \<Rightarrow> bool) \<Rightarrow> ('k, 'v, 'e) bst \<Rightarrow> 'k \<Rightarrow> (exn + ('k, 'v, 'e) bst \<times> 64 word) option" where
  "erase_key cmp b key = do {
     n \<leftarrow> go_to_node_with_key cmp b key;
     r \<leftarrow> erase_bst b n;
     Some (case r of Inl e \<Rightarrow> Inl e | Inr (b, _) \<Rightarrow> Inr (b, size_op b))
   }"

fun delete_all :: "('k, 'v, 'e) bst \<Rightarrow> ptr list \<Rightarrow> ('k, 'v, 'e) bst option" where
  "delete_all b [] = Some b"
| "delete_all b (n # vec) = do { b \<leftarrow> delete_node b n; delete_all b vec }"

definition destruct :: "('k, 'v, 'e) bst \<Rightarrow> ('k, 'v, 'e) bst option" where
  "destruct b = do {
     it \<leftarrow> begin_infix b;
     e \<leftarrow> end_infix b;
     vec \<leftarrow> traverse (infix_iterator (heap b)) it e;
     delete_all b vec
   }"

text \<open>The move constructor: the new tree, and the other one afterwards.\<close>

definition move_construct :: "('k, 'v, 'e) bst \<Rightarrow> ('k, 'v, 'e) bst \<times> ('k, 'v, 'e) bst" where
  "move_construct other = (other, other\<lparr>root := nullptr, tree_size := 0\<rparr>)"

subsection \<open>The destructor frees the nodes of the tree, once each\<close>

lemma delete_all_some:
  "distinct xs \<Longrightarrow> (\<And>x. x \<in> set xs \<Longrightarrow> heap b x \<noteq> None) \<Longrightarrow>
     delete_all b (map Some xs) = Some (b\<lparr>heap := (\<lambda>x. if x \<in> set xs then None else heap b x)\<rparr>)"
proof (induction xs arbitrary: b)
  case Nil
  then show ?case by simp
next
  case (Cons x xs)
  obtain n where n: "heap b x = Some n"
    using Cons.prems(2) [of x] by auto
  define b1 where "b1 = b\<lparr>heap := (heap b)(x := None)\<rparr>"
  have "delete_all b (map Some (x # xs)) = delete_all b1 (map Some xs)"
    using n by (simp add: delete_node_def b1_def)
  also have "\<dots> = Some (b1\<lparr>heap := (\<lambda>y. if y \<in> set xs then None else heap b1 y)\<rparr>)"
    by (rule Cons.IH) (use Cons.prems in \<open>auto simp: b1_def\<close>)
  also have "b1\<lparr>heap := (\<lambda>y. if y \<in> set xs then None else heap b1 y)\<rparr> =
      b\<lparr>heap := (\<lambda>y. if y \<in> set (x # xs) then None else heap b y)\<rparr>"
    by (auto simp: b1_def fun_eq_iff intro!: arg_cong [of _ _ "\<lambda>h. b\<lparr>heap := h\<rparr>"])
  finally show ?case .
qed

lemma destruct_frees:
  assumes b: "bst_rep b t"
  shows "destruct b = Some (b\<lparr>heap := (\<lambda>x. if x \<in> set_tree t then None else heap b x)\<rparr>)"
proof -
  have tr: "do { it \<leftarrow> begin_infix b; e \<leftarrow> end_infix b; traverse (infix_iterator (heap b)) it e } =
      Some (map Some (inorder t))"
    using b by (intro forward.traverse_all) (auto simp: infix_lists_def)
  have "destruct b = do { vec \<leftarrow> (do { it \<leftarrow> begin_infix b; e \<leftarrow> end_infix b;
      traverse (infix_iterator (heap b)) it e }); delete_all b vec }"
    by (simp add: destruct_def)
  also have "\<dots> = delete_all b (map Some (inorder t))"
    by (simp add: tr)
  also have "\<dots> = Some (b\<lparr>heap := (\<lambda>x. if x \<in> set (inorder t) then None else heap b x)\<rparr>)"
    using b rep_alloc [of "heap b" nullptr "root b" t] by (intro delete_all_some) (auto simp: bst_rep_def)
  finally show ?thesis by simp
qed

subsection \<open>Erasing a node\<close>

text \<open>\<open>node_to_delete\<close> has two children and its inorder predecessor lies deeper than the left child
  and is a leaf.\<close>

fun last_childless :: "nat tree \<Rightarrow> bool" where
  "last_childless Leaf = False"
| "last_childless (Node l a r) = (if r = Leaf then l = Leaf else last_childless r)"

fun deep_pred :: "nat tree \<Rightarrow> bool" where
  "deep_pred Leaf = False"
| "deep_pred (Node l a r) = last_childless r"

text \<open>The shapes on which erase is right, for a node in context \<open>c\<close> with subtrees \<open>l\<close> and \<open>r\<close>.\<close>

definition erasable :: "ctx \<Rightarrow> nat tree \<Rightarrow> nat tree \<Rightarrow> bool" where
  "erasable c l r \<longleftrightarrow>
     (if r = Leaf then c \<noteq> [] else l = Leaf \<or> deep_pred l)"

lemma child_swap:
  assumes s: "sub_at h rt (k # c) (Some a) t"
  shows "\<exists>par pn h'. ctx_parent (k # c) = Some par \<and> h par = Some pn \<and>
    (if left_subtree pn = Some a then set_left h (Some par) q else set_right h (Some par) q) = Some h' \<and>
    (if right_subtree pn = Some a then set_right h (Some par) q else set_left h (Some par) q) = Some h' \<and>
    rep_ctx h' rt (k # c) q \<and> (\<forall>x. x \<notin> set_ctx (k # c) \<longrightarrow> h' x = h x)"
  using s
proof (cases rule: sub_at_crumb)
  case (l x r xn)
  have "x \<notin> set_tree r" "x \<notin> set_ctx c" "rep_ctx h rt (k # c) (Some a)"
    using l(1) sub_at_disjoint [OF l(7)] s by (auto simp: sub_at_def)
  then show ?thesis
    using l by (intro exI [of _ x] exI [of _ xn] exI [of _ "h(x \<mapsto> xn\<lparr>left_subtree := q\<rparr>)"])
      auto
next
  case (r l x xn)
  have "x \<notin> set_tree l" "x \<notin> set_ctx c" "rep_ctx h rt (k # c) (Some a)"
    using r(1) sub_at_disjoint [OF r(7)] s by (auto simp: sub_at_def)
  then show ?thesis
    using r by (intro exI [of _ x] exI [of _ xn] exI [of _ "h(x \<mapsto> xn\<lparr>right_subtree := q\<rparr>)"])
      auto
qed

lemma pred_detach:
  "rep h par (Some z) (Node u z w) \<Longrightarrow> last_childless w \<Longrightarrow> distinct (inorder (Node u z w)) \<Longrightarrow>
     \<exists>y yn z' zn w'. go_right h (Some z) = Some (Some y) \<and> h y = Some yn \<and> left_subtree yn = None \<and>
       parent yn = Some z' \<and> h z' = Some zn \<and> right_subtree zn = Some y \<and> z' \<noteq> y \<and>
       z' \<in> set_tree (Node u z w) \<and> z' \<notin> set_tree u - {z} \<and>
       rep (h(z' \<mapsto> zn\<lparr>right_subtree := None\<rparr>)) par (Some z) (Node u z w') \<and> inorder w = inorder w' @ [y]"
proof (induction w arbitrary: par u z)
  case Leaf
  then show ?case by simp
next
  case (Node l b r)
  obtain zn where zn: "h z = Some zn" "right_subtree zn = Some b" "rep h (Some z) (Some b) (Node l b r)"
      "rep h (Some z) (left_subtree zn) u" "parent zn = par"
    using Node.prems(1) by (auto split: option.splits)
  have dis: "z \<notin> set_tree u" "z \<noteq> b" "z \<notin> set_tree l" "z \<notin> set_tree r"
      "set_tree u \<inter> set_tree (Node l b r) = {}"
    using Node.prems(3) by auto
  have go: "go_right h (Some z) = go_right h (Some b)"
    using zn by (subst go_right.simps) simp
  obtain bn where bn: "h b = Some bn" "parent bn = Some z" "rep h (Some b) (left_subtree bn) l"
      "rep h (Some b) (right_subtree bn) r"
    using zn(3) by (auto split: option.splits)
  show ?case
  proof (cases "r = Leaf")
    case True
    then have "go_right h (Some b) = Some (Some b)" "left_subtree bn = None"
      using bn Node.prems(2) by (subst go_right.simps, auto)
    moreover have "rep (h(z \<mapsto> zn\<lparr>right_subtree := None\<rparr>)) par (Some z) (Node u z Leaf)"
      using zn dis by simp
    ultimately show ?thesis
      using True Node.prems(2) go bn zn dis
      by - (rule exI [of _ b], rule exI [of _ bn], rule exI [of _ z], rule exI [of _ zn],
          rule exI [of _ Leaf], simp del: rep.simps fun_upd_apply)
  next
    case False
    then have "last_childless r" "distinct (inorder (Node l b r))"
      using Node.prems by auto
    from Node.IH(2) [OF zn(3) this] obtain y yn z' zn' w' where
      y: "go_right h (Some b) = Some (Some y)" "h y = Some yn" "left_subtree yn = None"
       "parent yn = Some z'" "h z' = Some zn'" "right_subtree zn' = Some y" "z' \<noteq> y"
       "z' \<in> set_tree (Node l b r)"
       "rep (h(z' \<mapsto> zn'\<lparr>right_subtree := None\<rparr>)) (Some z) (Some b) (Node l b w')" "inorder r = inorder w' @ [y]"
      by blast
    have zu: "z' \<notin> set_tree u" "z' \<noteq> z"
      using y(8) dis by auto
    have "rep (h(z' \<mapsto> zn'\<lparr>right_subtree := None\<rparr>)) par (Some z) (Node u z (Node l b w'))"
      using zn y(9) zu by (simp del: rep.simps(2) add: rep.simps(2) [of _ par])
    then show ?thesis
      using y go dis
      by - (rule exI [of _ y], rule exI [of _ yn], rule exI [of _ z'], rule exI [of _ zn'],
          rule exI [of _ "Node l b w'"], auto simp del: rep.simps fun_upd_apply)
  qed
qed

definition erased :: "('k, 'v, 'e) bst \<Rightarrow> (('k, 'v, 'e) bst \<times> ptr) option \<Rightarrow> nat \<Rightarrow> ctx \<Rightarrow> nat list \<Rightarrow> bool" where
  "erased b res a c xs \<longleftrightarrow>
     (\<exists>h q t' rt'. res = Some (b\<lparr>heap := h, root := rt'\<rparr>, q) \<and> rep_ctx h (new_root c rt' q) c q \<and> rep h (ctx_parent c) q t' \<and>
        (c \<noteq> [] \<longrightarrow> rt' = root b) \<and>
        inorder t' = xs \<and> (\<exists>n. h a = Some n \<and> parent n = ctx_parent c))"

lemma erase_leaf_ok:
  assumes s: "sub_at (heap b) (root b) (k # c) (Some a) (Node Leaf a Leaf)" and n: "heap b a = Some nd" "parent nd = ctx_parent (k # c)"
  shows "erased b (erase_leaf b (Some a) nd) a (k # c) []"
proof -
  obtain par pn h' where h': "ctx_parent (k # c) = Some par" "heap b par = Some pn"
    "(if left_subtree pn = Some a then set_left (heap b) (Some par) nullptr else set_right (heap b) (Some par) nullptr) = Some h'"
    "rep_ctx h' (root b) (k # c) nullptr" "\<forall>x. x \<notin> set_ctx (k # c) \<longrightarrow> h' x = heap b x"
    using child_swap [OF s] by meson
  have "a \<notin> set_ctx (k # c)"
    using sub_at_disjoint [OF s] by auto
  then have "h' a = Some nd"
    using h'(5) n by simp
  moreover have "erase_leaf b (Some a) nd = Some (b\<lparr>heap := h', root := root b\<rparr>, nullptr)"
    using h'(1-3) n(2) by (auto simp: erase_leaf_def split: if_splits)
  ultimately show ?thesis
    unfolding erased_def using h'(4) n(2)
    by - (rule exI [of _ h'], rule exI [of _ nullptr], rule exI [of _ Leaf], rule exI [of _ "root b"], simp add: new_root_def)
qed

lemma erase_left_only_ok:
  assumes s: "sub_at (heap b) (root b) (k # c) (Some a) (Node l a Leaf)" and l: "l \<noteq> Leaf"
    and n: "heap b a = Some nd" "parent nd = ctx_parent (k # c)"
  shows "erased b (erase_left_only b (Some a) nd) a (k # c) (inorder l)"
proof -
  obtain par pn h' where h': "ctx_parent (k # c) = Some par" "heap b par = Some pn"
    "(if left_subtree pn = Some a then set_left (heap b) (Some par) (left_subtree nd) else set_right (heap b) (Some par) (left_subtree nd)) = Some h'"
    "rep_ctx h' (root b) (k # c) (left_subtree nd)" "\<forall>x. x \<notin> set_ctx (k # c) \<longrightarrow> h' x = heap b x"
    using child_swap [OF s] by meson
  note dis = sub_at_disjoint [OF s]
  have r: "rep (heap b) (Some a) (left_subtree nd) l"
    using s n by (auto simp: sub_at_def)
  have r': "rep h' (Some a) (left_subtree nd) l"
    using r h'(5) dis by (subst rep_cong [of _ h' "heap b"]) (auto simp: disjoint_iff)
  obtain y where y: "left_subtree nd = Some y" "y \<in> set_tree l"
    using r l by (cases l) auto
  have "h' a = Some nd" "y \<noteq> a" "y \<notin> set_ctx (k # c)"
    using h'(5) n dis y by auto
  moreover have "set_parent h' (Some y) (Some par) = Some (repar h' (Some y) (Some par))"
    using rep_alloc [OF r' y(2)] by (auto simp: repar_def ptr_defs)
  moreover have "rep (repar h' (Some y) (Some par)) (Some par) (Some y) l"
    using r' y dis by (intro rep_repar_same) auto
  ultimately show ?thesis
    unfolding erased_def using h' n y
    by - (rule exI [of _ "repar h' (Some y) (Some par)"], rule exI [of _ "Some y"], rule exI [of _ l], rule exI [of _ "root b"],
         simp add: new_root_def erase_left_only_def Let_def image_iff split: if_splits)
qed

lemma erase_right_only_ok:
  assumes s: "sub_at (heap b) (root b) c (Some a) (Node Leaf a r)" and l: "r \<noteq> Leaf"
    and n: "heap b a = Some nd" "parent nd = ctx_parent c"
  shows "erased b (erase_right_only b (Some a) nd) a c (inorder r)"
proof -
  note dis = sub_at_disjoint [OF s]
  have r: "rep (heap b) (Some a) (right_subtree nd) r"
    using s n by (auto simp: sub_at_def)
  obtain y where y: "right_subtree nd = Some y" "y \<in> set_tree r"
    using r l by (cases r) auto
  have y': "y \<noteq> a" "y \<notin> set_ctx c" "a \<notin> set_ctx c"
    using dis y by auto
  have step: "set_parent h' (Some y) par = Some (repar h' (Some y) par)"
      "rep (repar h' (Some y) par) par (Some y) r"
    if "\<forall>x. x \<notin> set_ctx c \<longrightarrow> h' x = heap b x" for h' :: "('a, 'b, 'c) heap" and par
  proof -
    have r': "rep h' (Some a) (right_subtree nd) r"
      using r that dis by (subst rep_cong [of _ h' "heap b"]) (auto simp: disjoint_iff)
    show "set_parent h' (Some y) par = Some (repar h' (Some y) par)"
      using rep_alloc [OF r' y(2)] by (auto simp: repar_def ptr_defs)
    show "rep (repar h' (Some y) par) par (Some y) r"
      using r' y dis by (intro rep_repar_same) auto
  qed
  show ?thesis
  proof (cases c)
    case Nil
    then show ?thesis
      unfolding erased_def using n y y' step [of "heap b" nullptr]
      by - (rule exI [of _ "repar (heap b) (Some y) nullptr"], rule exI [of _ "Some y"], rule exI [of _ r],
          rule exI [of _ "Some y"], simp add: new_root_def erase_right_only_def Let_def)
  next
    case (Cons k c')
    obtain par pn h' where h': "ctx_parent c = Some par" "heap b par = Some pn"
      "(if left_subtree pn = Some a then set_left (heap b) (Some par) (right_subtree nd)
        else set_right (heap b) (Some par) (right_subtree nd)) = Some h'"
      "rep_ctx h' (root b) c (right_subtree nd)" "\<forall>x. x \<notin> set_ctx c \<longrightarrow> h' x = heap b x"
      using child_swap [OF s [unfolded Cons]] Cons by metis
    have "h' a = Some nd"
      using h'(5) y' n by simp
    then show ?thesis
      unfolding erased_def using h' n y y' step [OF h'(5), of "Some par"] Cons
      by - (rule exI [of _ "repar h' (Some y) (Some par)"], rule exI [of _ "Some y"], rule exI [of _ r],
          rule exI [of _ "root b"], simp add: new_root_def erase_right_only_def Let_def image_iff split: if_splits)
  qed
qed

text \<open>Redirecting the parent of \<open>a\<close> the way the two-child case does it.\<close>

lemma parent_to_new:
  assumes s: "sub_at (heap b) (root b) c (Some a) t" and n: "parent nd = ctx_parent c"
  shows "\<exists>h'. (if parent nd \<noteq> nullptr then do {
              pn \<leftarrow> deref (heap b) (parent nd);
              (if right_subtree pn = Some a then set_right (heap b) (parent nd) q
               else set_left (heap b) (parent nd) q)
            } else Some (heap b)) = Some h' \<and> rep_ctx h' (new_root c (root b) q) c q \<and>
     (\<forall>x. x \<notin> set_ctx c \<longrightarrow> h' x = heap b x)"
proof (cases c)
  case Nil
  then show ?thesis using n by (simp add: new_root_def)
next
  case (Cons k c')
  from child_swap [OF s [unfolded Cons], of q] obtain par pn h' where
    "ctx_parent (k # c') = Some par" "heap b par = Some pn"
    "(if right_subtree pn = Some a then set_right (heap b) (Some par) q else set_left (heap b) (Some par) q) = Some h'"
    "rep_ctx h' (root b) (k # c') q" "\<forall>x. x \<notin> set_ctx (k # c') \<longrightarrow> h' x = heap b x"
    by metis
  then show ?thesis
    using Cons n by (cases "right_subtree pn = Some a") (simp_all add: new_root_def)
qed

lemma erase_two_ok:
  assumes s: "sub_at (heap b) (root b) c (Some a) (Node l a r)" and l: "deep_pred l" and r0: "r \<noteq> Leaf"
    and n: "heap b a = Some nd" "parent nd = ctx_parent c"
  shows "erased b (erase_two b (Some a) nd) a c (inorder l @ inorder r)"
proof -
  note dis = sub_at_disjoint [OF s]
  obtain u z w where lz: "l = Node u z w" "last_childless w"
    using l by (cases l) auto
  have rl: "rep (heap b) (Some a) (left_subtree nd) l" and rr: "rep (heap b) (Some a) (right_subtree nd) r"
    using s n by (auto simp: sub_at_def)
  then have z: "left_subtree nd = Some z"
    using lz by simp
  obtain x where x: "right_subtree nd = Some x" "x \<in> set_tree r"
    using rr r0 by (cases r) auto
  have dl: "distinct (inorder (Node u z w))"
    using dis lz by auto
  obtain y yn z' zn w' where y: "go_right (heap b) (Some z) = Some (Some y)" "heap b y = Some yn"
      "left_subtree yn = None" "parent yn = Some z'" "heap b z' = Some zn" "right_subtree zn = Some y"
      "z' \<noteq> y" "z' \<in> set_tree l"
      "rep ((heap b)(z' \<mapsto> zn\<lparr>right_subtree := None\<rparr>)) (Some a) (Some z) (Node u z w')"
      "inorder w = inorder w' @ [y]"
    using pred_detach [OF rl [unfolded lz z] lz(2) dl] lz(1) by blast
  obtain h1 where h1: "(if parent nd \<noteq> nullptr then do {
              pn \<leftarrow> deref (heap b) (parent nd);
              (if right_subtree pn = Some a then set_right (heap b) (parent nd) (Some y)
               else set_left (heap b) (parent nd) (Some y))
            } else Some (heap b)) = Some h1" "rep_ctx h1 (new_root c (root b) (Some y)) c (Some y)"
      and eq: "\<forall>x. x \<notin> set_ctx c \<longrightarrow> h1 x = heap b x"
    using parent_to_new [OF s n(2), of "Some y"] by blast
  have yl: "y \<in> set_tree l" and wl: "set_tree (Node u z w') = set_tree l - {y}"
    using y(10) dl lz(1) set_inorder [of w] set_inorder [of w'] by auto
  have D: "a \<notin> set_tree l" "a \<notin> set_tree r" "a \<notin> set_ctx c" "set_tree l \<inter> set_tree r = {}"
      "set_tree l \<inter> set_ctx c = {}" "set_tree r \<inter> set_ctx c = {}"
    using dis by auto
  have zl: "z \<in> set_tree l" "y \<noteq> z"
    using lz(1) dl y(10) set_inorder [of w] by auto
  have fr: "a \<notin> set_ctx c" "y \<notin> set_ctx c" "z' \<notin> set_ctx c" "z \<notin> set_ctx c" "x \<notin> set_ctx c"
      "a \<noteq> y" "a \<noteq> z'" "y \<noteq> z" "x \<noteq> a" "x \<noteq> y" "x \<noteq> z'" "x \<noteq> z" "y \<notin> set_tree r" "z' \<notin> set_tree r"
      "z \<notin> set_tree r" "x \<notin> set_tree l" "a \<notin> set_tree r" "a \<notin> set_tree l" "z \<noteq> a"
    using D yl zl x(2) y(8) by blast+
  have at: "h1 a = Some nd" "h1 y = Some yn" "h1 z' = Some zn"
    using eq fr n y by auto
  define h2 where "h2 = h1(z' \<mapsto> zn\<lparr>right_subtree := None\<rparr>)"
  have l2: "rep h2 (Some a) (Some z) (Node u z w')"
    using y(9) eq dis wl fr unfolding h2_def
    by (subst rep_cong [of _ _ "(heap b)(z' \<mapsto> zn\<lparr>right_subtree := None\<rparr>)"]) (auto simp: lz(1))
  have r2: "rep h2 (Some a) (Some x) r"
    using rr eq dis fr x(1) unfolding h2_def by (subst rep_cong [of _ _ "heap b"]) auto
  define h3 where "h3 = h2(y \<mapsto> yn\<lparr>left_subtree := Some z, right_subtree := Some x, parent := parent nd\<rparr>)"
  define h4 where "h4 = repar (repar h3 (Some z) (Some y)) (Some x) (Some y)"
  have yw: "y \<notin> set_tree (Node u z w')"
    using wl by simp
  have l3: "rep h3 (Some a) (Some z) (Node u z w')" and r3: "rep h3 (Some a) (Some x) r"
    using l2 r2 yw fr unfolding h3_def by (simp_all del: rep.simps)
  have dw: "distinct (inorder (Node u z w'))" and dr: "distinct (inorder r)"
    using dl y(10) dis by simp_all
  have xz: "Some x \<notin> Some ` set_tree (Node u z w')" "Some z \<notin> Some ` set_tree r"
    unfolding wl using fr by blast+
  have "rep h4 (Some y) (Some z) (Node u z w')"
    unfolding h4_def rep_repar_other [OF xz(1)] by (rule rep_repar_same [OF l3 dw])
  moreover have "rep (repar h3 (Some z) (Some y)) (Some a) (Some x) r"
    unfolding rep_repar_other [OF xz(2)] by (rule r3)
  then have "rep h4 (Some y) (Some x) r"
    unfolding h4_def using dr by (rule rep_repar_same)
  moreover have "h4 y = Some (yn\<lparr>left_subtree := Some z, right_subtree := Some x, parent := parent nd\<rparr>)"
    using fr by (simp add: h4_def h3_def)
  ultimately have rep4: "rep h4 (ctx_parent c) (Some y) (Node (Node u z w') y r)"
    using n(2) by (simp del: rep.simps add: rep.simps(2) [of _ _ _ _ y])
  have c4: "rep_ctx h4 (new_root c (root b) (Some y)) c (Some y)"
    using h1(2) fr by (simp add: h4_def h3_def h2_def image_iff)
  have a4: "h4 a = Some nd"
    using at fr by (simp add: h4_def h3_def h2_def)
  have v: "valid_ptr h3 (Some z)" "valid_ptr (repar h3 (Some z) (Some y)) (Some x)"
    by (rule rep_valid [OF l3], rule valid_repar [OF rep_valid [OF r3]])
  have y2: "h2 y = Some yn" and a2: "h2 a = Some nd"
    using at fr y(7) by (simp_all add: h2_def)
  have "parent yn \<noteq> Some a" "set_right h1 (Some z') None = Some h2"
    using y(4) fr at(3) by (auto simp: h2_def)
  moreover have "set_left h2 (Some y) (Some z) = Some (h2(y \<mapsto> yn\<lparr>left_subtree := Some z\<rparr>))"
    using y2 by simp
  moreover have "set_right (h2(y \<mapsto> yn\<lparr>left_subtree := Some z\<rparr>)) (Some y) (Some x) =
      Some (h2(y \<mapsto> yn\<lparr>left_subtree := Some z, right_subtree := Some x\<rparr>))"
    by simp
  moreover have "set_parent (h2(y \<mapsto> yn\<lparr>left_subtree := Some z, right_subtree := Some x\<rparr>)) (Some y) (parent nd) =
      Some h3"
    by (simp add: h3_def)
  moreover have "h3 y = Some (yn\<lparr>left_subtree := Some z, right_subtree := Some x, parent := parent nd\<rparr>)"
    by (simp add: h3_def)
  ultimately have "erase_two b (Some a) nd = Some (b\<lparr>heap := h4\<rparr>, Some y)"
    using h1(1) y(1,3,4,6) y2 a2 at z x(1) v
    by (simp add: erase_two_def h4_def)
  moreover have "inorder (Node (Node u z w') y r) = inorder l @ inorder r"
    using lz(1) y(10) by simp
  ultimately show ?thesis
    unfolding erased_def using rep4 c4 a4 n(2)
    by - (rule exI [of _ h4], rule exI [of _ "Some y"], rule exI [of _ "Node (Node u z w') y r"],
       rule exI [of _ "root b"], cases c, auto simp del: rep.simps rep_ctx.simps simp: new_root_def)
qed

lemma erase_bst_ok:
  assumes b: "bst_rep b (plug c (Node l a r))" and ok: "erasable c l r"
  shows "\<exists>b' q t'. erase_bst b (Some a) = Some (Inr (b', q)) \<and> bst_rep b' t' \<and>
     inorder t' = before c @ inorder l @ inorder r @ after c \<and> heap b' a = None \<and>
     tree_size b' = tree_size b - 1"
proof -
  have s: "sub_at (heap b) (root b) c (Some a) (Node l a r)"
    using b by (rule sub_at_plug)
  then obtain nd where n: "heap b a = Some nd" "parent nd = ctx_parent c"
    by (auto elim: sub_at_node)
  note null = sub_at_child_null [OF s n(1)]
  define res where "res =
     (if left_subtree nd = nullptr \<and> right_subtree nd = nullptr then erase_leaf b (Some a) nd
      else if left_subtree nd \<noteq> nullptr \<and> right_subtree nd = nullptr then erase_left_only b (Some a) nd
      else if left_subtree nd = nullptr \<and> right_subtree nd \<noteq> nullptr then erase_right_only b (Some a) nd
      else erase_two b (Some a) nd)"
  have "erased b res a c (inorder l @ inorder r)"
  proof (cases "r = Leaf")
    case True
    then obtain k c' where c: "c = k # c'"
      using ok by (cases c) (auto simp: erasable_def)
    show ?thesis
      using erase_leaf_ok [of b k c' a nd] erase_left_only_ok [of b k c' a l nd] True null s n c
      by (cases "l = Leaf") (auto simp: res_def)
  next
    case False
    then have "l = Leaf \<or> deep_pred l"
      using ok by (simp add: erasable_def)
    then show ?thesis
      using erase_right_only_ok [of b c a r nd] erase_two_ok [of b c a l r nd] False null s n
      by (auto simp: res_def)
  qed
  then obtain h q t' rt' nd' where
    e: "res = Some (b\<lparr>heap := h, root := rt'\<rparr>, q)" "rep_ctx h (new_root c rt' q) c q"
      "rep h (ctx_parent c) q t'" "c \<noteq> [] \<longrightarrow> rt' = root b" "inorder t' = inorder l @ inorder r"
      "h a = Some nd'" "parent nd' = ctx_parent c"
    unfolding erased_def by blast
  define b' where "b' = b\<lparr>heap := h(a := None), root := new_root c (root b) q, tree_size := tree_size b - 1\<rparr>"
  have eb: "erase_bst b (Some a) = (do {
        (b, new_node) \<leftarrow> res;
        nd' \<leftarrow> deref (heap b) (Some a);
        let b = (if parent nd' = nullptr then b\<lparr>root := new_node\<rparr> else b);
        b \<leftarrow> delete_node (b\<lparr>tree_size := tree_size b - 1\<rparr>) (Some a);
        Some (Inr (b, new_node)) })"
    unfolding erase_bst_def res_def using n(1) by simp
  have cn: "ctx_parent c = None \<longleftrightarrow> c = []"
    by (cases c rule: ctx_parent.cases) auto
  have run: "erase_bst b (Some a) = Some (Inr (b', q))"
    unfolding eb e(1) using e(4,6,7) cn
    by (cases "c = []") (auto simp: delete_node_def b'_def new_root_def Let_def)
  have dis: "distinct (inorder (plug c (Node l a r)))"
    using b by (simp add: bst_rep_def)
  have st: "set_tree t' = set_tree l \<union> set_tree r"
    using e(5) by (metis set_append set_inorder)
  have "a \<notin> set_ctx c" "a \<notin> set_tree t'"
    using sub_at_disjoint [OF s] st by auto
  moreover have "new_root c rt' q = new_root c (root b) q"
    using e(4) by (simp add: new_root_def)
  moreover have "distinct (inorder (plug c t'))"
    using dis by (auto simp: inorder_plug e(5))
  ultimately have "bst_rep b' (plug c t')"
    using e(2,3) by (auto simp: bst_rep_def b'_def rep_plug)
  then show ?thesis
    using run e(5)
    by - (rule exI [of _ b'], rule exI [of _ q], rule exI [of _ "plug c t'"], simp add: inorder_plug b'_def)
qed

subsection \<open>Properties\<close>

text \<open>C6: erase, applied to a node of one of the shapes of \<open>erasable\<close> (a leaf or a node with only a left
  subtree below the root; a node with only a right subtree anywhere; a node with two subtrees whose
  inorder predecessor is a leaf below the left child), returns a well formed tree whose listing is
  the old one without the node, frees exactly that address and counts one entry less.\<close>

theorem erase_removes_node:
  assumes "bst_rep b (plug c (Node l a r))" and "erasable c l r"
  shows "\<exists>b' q t'. erase_bst b (Some a) = Some (Inr (b', q)) \<and> bst_rep b' t' \<and>
     inorder t' = before c @ inorder l @ inorder r @ after c \<and> heap b' a = None \<and>
     tree_size b' = tree_size b - 1"
  using assms by (rule erase_bst_ok)

theorem erase_removes_node_witness:
  "\<exists>b' q t'. erase_bst sample_bst (Some 0) = Some (Inr (b', q)) \<and> bst_rep b' t' \<and>
     inorder t' = [1, 3, 2] \<and> heap b' 0 = None \<and> tree_size b' = tree_size sample_bst - 1"
  using erase_removes_node [of sample_bst "[]" "Node Leaf 1 (Node Leaf 3 Leaf)" 0 "Node Leaf 2 Leaf"] sample_rep
  by (simp add: sample_tree_def erasable_def)

text \<open>C25: the destructor frees every node of the tree, each exactly once, and touches no other address.\<close>

theorem destructor_frees_all:
  assumes "bst_rep b t"
  shows "destruct b = Some (b\<lparr>heap := (\<lambda>x. if x \<in> set_tree t then None else heap b x)\<rparr>)"
  using assms by (rule destruct_frees)

theorem destructor_frees_all_witness:
  "destruct sample_bst =
     Some (sample_bst\<lparr>heap := (\<lambda>x. if x \<in> {0, 1, 2, 3} then None else heap sample_bst x)\<rparr>)"
proof -
  have "set_tree sample_tree = {0, 1, 2, 3}"
    by (auto simp: sample_tree_def)
  then show ?thesis
    using destructor_frees_all [OF sample_rep] by simp
qed

text \<open>erasing the only node of a tree, or the root of a tree without right subtree, dereferences the null
  parent of the root: the call has no defined result.\<close>

theorem erase_root_undefined:
  assumes "bst_rep b (Node l a Leaf)"
  shows "erase_bst b (Some a) = None"
proof -
  have s: "sub_at (heap b) (root b) [] (Some a) (Node l a Leaf)"
    using assms sub_at_plug [of b "[]" l a Leaf] by simp
  then obtain nd where "heap b a = Some nd" "parent nd = None" "right_subtree nd = None"
    by (auto elim: sub_at_node)
  then show ?thesis
    by (auto simp: erase_bst_def erase_leaf_def erase_left_only_def deref_def Let_def)
qed

theorem erase_root_undefined_witness:
  "erase_bst \<lparr>heap = [7 \<mapsto> node_ctor None (1::int) (2::int) ()], root = Some 7, tree_size = 0\<rparr> (Some 7) = None"
  by (rule erase_root_undefined [where l = Leaf]) (simp add: bst_rep_def node_ctor_def)

end
