(* ===== verification/BstRequests.thy ===== *)
theory BstRequests
  imports BstIter
begin

text \<open>
  The begin/end requests of binary_search_tree.h beyond the mutable ones of BstIter: begin(), end(),
  rbegin(), rend() in their mutable, const and c-prefixed forms, and the const overloads of the
  prefix, inorder and postfix families with their own copies of the descents. A member function is
  one line of a function on the kind of access and the position asked for. The const qualified
  post-decrement of the const iterator classes does not compile, so the const reverse requests that
  use it have the value None.
\<close>

datatype access = Mutable | Const | CPrefixed

datatype request = Begin | End | RBegin | REnd

subsection \<open>The const overloads\<close>

definition begin_infix_const :: "('k, 'v, 'e) bst \<Rightarrow> iter option" where
  "begin_infix_const b =
     (if root b = nullptr then Some (mk_iter nullptr)
      else do { current \<leftarrow> go_left (heap b) (root b); Some (mk_iter current) })"

definition end_infix_const :: "('k, 'v, 'e) bst \<Rightarrow> iter option" where
  "end_infix_const b =
     (if root b = nullptr then Some (mk_iter nullptr)
      else do { current \<leftarrow> go_right (heap b) (root b);
                Some ((mk_iter nullptr)\<lparr>it_backup := current\<rparr>) })"

fun infix_const_request :: "('k, 'v, 'e) bst \<Rightarrow> request \<Rightarrow> iter option" where
  "infix_const_request b Begin = begin_infix_const b"
| "infix_const_request b End = end_infix_const b"
| "infix_const_request b RBegin =
     do { it \<leftarrow> end_infix_const b; after_call (infix_const_iterator (heap b) it PostDec) }"
| "infix_const_request b REnd =
     do { it \<leftarrow> begin_infix_const b; after_call (infix_const_iterator (heap b) it PostDec) }"

definition begin_prefix_const :: "('k, 'v, 'e) bst \<Rightarrow> iter option" where
  "begin_prefix_const b = Some (mk_iter (root b))"

definition end_prefix_const :: "('k, 'v, 'e) bst \<Rightarrow> iter option" where
  "end_prefix_const b = do {
     tmp \<leftarrow> last_prefix (heap b) (root b);
     Some ((mk_iter nullptr)\<lparr>it_backup := tmp\<rparr>)
   }"

fun prefix_const_request :: "('k, 'v, 'e) bst \<Rightarrow> request \<Rightarrow> iter option" where
  "prefix_const_request b Begin = begin_prefix_const b"
| "prefix_const_request b End = end_prefix_const b"
| "prefix_const_request b RBegin =
     do { it \<leftarrow> end_prefix_const b; after_call (prefix_const_iterator (heap b) it PostDec) }"
| "prefix_const_request b REnd =
     do { it \<leftarrow> begin_prefix_const b; after_call (prefix_const_iterator (heap b) it PostDec) }"

definition begin_postfix_const :: "('k, 'v, 'e) bst \<Rightarrow> iter option" where
  "begin_postfix_const b = do {
     tmp \<leftarrow> go_left (heap b) (root b);
     tmp \<leftarrow> go_right (heap b) tmp;
     Some (mk_iter tmp)
   }"

definition end_postfix_const :: "('k, 'v, 'e) bst \<Rightarrow> iter option" where
  "end_postfix_const b = Some ((mk_iter nullptr)\<lparr>it_backup := root b\<rparr>)"

fun postfix_const_request :: "('k, 'v, 'e) bst \<Rightarrow> request \<Rightarrow> iter option" where
  "postfix_const_request b Begin = begin_postfix_const b"
| "postfix_const_request b End = end_postfix_const b"
| "postfix_const_request b RBegin =
     do { it \<leftarrow> end_postfix_const b; after_call (postfix_const_iterator (heap b) it PostDec) }"
| "postfix_const_request b REnd =
     do { it \<leftarrow> begin_postfix_const b; after_call (postfix_const_iterator (heap b) it PostDec) }"

subsection \<open>The c-prefixed forms\<close>

definition cbegin_cend_infix :: "('k, 'v, 'e) bst \<Rightarrow> request \<Rightarrow> iter option" where
  "cbegin_cend_infix b r = infix_const_request b r"

definition cbegin_cend_prefix :: "('k, 'v, 'e) bst \<Rightarrow> request \<Rightarrow> iter option" where
  "cbegin_cend_prefix b r = prefix_const_request b r"

text \<open>crend_postfix() has no return statement.\<close>

definition cbegin_cend_postfix :: "('k, 'v, 'e) bst \<Rightarrow> request \<Rightarrow> iter option" where
  "cbegin_cend_postfix b r = (if r = REnd then None else postfix_const_request b r)"

subsection \<open>begin, end, rbegin, rend\<close>

text \<open>\<open>std::prev\<close> decrements a copy with the prefix operator; the others decrement a local variable
  with the postfix operator.\<close>

fun plain_request :: "('k, 'v, 'e) bst \<Rightarrow> access \<Rightarrow> request \<Rightarrow> iter option" where
  "plain_request b Mutable Begin = begin_infix b"
| "plain_request b Mutable End = end_infix b"
| "plain_request b Mutable RBegin =
     do { a \<leftarrow> end_infix b; after_call (infix_iterator (heap b) a PostDec) }"
| "plain_request b Mutable REnd =
     do { a \<leftarrow> begin_infix b; after_call (infix_iterator (heap b) a PreDec) }"
| "plain_request b Const Begin = begin_infix_const b"
| "plain_request b Const End = end_infix_const b"
| "plain_request b Const RBegin =
     do { a \<leftarrow> end_infix_const b; after_call (infix_const_iterator (heap b) a PreDec) }"
| "plain_request b Const REnd =
     do { a \<leftarrow> begin_infix_const b; after_call (infix_const_iterator (heap b) a PostDec) }"
| "plain_request b CPrefixed Begin = begin_infix_const b"
| "plain_request b CPrefixed End = end_infix_const b"
| "plain_request b CPrefixed RBegin =
     do { a \<leftarrow> end_infix_const b; after_call (infix_const_iterator (heap b) a PreDec) }"
| "plain_request b CPrefixed REnd =
     do { a \<leftarrow> begin_infix_const b; after_call (infix_const_iterator (heap b) a PostDec) }"

subsection \<open>Traversals from these positions\<close>

text \<open>A class that answers the comparison and the step like another one traverses like it.\<close>

lemma traverse_same_class:
  assumes "\<And>it s. cls' it (Neq s) = cls it (Neq s)"
    and "\<And>it. map_option fst (cls' it PreInc) = map_option fst (cls it PreInc)"
    and "traverse cls it stop = Some xs"
  shows "traverse cls' it stop = Some xs"
  using assms(3)
proof (induction xs arbitrary: it)
  case Nil
  then show ?case
    by (subst (asm) traverse.simps, subst traverse.simps)
      (auto simp: assms(1) bind_eq_Some_conv split: if_splits)
next
  case (Cons x xs)
  then obtain it1 it2 a where s: "cls it (Neq stop) = Some (it1, Truth True)"
      "cls it1 PreInc = Some (it2, a)" "traverse cls it2 stop = Some xs" "x = it_data it1"
    by (subst (asm) traverse.simps) (auto simp: bind_eq_Some_conv split: if_splits)
  obtain a' where "cls' it1 PreInc = Some (it2, a')"
    using assms(2) [of it1] s(2) by auto
  then show ?case
    using s Cons.IH [OF s(3)] by (subst traverse.simps) (simp add: assms(1))
qed

lemma prefix_const_same:
  "prefix_const_iterator h it (Neq s) = prefix_iterator h it (Neq s)"
  "map_option fst (prefix_const_iterator h it PreInc) = map_option fst (prefix_iterator h it PreInc)"
  by (simp_all add: negate_def pre_step_def split: option.splits)

lemma post_pre_dec:
  "after_call (infix_iterator h it PostDec) = after_call (infix_iterator h it PreDec)"
  by (cases "it_data it = nullptr") (auto simp: after_call_def Let_def split: option.splits bind_splits)

text \<open>the const loop from cbegin_prefix() to cend_prefix() visits every node once in preorder, for
  every tree of at least two nodes.\<close>

theorem const_prefix_traversal:
  assumes "bst_rep b t" and "2 \<le> length (preorder t)"
  shows "do { it \<leftarrow> cbegin_cend_prefix b Begin; e \<leftarrow> cbegin_cend_prefix b End;
              traverse (prefix_const_iterator (heap b)) it e } = Some (map Some (preorder t))"
proof -
  have "do { it \<leftarrow> begin_prefix b; e \<leftarrow> end_prefix b; traverse (prefix_iterator (heap b)) it e } =
          Some (map Some (preorder t))"
    using assms by (intro preorder.traverse_all) (auto simp: prefix_lists_def)
  then obtain it e where "begin_prefix b = Some it" "end_prefix b = Some e"
      "traverse (prefix_iterator (heap b)) it e = Some (map Some (preorder t))"
    by (auto simp: bind_eq_Some_conv)
  moreover from this(3) have "traverse (prefix_const_iterator (heap b)) it e = Some (map Some (preorder t))"
    by (rule traverse_same_class [rotated 2]) (rule prefix_const_same)+
  ultimately show ?thesis
    by (simp add: cbegin_cend_prefix_def begin_prefix_const_def end_prefix_const_def
        begin_prefix_def end_prefix_def)
qed

theorem const_prefix_traversal_witness:
  "do { it \<leftarrow> cbegin_cend_prefix sample_bst Begin; e \<leftarrow> cbegin_cend_prefix sample_bst End;
        traverse (prefix_const_iterator (heap sample_bst)) it e } = Some [Some 0, Some 1, Some 3, Some 2]"
  using const_prefix_traversal [OF sample_rep] by (simp add: sample_tree_def)

text \<open>the loop of the mutable container from begin() to end() visits every node once in inorder, and
  the loop from rbegin() to rend() visits them in the opposite order.\<close>

theorem begin_end_traversals:
  assumes "bst_rep b t"
  shows "do { it \<leftarrow> plain_request b Mutable Begin; e \<leftarrow> plain_request b Mutable End;
              traverse (infix_iterator (heap b)) it e } = Some (map Some (inorder t)) \<and>
         do { it \<leftarrow> plain_request b Mutable RBegin; e \<leftarrow> plain_request b Mutable REnd;
              traverse (infix_reverse_iterator (heap b)) it e } = Some (map Some (rev (inorder t)))"
proof
  have l: "infix_lists b (inorder t)"
    using assms by (auto simp: infix_lists_def)
  show "do { it \<leftarrow> plain_request b Mutable Begin; e \<leftarrow> plain_request b Mutable End;
              traverse (infix_iterator (heap b)) it e } = Some (map Some (inorder t))"
    using forward.traverse_all [OF l] by simp
  have "plain_request b Mutable RBegin = rbegin_infix b" "plain_request b Mutable REnd = rend_infix b"
    by (simp_all only: plain_request.simps rbegin_infix_def rend_infix_def post_pre_dec)
  then show "do { it \<leftarrow> plain_request b Mutable RBegin; e \<leftarrow> plain_request b Mutable REnd;
              traverse (infix_reverse_iterator (heap b)) it e } = Some (map Some (rev (inorder t)))"
    using assms by (simp only:) (intro backward.traverse_all, auto simp: infix_lists_def)
qed

theorem begin_end_traversals_witness:
  "do { it \<leftarrow> plain_request sample_bst Mutable RBegin; e \<leftarrow> plain_request sample_bst Mutable REnd;
        traverse (infix_reverse_iterator (heap sample_bst)) it e } =
     Some [Some 2, Some 0, Some 3, Some 1]"
  using begin_end_traversals [OF sample_rep] by (simp add: sample_tree_def del: plain_request.simps)

end
