(* ===== verification/SplayTree.thy ===== *)
theory SplayTree
  imports BstInsert
begin

text \<open>
  The splay tree (binary_search_tree/splay_tree/include/splay_tree.h): splay, merge and split, and the
  hooks the tag SPL_TAG supplies. The loop of splay is shown to end with its node at the top of a tree
  with the same inorder listing, so the hook keeps the insertion contract of \<open>BstInsert\<close> and the
  insertion theorems hold for the splay tree as well.
\<close>

subsection \<open>The operations\<close>

partial_function (option) splay_loop ::
  "('k, 'v, 'e) bst \<Rightarrow> ptr \<Rightarrow> ('k, 'v, 'e) bst option" where
  "splay_loop b x = do {
     xn \<leftarrow> deref (heap b) x;
     (if parent xn = nullptr then Some b
      else do {
        let p = parent xn;
        pn \<leftarrow> deref (heap b) p;
        let g = parent pn;
        (if g = nullptr then do {
           (h, p) \<leftarrow> (if x = left_subtree pn then small_right_rotation (heap b) p
                     else small_left_rotation (heap b) p);
           pn \<leftarrow> deref h p;
           splay_loop (b\<lparr>heap := h, root := (if parent pn = nullptr then p else root b)\<rparr>) x
         } else do {
           gn \<leftarrow> deref (heap b) g;
           let x_is_left = (x = left_subtree pn);
           let p_is_left = (p = left_subtree gn);
           (h, g) \<leftarrow>
             (if x_is_left = p_is_left then
                (if x_is_left then double_right_rotation (heap b) g else double_left_rotation (heap b) g)
              else if \<not> x_is_left \<and> p_is_left then big_right_rotation (heap b) g
              else big_left_rotation (heap b) g);
           splay_loop (b\<lparr>heap := h\<rparr>) x
         })
      })
   }"

definition splay :: "('k, 'v, 'e) bst \<Rightarrow> ptr \<Rightarrow> ('k, 'v, 'e) bst option" where
  "splay b x = (if x = nullptr then Some b else splay_loop b x)"

text \<open>The variable \<open>prev\<close> of the code always equals \<open>mx\<close>.\<close>

definition merge :: "('k, 'v, 'e) bst \<Rightarrow> ptr \<Rightarrow> ptr \<Rightarrow> (('k, 'v, 'e) bst \<times> ptr) option" where
  "merge b t1 t2 =
     (if t1 = nullptr then Some (b, t2)
      else if t2 = nullptr then Some (b, t1)
      else do {
        h \<leftarrow> set_parent (heap b) t1 nullptr;
        h \<leftarrow> set_parent h t2 nullptr;
        mx \<leftarrow> go_right h t1;
        b \<leftarrow> splay (b\<lparr>heap := h\<rparr>) mx;
        h \<leftarrow> set_right (heap b) mx t2;
        h \<leftarrow> set_parent h t2 mx;
        Some (b\<lparr>heap := h\<rparr>, t1)
      })"

definition split_tree ::
  "('k \<Rightarrow> 'k \<Rightarrow> bool) \<Rightarrow> ('k, 'v, 'e) bst \<Rightarrow> 'k \<Rightarrow> (('k, 'v, 'e) bst \<times> ptr \<times> ptr) option" where
  "split_tree cmp b key = do {
     it \<leftarrow> lower_bound cmp b key;
     b \<leftarrow> splay b (it_data it);
     rn \<leftarrow> deref (heap b) (root b);
     let left_child = left_subtree rn;
     h \<leftarrow> set_left (heap b) (root b) nullptr;
     h \<leftarrow> set_parent h left_child nullptr;
     Some (b\<lparr>heap := h\<rparr>, root b, left_child)
   }"

definition post_insert_spl :: "('k, 'v, 'e) hook" where
  "post_insert_spl b n = do { b \<leftarrow> splay b n; Some (b\<lparr>root := n\<rparr>, n) }"

definition erase_spl :: "('k, 'v, 'e) bst \<Rightarrow> ptr \<Rightarrow> (('k, 'v, 'e) bst \<times> ptr) option" where
  "erase_spl b n = do {
     b \<leftarrow> splay b n;
     nd \<leftarrow> deref (heap b) n;
     (b, t) \<leftarrow> merge b (left_subtree nd) (right_subtree nd);
     Some (b\<lparr>root := t\<rparr>, n)
   }"

subsection \<open>The loop of splay\<close>

text \<open>One iteration with a parent but no grandparent, and one with both.\<close>

lemma splay_step_one:
  assumes s: "sub_at (heap b) rt [k] (Some x) (Node l x r)"
  shows "\<exists>h' b' l' r'. splay_loop b (Some x) = splay_loop b' (Some x) \<and> heap b' = h' \<and> tree_size b' = tree_size b \<and>
     sub_at h' (Some x) [] (Some x) (Node l' x r') \<and> data_at h' = data_at (heap b) \<and>
     inorder (Node l' x r') = inorder (plug [k] (Node l x r))"
proof -
  obtain n where n: "heap b x = Some n" "parent n = ctx_parent [k]"
    using s by (auto elim: sub_at_node)
  from s show ?thesis
  proof (cases rule: sub_at_crumb)
    case (l y u yn)
    have "performs (heap b) (small_right_rotation (heap b) (Some y)) rt [] (rotr (Node (Node l x r) y u))"
      using l(7) by (rule small_right_rotation_performs)
    from performs_node [OF this [unfolded rotr.simps]] obtain h' rt' where
      h': "small_right_rotation (heap b) (Some y) = Some (h', Some x)"
        "sub_at h' (Some x) [] (Some x) (Node l x (Node r y u))" "data_at h' = data_at (heap b)" by auto
    obtain n' where n': "h' x = Some n'" "parent n' = nullptr"
      using h'(2) by (auto elim: sub_at_node)
    have "splay_loop b (Some x) = splay_loop (b\<lparr>heap := h', root := Some x\<rparr>) (Some x)"
      using n l(1-4) h'(1) n' by (subst splay_loop.simps) simp
    then show ?thesis
      using h'(2,3) l(1)
      by (intro exI [of _ h'] exI [of _ "b\<lparr>heap := h', root := Some x\<rparr>"] exI [of _ "l"]
          exI [of _ "Node r y u"]) auto
  next
    case (r u y yn)
    have "performs (heap b) (small_left_rotation (heap b) (Some y)) rt [] (rotl (Node u y (Node l x r)))"
      using r(7) by (rule small_left_rotation_performs)
    from performs_node [OF this [unfolded rotl.simps]] obtain h' rt' where
      h': "small_left_rotation (heap b) (Some y) = Some (h', Some x)"
        "sub_at h' (Some x) [] (Some x) (Node (Node u y l) x r)" "data_at h' = data_at (heap b)" by auto
    obtain n' where n': "h' x = Some n'" "parent n' = nullptr"
      using h'(2) by (auto elim: sub_at_node)
    have "splay_loop b (Some x) = splay_loop (b\<lparr>heap := h', root := Some x\<rparr>) (Some x)"
      using n r(1-5) h'(1) n' by (subst splay_loop.simps) simp
    then show ?thesis
      using h'(2,3) r(1)
      by (intro exI [of _ h'] exI [of _ "b\<lparr>heap := h', root := Some x\<rparr>"]
          exI [of _ "Node u y l"] exI [of _ "r"]) auto
  qed
qed


text \<open>With a grandparent: \<open>k1\<close> leads to the parent, \<open>k2\<close> from there to the grandparent.\<close>

lemma splay_step_two:
  assumes s: "sub_at (heap b) rt (k1 # k2 # c) (Some x) (Node l x r)"
  shows "\<exists>b' rt' l' r'. splay_loop b (Some x) = splay_loop b' (Some x) \<and> tree_size b' = tree_size b \<and>
     sub_at (heap b') rt' c (Some x) (Node l' x r') \<and> data_at (heap b') = data_at (heap b) \<and>
     inorder (plug c (Node l' x r')) = inorder (plug (k1 # k2 # c) (Node l x r))"
proof -
  obtain n where n: "heap b x = Some n" "parent n = ctx_parent (k1 # k2 # c)"
    using s by (auto elim: sub_at_node)
  have fin: "\<exists>b' rt' l' r'. splay_loop b (Some x) = splay_loop b' (Some x) \<and> tree_size b' = tree_size b \<and>
       sub_at (heap b') rt' c (Some x) (Node l' x r') \<and> data_at (heap b') = data_at (heap b) \<and>
       inorder (plug c (Node l' x r')) = inorder (plug (k1 # k2 # c) (Node l x r))"
    if f1: "performs (heap b) res rt c (Node l' x r')"
      and f2: "\<And>h'. res = Some (h', Some x) \<Longrightarrow> splay_loop b (Some x) = splay_loop (b\<lparr>heap := h'\<rparr>) (Some x)"
      and f3: "inorder (plug c (Node l' x r')) = inorder (plug (k1 # k2 # c) (Node l x r))"
    for res l' r'
  proof -
    obtain h' rt' where "res = Some (h', Some x)" "sub_at h' rt' c (Some x) (Node l' x r')"
        "data_at h' = data_at (heap b)"
      using performs_node [OF f1] by blast
    then show ?thesis
      using f2 f3 by (intro exI [of _ "b\<lparr>heap := h'\<rparr>"]) auto
  qed
  from s show ?thesis
  proof (cases rule: sub_at_crumb)
    case p: (l y u yn)
    from p(7) show ?thesis
    proof (cases rule: sub_at_crumb)
      case g: (l z w zn)
      show ?thesis
        by (rule fin [OF double_right_rotation_performs [OF g(7), unfolded doubler.simps]])
          (use n p(1-5) g(1-5) in \<open>simp_all add: splay_loop.simps [of b "Some x"] inorder_plug\<close>)
    next
      case g: (r w z zn)
      show ?thesis
        by (rule fin [OF big_left_rotation_performs [OF g(7), unfolded bigl.simps rotr.simps rotl.simps]])
          (use n p(1-5) g(1-6) in \<open>simp_all add: splay_loop.simps [of b "Some x"] inorder_plug\<close>)
    qed
  next
    case p: (r u y yn)
    from p(7) show ?thesis
    proof (cases rule: sub_at_crumb)
      case g: (l z w zn)
      show ?thesis
        by (rule fin [OF big_right_rotation_performs [OF g(7), unfolded bigr.simps rotr.simps rotl.simps]])
          (use n p(1-5) g(1-5) in \<open>simp_all add: splay_loop.simps [of b "Some x"] inorder_plug\<close>)
    next
      case g: (r w z zn)
      show ?thesis
        by (rule fin [OF double_left_rotation_performs [OF g(7), unfolded doublel.simps]])
          (use n p(1-5) g(1-6) in \<open>simp_all add: splay_loop.simps [of b "Some x"] inorder_plug\<close>)
    qed
  qed
qed

lemma splay_loop_to_top:
  "sub_at (heap b) rt c (Some x) (Node l x r) \<Longrightarrow>
     \<exists>b' l' r'. splay_loop b (Some x) = Some b' \<and> sub_at (heap b') (Some x) [] (Some x) (Node l' x r') \<and>
       inorder (Node l' x r') = inorder (plug c (Node l x r)) \<and> data_at (heap b') = data_at (heap b) \<and>
       tree_size b' = tree_size b"
proof (induction "length c" arbitrary: b rt c l r rule: less_induct)
  case less
  show ?case
  proof (cases c)
    case Nil
    then obtain n where "heap b x = Some n" "parent n = nullptr"
      using less.prems by (auto elim: sub_at_node)
    then have "splay_loop b (Some x) = Some b"
      by (subst splay_loop.simps) simp
    then show ?thesis
      using less.prems Nil by (auto simp: sub_at_def)
  next
    case (Cons k1 c1)
    show ?thesis
    proof (cases c1)
      case Nil
      obtain b' l' r' where 1: "splay_loop b (Some x) = splay_loop b' (Some x)" "tree_size b' = tree_size b"
          "sub_at (heap b') (Some x) [] (Some x) (Node l' x r')" "data_at (heap b') = data_at (heap b)"
          "inorder (Node l' x r') = inorder (plug [k1] (Node l x r))"
        using splay_step_one [of b rt k1 x l r] less.prems Cons Nil by blast
      then show ?thesis
        using less.hyps [OF _ 1(3)] Cons Nil by auto
    next
      case (Cons k2 c2)
      obtain b' rt' l' r' where 1: "splay_loop b (Some x) = splay_loop b' (Some x)" "tree_size b' = tree_size b"
          "sub_at (heap b') rt' c2 (Some x) (Node l' x r')" "data_at (heap b') = data_at (heap b)"
          "inorder (plug c2 (Node l' x r')) = inorder (plug c (Node l x r))"
        using splay_step_two [of b rt k1 k2 c2 x l r] less.prems \<open>c = k1 # c1\<close> Cons by blast
      then show ?thesis
        using less.hyps [OF _ 1(3)] \<open>c = k1 # c1\<close> Cons by auto
    qed
  qed
qed

lemma post_insert_spl_spec:
  assumes "bst_rep b (plug c (Node l a r))"
  shows "\<exists>b' l' r'. post_insert_spl b (Some a) = Some (b', Some a) \<and> bst_rep b' (Node l' a r') \<and>
     inorder (Node l' a r') = inorder (plug c (Node l a r)) \<and> data_at (heap b') = data_at (heap b) \<and>
     tree_size b' = tree_size b"
proof -
  obtain b' l' r' where 1: "splay_loop b (Some a) = Some b'" "sub_at (heap b') (Some a) [] (Some a) (Node l' a r')"
      "inorder (Node l' a r') = inorder (plug c (Node l a r))" "data_at (heap b') = data_at (heap b)"
      "tree_size b' = tree_size b"
    using splay_loop_to_top [OF sub_at_plug [OF assms]] by blast
  have "bst_rep (b'\<lparr>root := Some a\<rparr>) (Node l' a r')"
    using 1(2) by (simp add: sub_at_def bst_rep_def)
  then show ?thesis
    using 1 by (intro exI [of _ "b'\<lparr>root := Some a\<rparr>"] exI [of _ l'] exI [of _ r'])
      (simp add: post_insert_spl_def splay_def)
qed

interpretation splaying: ordered_policy std_less "()" post_insert_spl "\<lambda>_ _. True" "\<lambda>_. True"
proof unfold_locales
  fix h :: "('a, 'b, unit) heap" and c and b :: "('a, 'b, unit) bst" and a k v
  assume "bst_rep b (plug c (Node Leaf a Leaf))"
  from post_insert_spl_spec [OF this] obtain b' l' r' where
    "post_insert_spl b (Some a) = Some (b', Some a)" "bst_rep b' (Node l' a r')"
    "inorder (Node l' a r') = inorder (plug c (Node Leaf a Leaf))"
    "data_at (heap b') = data_at (heap b)" "tree_size b' = tree_size b" by blast
  moreover from this(4) have "kv_at (heap b') = kv_at (heap b)"
    by (simp add: fun_eq_iff kv_at_data)
  ultimately show "\<exists>b' p t'. post_insert_spl b (Some a) = Some (b', p) \<and> bst_rep b' t' \<and>
          inorder t' = before c @ a # after c \<and> kv_at (heap b') = kv_at (heap b) \<and>
          tree_size b' = tree_size b \<and> True"
    unfolding inorder_plug by (intro exI [of _ b'] exI [of _ "Some a"] exI [of _ "Node l' a r'"]) simp
qed simp


subsection \<open>Properties\<close>

text \<open>splaying a node of a tree, as the insertion hook does, ends with that node as the root of a
  well formed tree with the same inorder listing and the same data in every node.\<close>

theorem splay_brings_to_root:
  assumes "bst_rep b (plug c (Node l a r))"
  shows "\<exists>b' l' r'. post_insert_spl b (Some a) = Some (b', Some a) \<and> bst_rep b' (Node l' a r') \<and>
     inorder (Node l' a r') = inorder (plug c (Node l a r)) \<and> data_at (heap b') = data_at (heap b)"
  using post_insert_spl_spec [OF assms] by blast

theorem splay_brings_to_root_witness:
  "\<exists>b' l' r'. post_insert_spl sample_bst (Some 3) = Some (b', Some 3) \<and> bst_rep b' (Node l' 3 r') \<and>
     inorder (Node l' 3 r') = [1, 3, 0, 2] \<and> data_at (heap b') = data_at (heap sample_bst)"
  using splay_brings_to_root [of sample_bst "[InRight Leaf 1, InLeft 0 (Node Leaf 2 Leaf)]" Leaf 3 Leaf] sample_rep
  by (simp add: sample_tree_def)

text \<open>C4: insertion into a splay tree sorted by std::less gives a well formed tree whose listing is the
  old one with the entry put after every entry whose key is not greater, still sorted.\<close>

theorem splay_insert_keeps_sorted:
  assumes "bst_rep b t" and "heap b a = None"
    and "sorted_entries std_less (entries (heap b) (inorder t))"
  shows "\<exists>b' t'. insert_copy std_less () post_insert_spl b (Some a) (k, v) =
       Some (b', mk_iter (Some a), True) \<and> bst_rep b' t' \<and>
     entries (heap b') (inorder t') = insert_entry std_less k v (entries (heap b) (inorder t)) \<and>
     sorted_entries std_less (entries (heap b') (inorder t')) \<and>
     tree_size b' = (if t = Leaf then tree_size b else tree_size b + 1)"
  using splaying.inserted_entries [OF assms(1) TrueI assms(2) TrueI assms(3)] by blast

theorem splay_insert_keeps_sorted_witness:
  "\<exists>b' t'. insert_copy std_less () post_insert_spl sample_bst (Some 7) (4, 44) =
       Some (b', mk_iter (Some 7), True) \<and> bst_rep b' t' \<and>
     entries (heap b') (inorder t') = [(3, 30), (4, 40), (4, 44), (5, 50), (9, 90)]"
proof -
  have "entries (heap sample_bst) (inorder sample_tree) = [(3, 30), (4, 40), (5, 50), (9, 90)]"
    using sample_entries by (simp add: sample_bst_def)
  moreover have "heap sample_bst 7 = None"
    by (simp add: sample_bst_def sample_heap_def)
  ultimately show ?thesis
    using splay_insert_keeps_sorted [OF sample_rep _ sample_sorted, of 7 4 44]
    by (auto simp: insert_entry_def std_less_def)
qed

end
