(* ===== verification/BstExt.thy ===== *)
theory BstExt
  imports BstInsert
begin

text \<open>
  The field that a derived node adds to a tree node (the height of an AVL node, the colour of a
  red-black node): reading and writing it, and what such a write leaves alone. A subtree in a hole
  is described by \<open>sub_at\<close> of \<open>BstRotate\<close>; the lemmas here read its node and move between a node and its
  children.
\<close>

subsection \<open>Reading and writing the field\<close>

definition set_ext :: "('k, 'v, 'e) heap \<Rightarrow> ptr \<Rightarrow> 'e \<Rightarrow> ('k, 'v, 'e) heap option" where
  [ptr_defs]: "set_ext h p e = write_node h p (\<lambda>n. n\<lparr>ext := e\<rparr>)"

definition ext_at :: "('k, 'v, 'e) heap \<Rightarrow> nat \<Rightarrow> 'e option" where
  "ext_at h a = map_option ext (h a)"

text \<open>The write as a heap function.\<close>

definition put_ext :: "('k, 'v, 'e) heap \<Rightarrow> nat \<Rightarrow> 'e \<Rightarrow> ('k, 'v, 'e) heap" where
  "put_ext h a e = (case h a of None \<Rightarrow> h | Some n \<Rightarrow> h(a \<mapsto> n\<lparr>ext := e\<rparr>))"

lemma set_ext_put [simp]: "h a = Some n \<Longrightarrow> set_ext h (Some a) e = Some (put_ext h a e)"
  by (simp add: ptr_defs put_ext_def)

lemma put_ext_apply: "put_ext h a e x = (if x = a then map_option (\<lambda>n. n\<lparr>ext := e\<rparr>) (h a) else h x)"
  by (simp add: put_ext_def split: option.split)

lemma put_ext_same: "put_ext h a e a = map_option (\<lambda>n. n\<lparr>ext := e\<rparr>) (h a)"
  and put_ext_other: "x \<noteq> a \<Longrightarrow> put_ext h a e x = h x"
  by (simp_all only: put_ext_apply) simp_all

lemma put_ext_node: "put_ext h a e x = Some n \<Longrightarrow> \<exists>n0. h x = Some n0 \<and> parent n = parent n0 \<and>
    left_subtree n = left_subtree n0 \<and> right_subtree n = right_subtree n0"
  by (cases "x = a") (auto simp: put_ext_same put_ext_other)

lemma put_ext_node': "h x = Some n0 \<Longrightarrow> \<exists>n. put_ext h a e x = Some n \<and> parent n = parent n0 \<and>
    left_subtree n = left_subtree n0 \<and> right_subtree n = right_subtree n0"
  by (cases "x = a") (auto simp: put_ext_same put_ext_other)

lemma put_ext_None [simp]: "put_ext h a e x = None \<longleftrightarrow> h x = None"
  by (simp add: put_ext_apply)

lemma ext_at_put [simp]: "h a \<noteq> None \<Longrightarrow> ext_at (put_ext h a e) = (ext_at h)(a \<mapsto> e)"
  by (auto simp: ext_at_def put_ext_apply)

lemma kv_at_put [simp]: "kv_at (put_ext h a e) = kv_at h"
  by (rule HOL.ext) (simp add: kv_at_def put_ext_apply split: option.splits)

lemma rep_put [simp]: "rep (put_ext h a e) par p t = rep h par p t"
proof (induction t arbitrary: par p)
  case (Node l x r)
  then show ?case
    by (auto split: option.splits dest!: put_ext_node dest: put_ext_node' [of h x _ a e])
qed simp

lemma rep_ctx_put [simp]: "rep_ctx (put_ext h a e) rt c p = rep_ctx h rt c p"
proof (induction c arbitrary: p)
  case (Cons k c)
  show ?case
    by (cases k) (auto simp: Cons split: option.splits dest!: put_ext_node dest: put_ext_node' [of h _ _ a e])
qed simp

lemma sub_at_put [simp]: "sub_at (put_ext h a e) rt c p t = sub_at h rt c p t"
  by (simp add: sub_at_def)

lemma data_at_ext: "data_at h' = data_at h \<Longrightarrow> ext_at h' = ext_at h"
proof
  fix x
  assume "data_at h' = data_at h"
  then have "data_at h' x = data_at h x" by simp
  then show "ext_at h' x = ext_at h x" by (auto simp: data_at_def ext_at_def split: option.splits)
qed

lemma data_at_kv_all: "data_at h' = data_at h \<Longrightarrow> kv_at h' = kv_at h"
  by (simp add: fun_eq_iff kv_at_data)

lemma kv_at_alloc: "kv_at h' = kv_at h \<Longrightarrow> h' a = None \<longleftrightarrow> h a = None"
  by (drule fun_cong [of _ _ a]) (auto simp: kv_at_def split: option.splits)

subsection \<open>The node at the top of a subtree\<close>

fun root_ptr :: "nat tree \<Rightarrow> ptr" where
  "root_ptr Leaf = nullptr"
| "root_ptr (Node l a r) = Some a"

lemma root_ptr_None [simp]: "root_ptr t = None \<longleftrightarrow> t = Leaf"
  by (cases t) simp_all

lemma rep_root_ptr: "rep h par p t \<Longrightarrow> p = root_ptr t"
  by (cases t) auto

lemma root_ptr_in: "root_ptr t = Some x \<Longrightarrow> x \<in> set_tree t"
  by (cases t) auto

lemma sub_atD:
  assumes "sub_at h rt c p (Node l a r)"
  obtains n where "p = Some a" "h a = Some n" "parent n = ctx_parent c" "left_subtree n = root_ptr l"
    "right_subtree n = root_ptr r"
  using assms by (auto simp: sub_at_def split: option.splits dest: rep_root_ptr)

lemma sub_at_ptr: "sub_at h rt c p t \<Longrightarrow> p = root_ptr t"
  by (auto simp: sub_at_def dest: rep_root_ptr)

lemma sub_at_leftI: "sub_at h rt c p (Node l a r) \<Longrightarrow> sub_at h rt (InLeft a r # c) (root_ptr l) l"
  using sub_at_left by (metis sub_atD)

lemma sub_at_rightI: "sub_at h rt c p (Node l a r) \<Longrightarrow> sub_at h rt (InRight l a # c) (root_ptr r) r"
  using sub_at_right by (metis sub_atD)

lemma sub_at_upL: "sub_at h rt (InLeft a r # c) p l \<Longrightarrow> sub_at h rt c (Some a) (Node l a r)"
  using sub_at_up_left by blast

lemma sub_at_upR: "sub_at h rt (InRight l a # c) p r \<Longrightarrow> sub_at h rt c (Some a) (Node l a r)"
  using sub_at_up_right by blast

lemma sub_at_alloc: "sub_at h rt c p t \<Longrightarrow> x \<in> set_tree t \<Longrightarrow> h x \<noteq> None"
  using rep_alloc by (fastforce simp: sub_at_def)

lemma sub_at_plug_ext: "bst_rep b (plug c t) \<Longrightarrow> sub_at (heap b) (root b) c (root_ptr t) t"
  using bst_sub_at sub_at_ptr by metis

lemma bst_rep_sub_at: "sub_at (heap b) (root b) [] p t \<Longrightarrow> bst_rep b t"
  by (auto simp: sub_at_def bst_rep_def)

text \<open>The other subtree of the parent.\<close>

fun sibling :: "ctx \<Rightarrow> nat tree" where
  "sibling [] = Leaf"
| "sibling (InLeft a r # c) = r"
| "sibling (InRight l a # c) = l"

text \<open>The set of addresses of a tree bounds its size.\<close>

lemma distinct_size: "distinct (inorder t) \<Longrightarrow> set_tree t \<subseteq> {..<n} \<Longrightarrow> size t \<le> n"
proof -
  assume d: "distinct (inorder t)" and s: "set_tree t \<subseteq> {..<n}"
  have "size t = card (set (inorder t))" using distinct_card [OF d] by (simp add: length_inorder)
  also have "\<dots> \<le> card {..<n}" using s by (intro card_mono) simp_all
  finally show ?thesis by simp
qed

end
