(* ===== verification/AvlTree.thy ===== *)
theory AvlTree
  imports BstExt BstErase
begin

text \<open>
  The AVL tree (binary_search_tree/AVL_tree/include/AVL_tree.h): the height in every node, rebalancing
  and the hooks the tag AVL_TAG supplies. Heights are the size_t, int and short values of the code. The
  insertion hook is shown to keep the tree balanced and the stored heights right, so the insertion
  theorems of \<open>BstInsert\<close> hold for the AVL tree with this invariant. What the code of erase does to
  the balance is shown on its simplest case.
\<close>

subsection \<open>The operations\<close>

type_synonym height = "64 word"

text \<open>\<open>p ? p->height : 0\<close>\<close>

definition height_of :: "('k, 'v, height) heap \<Rightarrow> ptr \<Rightarrow> height option" where
  "height_of h p = (if p = nullptr then Some 0 else do { n \<leftarrow> deref h p; Some (ext n) })"

definition recalculate_height :: "('k, 'v, height) heap \<Rightarrow> ptr \<Rightarrow> ('k, 'v, height) heap option" where
  "recalculate_height h p = do {
     n \<leftarrow> deref h p;
     left \<leftarrow> height_of h (left_subtree n);
     right \<leftarrow> height_of h (right_subtree n);
     let left_height = (ucast left :: 32 word);
     let right_height = (ucast right :: 32 word);
     set_ext h p (scast (1 + (if left_height <s right_height then right_height else left_height)))
   }"

definition get_balance :: "('k, 'v, height) heap \<Rightarrow> ptr \<Rightarrow> 16 word option" where
  "get_balance h p = do {
     n \<leftarrow> deref h p;
     left \<leftarrow> height_of h (left_subtree n);
     right \<leftarrow> height_of h (right_subtree n);
     Some (ucast right - ucast left)
   }"

text \<open>The end of rebalance: the heights of the node, and of the children of its parent.\<close>

definition settle :: "('k, 'v, height) heap \<Rightarrow> ptr \<Rightarrow> ('k, 'v, height) heap option" where
  "settle h n = do {
     h \<leftarrow> recalculate_height h n;
     nn \<leftarrow> deref h n;
     (if parent nn = nullptr then Some h
      else do {
        pn \<leftarrow> deref h (parent nn);
        h \<leftarrow> (if left_subtree pn \<noteq> nullptr then recalculate_height h (left_subtree pn) else Some h);
        pn \<leftarrow> deref h (parent nn);
        (if right_subtree pn \<noteq> nullptr then recalculate_height h (right_subtree pn) else Some h)
      })
   }"

definition rebalance :: "('k, 'v, height) heap \<Rightarrow> ptr \<Rightarrow> (('k, 'v, height) heap \<times> ptr) option" where
  "rebalance h to_balance = do {
     let n = to_balance;
     nn \<leftarrow> deref h n;
     let left = left_subtree nn;
     let right = right_subtree nn;
     balance \<leftarrow> get_balance h n;
     (h, to_balance) \<leftarrow>
       (if balance = 2 then do {
          rn \<leftarrow> deref h right;
          hl \<leftarrow> height_of h (left_subtree rn);
          hr \<leftarrow> height_of h (right_subtree rn);
          (if hl \<le> hr then small_left_rotation h to_balance else big_left_rotation h to_balance)
        }
        else if balance = - 2 then do {
          ln \<leftarrow> deref h left;
          hl \<leftarrow> height_of h (left_subtree ln);
          hr \<leftarrow> height_of h (right_subtree ln);
          (if hr \<le> hl then small_right_rotation h to_balance else big_right_rotation h to_balance)
        }
        else Some (h, to_balance));
     h \<leftarrow> settle h n;
     Some (h, to_balance)
   }"

text \<open>The loop of post_insert and the hook.\<close>

partial_function (option) climb :: "('k, 'v, height) bst \<Rightarrow> ptr \<Rightarrow> ('k, 'v, height) bst option" where
  "climb b cur =
     (if cur = nullptr then Some b
      else do {
        h \<leftarrow> recalculate_height (heap b) cur;
        (h, cur) \<leftarrow> rebalance h cur;
        (if cur = nullptr then Some (b\<lparr>heap := h\<rparr>)
         else do {
           h \<leftarrow> recalculate_height h cur;
           cn \<leftarrow> deref h cur;
           climb (b\<lparr>heap := h, root := (if parent cn = nullptr then cur else root b)\<rparr>) (parent cn)
         })
      })"

definition post_insert_avl :: "('k, 'v, height) hook" where
  "post_insert_avl b n = do { b \<leftarrow> climb b n; Some (b, n) }"

text \<open>The loop of rebalance_to_root.\<close>

partial_function (option) rebalance_to_root :: "('k, 'v, height) bst \<Rightarrow> ptr \<Rightarrow> ('k, 'v, height) bst option" where
  "rebalance_to_root b cur =
     (if cur = nullptr then Some b
      else do {
        (h, cur) \<leftarrow> rebalance (heap b) cur;
        h \<leftarrow> recalculate_height h cur;
        cn \<leftarrow> deref h cur;
        rebalance_to_root (b\<lparr>heap := h, root := (if parent cn = nullptr then cur else root b)\<rparr>) (parent cn)
      })"

text \<open>Taking the node out of the tree, with the node that replaces it.\<close>

definition unlink_avl :: "('k, 'v, height) heap \<Rightarrow> ptr \<Rightarrow> (('k, 'v, height) heap \<times> ptr) option" where
  "unlink_avl h n = do {
     nd \<leftarrow> deref h n;
     (if right_subtree nd = nullptr then do {
        pn \<leftarrow> deref h (parent nd);
        h \<leftarrow> (if left_subtree pn = n then set_left h (parent nd) (left_subtree nd)
              else set_right h (parent nd) (left_subtree nd));
        nd \<leftarrow> deref h n;
        Some (h, left_subtree nd)
      } else do {
        new_node \<leftarrow> (if left_subtree nd = nullptr then None else go_right h (left_subtree nd));
        nn \<leftarrow> deref h new_node;
        h \<leftarrow> (if parent nn \<noteq> nullptr then do {
                qn \<leftarrow> deref h (parent nn);
                (if right_subtree qn = new_node then set_right h (parent nn) (right_subtree nn)
                 else set_left h (parent nn) (right_subtree nn))
              } else Some h);
        h \<leftarrow> recalculate_height h new_node;
        nd \<leftarrow> deref h n;
        h \<leftarrow> (if parent nd \<noteq> nullptr then do {
                pn \<leftarrow> deref h (parent nd);
                (if right_subtree pn = n then set_right h (parent nd) new_node
                 else set_left h (parent nd) new_node)
              } else Some h);
        nn \<leftarrow> deref h new_node;
        nd \<leftarrow> deref h n;
        h \<leftarrow> (if parent nn = n then set_right h new_node (right_subtree nd)
              else do {
                h \<leftarrow> set_left h new_node (left_subtree nd);
                set_right h new_node (right_subtree nd)
              });
        h \<leftarrow> set_parent h new_node (parent nd);
        nn \<leftarrow> deref h new_node;
        h \<leftarrow> set_parent_nn h (left_subtree nn) new_node;
        h \<leftarrow> set_parent_nn h (right_subtree nn) new_node;
        Some (h, new_node)
      })
   }"

definition erase_avl :: "('k, 'v, height) bst \<Rightarrow> ptr \<Rightarrow> (exn + ('k, 'v, height) bst \<times> ptr) option" where
  "erase_avl b n =
     (if n = nullptr then Some (Inl (OutOfRange (''Incorrect iterator for erase'' @ [CHR 0x0A])))
      else do {
        (h, new_node) \<leftarrow> unlink_avl (heap b) n;
        nd \<leftarrow> deref h n;
        b \<leftarrow> rebalance_to_root (b\<lparr>heap := h, root := (if parent nd = nullptr then new_node else root b)\<rparr>) new_node;
        b \<leftarrow> delete_node (b\<lparr>tree_size := tree_size b - 1\<rparr>) n;
        Some (Inr (b, new_node))
      })"

lemma sint_of_nat_small: "k < 2 ^ 31 \<Longrightarrow> sint (of_nat k :: 32 word) = int k"
  by (simp add: signed_of_nat signed_take_bit_int_eq_self)

lemma ucast_height: "k < 2 ^ 64 \<Longrightarrow> (ucast (of_nat k :: 64 word) :: 32 word) = of_nat k" "k < 2 ^ 64 \<Longrightarrow> (ucast (of_nat k :: 64 word) :: 16 word) = of_nat k"
  by (simp_all add: unsigned_of_nat take_bit_nat_eq_self)

lemma unat_height: "k < 2 ^ 64 \<Longrightarrow> unat (of_nat k :: 64 word) = k"
  by (simp add: unsigned_of_nat take_bit_nat_eq_self)

lemma max_height: "x < 2 ^ 30 \<Longrightarrow> y < 2 ^ 30 \<Longrightarrow>
   (scast (1 + (if (of_nat x :: 32 word) <s of_nat y then of_nat y else of_nat x) :: 32 word) :: 64 word) = of_nat (Suc (max x y))"
proof -
  assume b: "x < 2 ^ 30" "y < 2 ^ 30"
  have "(of_nat x :: 32 word) <s of_nat y \<longleftrightarrow> x < y"
    using b by (simp add: word_sless_alt sint_of_nat_small)
  then have "1 + (if (of_nat x :: 32 word) <s of_nat y then of_nat y else of_nat x) = (of_nat (Suc (max x y)) :: 32 word)"
    by (simp add: max_def)
  moreover have "(scast (of_nat (Suc (max x y)) :: 32 word) :: 64 word) = of_nat (Suc (max x y))"
    using b sint_of_nat_small [of "Suc (max x y)"] by (simp add: scast_eq del: of_nat_Suc)
  ultimately show ?thesis by simp
qed

lemma balance_iff:
  "x < 2 ^ 14 \<Longrightarrow> y < 2 ^ 14 \<Longrightarrow> (of_nat y - of_nat x :: 16 word) = 2 \<longleftrightarrow> y = x + 2"
  "x < 2 ^ 14 \<Longrightarrow> y < 2 ^ 14 \<Longrightarrow> (of_nat y - of_nat x :: 16 word) = - 2 \<longleftrightarrow> x = y + 2"
proof -
  assume b: "x < 2 ^ 14" "y < 2 ^ 14"
  have inj: "(of_nat m :: 16 word) = of_nat n \<longleftrightarrow> m = n" if "m < 2 ^ 15" "n < 2 ^ 15" for m n
    using that by (simp add: word_of_nat_eq_iff take_bit_nat_eq_self)
  have "(of_nat y - of_nat x :: 16 word) = 2 \<longleftrightarrow> (of_nat y :: 16 word) = of_nat (x + 2)"
    by (simp add: diff_eq_eq add.commute)
  then show "(of_nat y - of_nat x :: 16 word) = 2 \<longleftrightarrow> y = x + 2" using inj [of y "x + 2"] b by simp
  have "(of_nat y - of_nat x :: 16 word) = - 2 \<longleftrightarrow> (of_nat x :: 16 word) = of_nat (y + 2)"
    by (auto simp: diff_eq_eq)
  then show "(of_nat y - of_nat x :: 16 word) = - 2 \<longleftrightarrow> x = y + 2" using inj [of x "y + 2"] b by simp
qed

subsection \<open>Balanced trees and stored heights\<close>

fun avl :: "nat tree \<Rightarrow> bool" where
  "avl Leaf = True"
| "avl (Node l a r) \<longleftrightarrow> height l \<le> height r + 1 \<and> height r \<le> height l + 1 \<and> avl l \<and> avl r"

fun stored :: "('k, 'v, height) heap \<Rightarrow> nat tree \<Rightarrow> bool" where
  "stored h Leaf = True"
| "stored h (Node l a r) \<longleftrightarrow> ext_at h a = Some (of_nat (height (Node l a r))) \<and> stored h l \<and> stored h r"

fun kids_stored :: "('k, 'v, height) heap \<Rightarrow> nat tree \<Rightarrow> bool" where
  "kids_stored h Leaf = True"
| "kids_stored h (Node l a r) \<longleftrightarrow> stored h l \<and> stored h r"

lemma stored_kids: "stored h t \<Longrightarrow> kids_stored h t"
  by (cases t) simp_all

lemma stored_cong: "(\<And>x. x \<in> set_tree t \<Longrightarrow> ext_at h' x = ext_at h x) \<Longrightarrow> stored h' t = stored h t"
  by (induction t) auto

lemma kids_stored_cong:
  assumes "\<And>x. x \<in> set_tree t \<Longrightarrow> ext_at h' x = ext_at h x"
  shows "kids_stored h' t = kids_stored h t"
proof (cases t)
  case (Node l a r)
  then have "stored h' l = stored h l" "stored h' r = stored h r"
    using assms by (intro stored_cong; simp)+
  then show ?thesis by (simp add: Node)
qed simp

lemma stored_root: "stored h t \<Longrightarrow> root_ptr t = Some x \<Longrightarrow> ext_at h x = Some (of_nat (height t))"
  by (cases t) auto

lemma height_of_stored: "stored h t \<Longrightarrow> height_of h (root_ptr t) = Some (of_nat (height t))"
  by (cases t) (auto simp: height_of_def ext_at_def)

text \<open>The heights that occur are far below the range of a short.\<close>

lemma avl_size: "avl t \<Longrightarrow> 2 ^ (height t div 2) \<le> size t + 1"
proof (induction "height t" arbitrary: t rule: less_induct)
  case less
  show ?case
  proof (cases t)
    case (Node l a r)
    define m where "m = height t - 2"
    have h: "m \<le> height l" "m \<le> height r" "height l < height t" "height r < height t"
      using less.prems by (auto simp: m_def Node)
    have "2 ^ (height l div 2) \<le> size l + 1" "2 ^ (height r div 2) \<le> size r + 1"
      using less.hyps h less.prems Node by simp_all
    moreover have "(2 :: nat) ^ (m div 2) \<le> 2 ^ (height l div 2)" "(2 :: nat) ^ (m div 2) \<le> 2 ^ (height r div 2)"
      using h by (simp_all add: div_le_mono)
    moreover have "size t + 1 = (size l + 1) + (size r + 1)" by (simp add: Node)
    ultimately have s: "2 * 2 ^ (m div 2) \<le> size t + 1" by linarith
    show ?thesis
    proof (cases "height t < 2")
      case False
      then have "height t div 2 = Suc (m div 2)" by (simp add: m_def div_if [of "height t"])
      then show ?thesis using s by simp
    qed (use less_2_cases in fastforce)
  qed simp
qed

lemma avl_height_bound:
  assumes "avl t" "distinct (inorder t)" "set_tree t \<subseteq> {..<2 ^ 64}"
  shows "height t < 200"
proof (rule ccontr)
  assume "\<not> height t < 200"
  then have "100 \<le> height t div 2" by simp
  then have "(2 :: nat) ^ 100 \<le> 2 ^ (height t div 2)" by (rule power_increasing) simp
  also have "\<dots> \<le> size t + 1" by (rule avl_size [OF assms(1)])
  also have "\<dots> \<le> 2 ^ 64 + 1" using distinct_size [OF assms(2,3)] by simp
  finally show False by simp
qed

subsection \<open>What the height routines compute\<close>

lemma recalculate_spec:
  assumes "sub_at h rt c p (Node l a r)" "stored h l" "stored h r" "height l < 2 ^ 14" "height r < 2 ^ 14"
  shows "recalculate_height h p = Some (put_ext h a (of_nat (height (Node l a r))))"
proof -
  obtain n where n: "p = Some a" "h a = Some n" "left_subtree n = root_ptr l" "right_subtree n = root_ptr r"
    using sub_atD [OF assms(1)] by metis
  have b: "height l < 2 ^ 30" "height r < 2 ^ 30" "height l < 2 ^ 64" "height r < 2 ^ 64"
    using assms(4,5) by simp_all
  show ?thesis
    using n height_of_stored [OF assms(2)] height_of_stored [OF assms(3)] max_height [OF b(1,2)]
      ucast_height(1) [OF b(3)] ucast_height(1) [OF b(4)]
    by (simp add: recalculate_height_def Let_def cong: if_cong split del: if_split)
qed

lemma get_balance_spec:
  assumes "sub_at h rt c p (Node l a r)" "stored h l" "stored h r" "height l < 2 ^ 14" "height r < 2 ^ 14"
  shows "get_balance h p = Some (of_nat (height r) - of_nat (height l))"
proof -
  obtain n where n: "p = Some a" "h a = Some n" "left_subtree n = root_ptr l" "right_subtree n = root_ptr r"
    using sub_atD [OF assms(1)] by metis
  have "height l < 2 ^ 64" "height r < 2 ^ 64" using assms(4,5) by simp_all
  then show ?thesis
    using n height_of_stored [OF assms(2)] height_of_stored [OF assms(3)] ucast_height(2)
    by (simp add: get_balance_def)
qed


lemma put_stored:
  assumes "sub_at h rt c p (Node l a r)" "stored h l" "stored h r"
  shows "stored (put_ext h a (of_nat (height (Node l a r)))) (Node l a r)"
proof -
  have a: "h a \<noteq> None" using sub_at_alloc [OF assms(1)] by simp
  have nin: "a \<notin> set_tree l" "a \<notin> set_tree r" using sub_at_disjoint [OF assms(1)] by auto
  have "stored (put_ext h a e) u" if "stored h u" "a \<notin> set_tree u" for u e
  proof -
    have "stored (put_ext h a e) u = stored h u" using a that(2) by (intro stored_cong) auto
    then show ?thesis using that(1) by simp
  qed
  then show ?thesis using a nin assms(2,3) by simp
qed

text \<open>Recalculating a node that is null or whose children have their heights.\<close>

lemma recalculate_child:
  assumes "sub_at h rt c (root_ptr t) t" "kids_stored h t" "height t < 2 ^ 14"
  shows "\<exists>h'. (if root_ptr t \<noteq> nullptr then recalculate_height h (root_ptr t) else Some h) = Some h' \<and>
     (\<forall>rt c p u. sub_at h' rt c p u = sub_at h rt c p u) \<and> kv_at h' = kv_at h \<and> stored h' t \<and>
     (\<forall>x. root_ptr t \<noteq> Some x \<longrightarrow> ext_at h' x = ext_at h x)"
proof (cases t)
  case (Node l a r)
  have b: "height l < 2 ^ 14" "height r < 2 ^ 14" using assms(3) Node by simp_all
  have s: "sub_at h rt c (Some a) (Node l a r)" "stored h l" "stored h r" using assms(1,2) Node by simp_all
  have "h a \<noteq> None" using sub_at_alloc [OF s(1)] by simp
  then show ?thesis
    using recalculate_spec [OF s b] put_stored [OF s] Node
    by (intro exI [of _ "put_ext h a (of_nat (height t))"]) simp
qed simp

lemma settle_spec:
  assumes s: "sub_at h rt c p (Node l a r)" and k: "stored h l" "stored h r" "kids_stored h (sibling c)"
    and b: "height (Node l a r) < 2 ^ 14" "height (sibling c) < 2 ^ 14"
  shows "\<exists>h'. settle h p = Some h' \<and> (\<forall>rt c p u. sub_at h' rt c p u = sub_at h rt c p u) \<and>
     kv_at h' = kv_at h \<and> stored h' (Node l a r) \<and> stored h' (sibling c) \<and>
     (\<forall>x. x \<noteq> a \<longrightarrow> root_ptr (sibling c) \<noteq> Some x \<longrightarrow> ext_at h' x = ext_at h x)"
proof -
  define t where "t = Node l a r"
  have p: "p = root_ptr t" using sub_at_ptr [OF s] by (simp add: t_def)
  have st: "sub_at h rt c (root_ptr t) t" "kids_stored h t" "height t < 2 ^ 14"
    using s k b(1) p by (simp_all add: t_def)
  obtain h1 where h1: "recalculate_height h p = Some h1" "\<And>rt c p u. sub_at h1 rt c p u = sub_at h rt c p u"
      "kv_at h1 = kv_at h" "stored h1 t" "\<And>x. x \<noteq> a \<Longrightarrow> ext_at h1 x = ext_at h x"
    using recalculate_child [OF st] p by (auto simp: t_def)
  obtain n where n: "h1 a = Some n" "parent n = ctx_parent c" "p = Some a"
    using sub_atD [of h1 rt c p l a r] s h1(2) by metis
  show ?thesis
  proof (cases c)
    case Nil
    then show ?thesis using h1 n by (intro exI [of _ h1]) (simp add: settle_def t_def)
  next
    case (Cons k0 c0)
    obtain x u v where u: "sub_at h rt c0 (Some x) (Node u x v)" "ctx_parent c = Some x"
        "(u = t \<and> v = sibling c) \<or> (v = t \<and> u = sibling c)"
    proof (cases k0)
      case (InLeft x u)
      then show ?thesis using that [of x t u] sub_at_upL [of h rt x u c0 p] s Cons by (simp add: t_def)
    next
      case (InRight u x)
      then show ?thesis using that [of x u t] sub_at_upR [of h rt u x c0 p] s Cons by (simp add: t_def)
    qed
    have d: "set_tree t \<inter> set_tree (sibling c) = {}"
      using sub_at_disjoint [OF u(1)] u(3) by auto
    have ks: "kids_stored h1 u" "kids_stored h1 v" "height u < 2 ^ 14" "height v < 2 ^ 14"
    proof -
      have "a \<notin> set_tree (sibling c)" using d by (auto simp: t_def)
      then have "kids_stored h1 (sibling c)"
        using k(3) h1(5) kids_stored_cong [of "sibling c" h1 h] by metis
      then show "kids_stored h1 u" "kids_stored h1 v" "height u < 2 ^ 14" "height v < 2 ^ 14"
        using u(3) stored_kids [OF h1(4)] b by (auto simp: t_def)
    qed
    have su: "sub_at h1 rt (InLeft x v # c0) (root_ptr u) u"
      using sub_at_leftI [OF u(1)] h1(2) by simp
    obtain h2 where h2: "(if root_ptr u \<noteq> nullptr then recalculate_height h1 (root_ptr u) else Some h1) = Some h2"
        "\<And>rt c p u. sub_at h2 rt c p u = sub_at h1 rt c p u" "kv_at h2 = kv_at h1" "stored h2 u"
        "\<And>y. root_ptr u \<noteq> Some y \<Longrightarrow> ext_at h2 y = ext_at h1 y"
      using recalculate_child [OF su ks(1,3)] by blast
    have sv: "sub_at h2 rt (InRight u x # c0) (root_ptr v) v"
      using sub_at_rightI [OF u(1)] h1(2) h2(2) by simp
    have dv: "set_tree u \<inter> set_tree v = {}" using sub_at_disjoint [OF u(1)] by auto
    have "\<And>y. y \<in> set_tree v \<Longrightarrow> root_ptr u \<noteq> Some y" using dv root_ptr_in [of u] by fastforce
    then have kv2: "kids_stored h2 v"
      using ks(2) h2(5) kids_stored_cong [of v h2 h1] by metis
    obtain h3 where h3: "(if root_ptr v \<noteq> nullptr then recalculate_height h2 (root_ptr v) else Some h2) = Some h3"
        "\<And>rt c p u. sub_at h3 rt c p u = sub_at h2 rt c p u" "kv_at h3 = kv_at h2" "stored h3 v"
        "\<And>y. root_ptr v \<noteq> Some y \<Longrightarrow> ext_at h3 y = ext_at h2 y"
      using recalculate_child [OF sv kv2 ks(4)] by blast
    have "\<And>y. y \<in> set_tree u \<Longrightarrow> root_ptr v \<noteq> Some y" using dv root_ptr_in [of v] by fastforce
    then have su3: "stored h3 u" using h2(4) h3(5) stored_cong [of u h3 h2] by simp
    obtain xn where xn: "h1 x = Some xn" "left_subtree xn = root_ptr u" "right_subtree xn = root_ptr v"
      using sub_atD [of h1 rt c0 "Some x" u x v] u(1) h1(2) by metis
    obtain xn2 where xn2: "h2 x = Some xn2" "right_subtree xn2 = root_ptr v"
      using sub_atD [of h2 rt c0 "Some x" u x v] u(1) h1(2) h2(2) by metis
    have "settle h p = Some h3"
      using h1(1) n u(2) xn xn2 h2(1) h3(1) by (simp add: settle_def split: if_splits)
    moreover have "stored h3 t" "stored h3 (sibling c)" using u(3) su3 h3(4) by auto
    moreover have "root_ptr (sibling c) \<noteq> Some y \<Longrightarrow> y \<noteq> a \<Longrightarrow> ext_at h3 y = ext_at h y" for y
    proof -
      assume y: "root_ptr (sibling c) \<noteq> Some y" "y \<noteq> a"
      then have "root_ptr u \<noteq> Some y" "root_ptr v \<noteq> Some y" using u(3) by (auto simp: t_def)
      then show "ext_at h3 y = ext_at h y" using y h1(5) h2(5) h3(5) by simp
    qed
    ultimately show ?thesis using h1(2,3) h2(2,3) h3(2,3) by (intro exI [of _ h3]) (auto simp: t_def)
  qed
qed

subsection \<open>Rebalancing\<close>

fun rebal :: "nat tree \<Rightarrow> nat tree" where
  "rebal Leaf = Leaf"
| "rebal (Node l a r) =
     (if height r = height l + 2 then
        (case r of Leaf \<Rightarrow> Node l a r
         | Node d x e \<Rightarrow> if height d \<le> height e then rotl (Node l a r) else bigl (Node l a r))
      else if height l = height r + 2 then
        (case l of Leaf \<Rightarrow> Node l a r
         | Node d x e \<Rightarrow> if height e \<le> height d then rotr (Node l a r) else bigr (Node l a r))
      else Node l a r)"

lemma inorder_rebal [simp]: "inorder (rebal t) = inorder t"
  by (cases t) (auto split: tree.splits simp del: bigl.simps bigr.simps)

lemma height_pos: "height t = Suc n \<Longrightarrow> \<exists>l a r. t = Node l a r"
  by (cases t) auto

lemma rebal_avl:
  assumes "avl l" "avl r" "height r \<le> height l + 2" "height l \<le> height r + 2"
  shows "avl (rebal (Node l a r)) \<and> height (rebal (Node l a r)) \<le> height (Node l a r) \<and>
     height (Node l a r) \<le> height (rebal (Node l a r)) + 1 \<and>
     (height r \<le> height l + 1 \<and> height l \<le> height r + 1 \<longrightarrow> rebal (Node l a r) = Node l a r)"
proof -
  consider "height r = height l + 2" | "height l = height r + 2"
    | "height r \<le> height l + 1" "height l \<le> height r + 1" using assms(3,4) by linarith
  then show ?thesis
  proof cases
    case 1
    then obtain d x e where r: "r = Node d x e" using height_pos [of r "Suc (height l)"] by auto
    show ?thesis
    proof (cases "height d \<le> height e")
      case True
      then show ?thesis using 1 r assms by (auto simp: max_def)
    next
      case False
      then obtain d1 y d2 where "d = Node d1 y d2" by (cases d) auto
      then show ?thesis using 1 r False assms by (auto simp: max_def split: if_splits)
    qed
  next
    case 2
    then obtain d x e where l: "l = Node d x e" using height_pos [of l "Suc (height r)"] by auto
    show ?thesis
    proof (cases "height e \<le> height d")
      case True
      then show ?thesis using 2 l assms by (auto simp: max_def)
    next
      case False
      then obtain d1 y d2 where "e = Node d1 y d2" by (cases e) auto
      then show ?thesis using 2 l False assms by (auto simp: max_def split: if_splits)
    qed
  next
    case 3
    then show ?thesis using assms by auto
  qed
qed

text \<open>What rebalance leaves behind: the subtree \<open>t\<close> became \<open>u\<close>, all heights below its root are stored, and
  the fields outside \<open>t\<close> are as before.\<close>

definition rebalanced ::
  "('k, 'v, height) heap \<Rightarrow> (('k, 'v, height) heap \<times> ptr) option \<Rightarrow> ptr \<Rightarrow> ctx \<Rightarrow> nat tree \<Rightarrow> bool" where
  "rebalanced h res rt c u \<longleftrightarrow>
     (\<exists>h' l y r. u = Node l y r \<and> res = Some (h', Some y) \<and> sub_at h' (new_root c rt (Some y)) c (Some y) u \<and>
        stored h' l \<and> stored h' r \<and> kv_at h' = kv_at h \<and>
        (\<forall>x. x \<notin> set_tree u \<longrightarrow> ext_at h' x = ext_at h x))"

lemma performs_top:
  assumes "performs h res rt c (Node l y r)"
  shows "\<exists>h'. res = Some (h', Some y) \<and> sub_at h' (new_root c rt (Some y)) c (Some y) (Node l y r) \<and>
     ext_at h' = ext_at h \<and> kv_at h' = kv_at h"
proof -
  obtain h' v where "res = Some (h', v)" "sub_at h' (new_root c rt v) c v (Node l y r)" "data_at h' = data_at h"
    using assms by (auto simp: performs_def)
  moreover have "v = Some y" using sub_at_ptr [OF calculation(2)] by simp
  ultimately show ?thesis using data_at_ext data_at_kv_all by blast
qed

lemma settle_rotated_left:
  assumes p: "performs h res rt c (Node (Node b a d) y e)"
    and k: "stored h b" "stored h d" "kids_stored h e" "height (Node b a d) < 2 ^ 14" "height e < 2 ^ 14"
  shows "rebalanced h (do { (h, t) \<leftarrow> res; h \<leftarrow> settle h (Some a); Some (h, t) }) rt c (Node (Node b a d) y e)"
proof -
  obtain h1 where h1: "res = Some (h1, Some y)" "sub_at h1 (new_root c rt (Some y)) c (Some y) (Node (Node b a d) y e)"
      "ext_at h1 = ext_at h" "kv_at h1 = kv_at h"
    using performs_top [OF p] by blast
  have s: "sub_at h1 (new_root c rt (Some y)) (InLeft y e # c) (Some a) (Node b a d)"
    using sub_at_leftI [OF h1(2)] by simp
  have "stored h1 b" "stored h1 d" "kids_stored h1 e"
    using k h1(3) stored_cong [of b h1 h] stored_cong [of d h1 h] kids_stored_cong [of e h1 h] by simp_all
  then obtain h2 where h2: "settle h1 (Some a) = Some h2" "\<And>rt c p u. sub_at h2 rt c p u = sub_at h1 rt c p u"
      "kv_at h2 = kv_at h1" "stored h2 (Node b a d)" "stored h2 e"
      "\<And>x. x \<noteq> a \<Longrightarrow> root_ptr e \<noteq> Some x \<Longrightarrow> ext_at h2 x = ext_at h1 x"
    using settle_spec [OF s] k by (auto simp del: stored.simps height_tree.simps)
  have "ext_at h2 x = ext_at h x" if "x \<notin> set_tree (Node (Node b a d) y e)" for x
    using h2(6) h1(3) that root_ptr_in [of e x] by (cases "root_ptr e = Some x") auto
  then show ?thesis
    using h1 h2 unfolding rebalanced_def
    by (intro exI [of _ h2] exI [of _ "Node b a d"] exI [of _ y] exI [of _ e])
      (simp del: stored.simps)
qed

lemma settle_rotated_right:
  assumes p: "performs h res rt c (Node d y (Node e a b))"
    and k: "stored h e" "stored h b" "kids_stored h d" "height (Node e a b) < 2 ^ 14" "height d < 2 ^ 14"
  shows "rebalanced h (do { (h, t) \<leftarrow> res; h \<leftarrow> settle h (Some a); Some (h, t) }) rt c (Node d y (Node e a b))"
proof -
  obtain h1 where h1: "res = Some (h1, Some y)" "sub_at h1 (new_root c rt (Some y)) c (Some y) (Node d y (Node e a b))"
      "ext_at h1 = ext_at h" "kv_at h1 = kv_at h"
    using performs_top [OF p] by blast
  have s: "sub_at h1 (new_root c rt (Some y)) (InRight d y # c) (Some a) (Node e a b)"
    using sub_at_rightI [OF h1(2)] by simp
  have "stored h1 e" "stored h1 b" "kids_stored h1 d"
    using k h1(3) stored_cong [of b h1 h] stored_cong [of e h1 h] kids_stored_cong [of d h1 h] by simp_all
  then obtain h2 where h2: "settle h1 (Some a) = Some h2" "\<And>rt c p u. sub_at h2 rt c p u = sub_at h1 rt c p u"
      "kv_at h2 = kv_at h1" "stored h2 (Node e a b)" "stored h2 d"
      "\<And>x. x \<noteq> a \<Longrightarrow> root_ptr d \<noteq> Some x \<Longrightarrow> ext_at h2 x = ext_at h1 x"
    using settle_spec [OF s] k by (auto simp del: stored.simps height_tree.simps)
  have "ext_at h2 x = ext_at h x" if "x \<notin> set_tree (Node d y (Node e a b))" for x
    using h2(6) h1(3) that root_ptr_in [of d x] by (cases "root_ptr d = Some x") auto
  then show ?thesis
    using h1 h2 unfolding rebalanced_def
    by (intro exI [of _ h2] exI [of _ d] exI [of _ y] exI [of _ "Node e a b"])
      (simp del: stored.simps)
qed

lemma child_heights:
  assumes "sub_at h rt c p (Node l a r)" "h x = Some n" "x = a" "stored h l" "stored h r"
  shows "height_of h (left_subtree n) = Some (of_nat (height l)) \<and> height_of h (right_subtree n) = Some (of_nat (height r))"
proof -
  obtain m where "h a = Some m" "left_subtree m = root_ptr l" "right_subtree m = root_ptr r"
    using sub_atD [OF assms(1)] by metis
  then show ?thesis using assms(2,3) height_of_stored [OF assms(4)] height_of_stored [OF assms(5)] by simp
qed

lemma of_nat_le_height: "x < 2 ^ 14 \<Longrightarrow> y < 2 ^ 14 \<Longrightarrow> (of_nat x :: height) \<le> of_nat y \<longleftrightarrow> x \<le> y"
  using unat_height [of x] unat_height [of y] by (simp add: word_le_nat_alt)

lemma rebalance_right_heavy:
  assumes s: "sub_at h rt c p (Node b a (Node d x e))" and k: "stored h b" "stored h (Node d x e)"
    and hb: "height (Node d x e) = height b + 2" "height (Node d x e) < 2 ^ 14"
    and res: "res = (if height d \<le> height e then small_left_rotation h p else big_left_rotation h p)"
  shows "rebalance h p = do { (h, t) \<leftarrow> res; h \<leftarrow> settle h (Some a); Some (h, t) }"
proof -
  obtain n where n: "p = Some a" "h a = Some n" "right_subtree n = Some x"
    using sub_atD [OF s] by (metis root_ptr.simps(2))
  note sr = sub_at_rightI [OF s]
  obtain m where m: "h x = Some m" using sub_atD [OF sr] by metis
  have hd: "height_of h (left_subtree m) = Some (of_nat (height d))"
      "height_of h (right_subtree m) = Some (of_nat (height e))"
    using child_heights [OF sr m refl] k by simp_all
  have lt: "height b < 2 ^ 14" "height d < 2 ^ 14" "height e < 2 ^ 14" using hb by simp_all
  have bal: "get_balance h p = Some 2"
    using get_balance_spec [OF s k lt(1) hb(2)] balance_iff(1) [OF lt(1) hb(2)] hb(1) by simp
  show ?thesis
    using n m hd bal of_nat_le_height [OF lt(2,3)] by (simp add: rebalance_def res Let_def)
qed

lemma rebalance_left_heavy:
  assumes s: "sub_at h rt c p (Node (Node d x e) a b)" and k: "stored h (Node d x e)" "stored h b"
    and hb: "height (Node d x e) = height b + 2" "height (Node d x e) < 2 ^ 14"
    and res: "res = (if height e \<le> height d then small_right_rotation h p else big_right_rotation h p)"
  shows "rebalance h p = do { (h, t) \<leftarrow> res; h \<leftarrow> settle h (Some a); Some (h, t) }"
proof -
  obtain n where n: "p = Some a" "h a = Some n" "left_subtree n = Some x"
    using sub_atD [OF s] by (metis root_ptr.simps(2))
  note sr = sub_at_leftI [OF s]
  obtain m where m: "h x = Some m" using sub_atD [OF sr] by metis
  have hd: "height_of h (left_subtree m) = Some (of_nat (height d))"
      "height_of h (right_subtree m) = Some (of_nat (height e))"
    using child_heights [OF sr m refl] k by simp_all
  have lt: "height b < 2 ^ 14" "height d < 2 ^ 14" "height e < 2 ^ 14" using hb by simp_all
  have g: "get_balance h p = Some (of_nat (height b) - of_nat (height (Node d x e)))"
    by (rule get_balance_spec [OF s k hb(2) lt(1)])
  have "(of_nat (height b) - of_nat (height (Node d x e)) :: 16 word) = - 2"
    using balance_iff(2) [OF hb(2) lt(1)] hb(1) by blast
  then have bal: "get_balance h p = Some (- 2)" using g by metis
  show ?thesis
    using n m hd bal of_nat_le_height [OF lt(3,2)] by (simp add: rebalance_def res Let_def)
qed

lemma rebalance_balanced:
  assumes s: "sub_at h rt c p (Node l a r)" and k: "stored h l" "stored h r"
    and hb: "height r \<le> height l + 1" "height l \<le> height r + 1" "height l < 2 ^ 14" "height r < 2 ^ 14"
  shows "rebalance h p = do { h \<leftarrow> settle h p; Some (h, p) }"
proof -
  obtain n where n: "p = Some a" "h a = Some n" using sub_atD [OF s] by metis
  have "(of_nat (height r) - of_nat (height l) :: 16 word) \<noteq> 2 \<and> (of_nat (height r) - of_nat (height l) :: 16 word) \<noteq> - 2"
    using balance_iff [OF hb(3,4)] hb by simp
  then show ?thesis
    using n get_balance_spec [OF s k hb(3,4)] by (simp add: rebalance_def Let_def)
qed

lemma rebalance_spec:
  assumes s: "sub_at h rt c p (Node l a r)" and k: "stored h l" "stored h r" "stored h (sibling c)"
    and hb: "height r \<le> height l + 2" "height l \<le> height r + 2" "height (Node l a r) < 2 ^ 14" "height (sibling c) < 2 ^ 14"
  shows "rebalanced h (rebalance h p) rt c (rebal (Node l a r))"
proof -
  consider d x e where "r = Node d x e" "height r = height l + 2" | d x e where "l = Node d x e" "height l = height r + 2"
    | "height r \<le> height l + 1" "height l \<le> height r + 1"
    using hb(1,2) height_pos [of r "Suc (height l)"] height_pos [of l "Suc (height r)"] by fastforce
  then show ?thesis
  proof cases
    case 1
    note s1 = s [unfolded 1(1)]
    have hd: "height (Node d x e) < 2 ^ 14" "height (Node d x e) = height l + 2"
    proof -
      have "height r < 2 ^ 14" using hb(3) by simp
      then show "height (Node d x e) < 2 ^ 14" unfolding 1(1) .
      show "height (Node d x e) = height l + 2" using 1(2) unfolding 1(1) .
    qed
    have kk: "stored h d" "stored h e" using k(2) 1(1) by simp_all
    note rb = rebalance_right_heavy [OF s1 k(1) k(2) [unfolded 1(1)] hd(2,1) refl]
    show ?thesis
    proof (cases "height d \<le> height e")
      case True
      have "performs h (small_left_rotation h p) rt c (Node (Node l a d) x e)"
        using small_left_rotation_performs [OF s1] by simp
      then show ?thesis
        using settle_rotated_left [of h _ rt c l a d x e] rb True 1 hd kk k(1) stored_kids [OF kk(2)] by simp
    next
      case False
      then obtain d1 y d2 where d: "d = Node d1 y d2" by (cases d) auto
      have "performs h (big_left_rotation h p) rt c (Node (Node l a d1) y (Node d2 x e))"
        using big_left_rotation_performs [OF s1] d by simp
      then show ?thesis
        using settle_rotated_left [of h _ rt c l a d1 y "Node d2 x e"] rb False 1 hd kk k(1) d by simp
    qed
  next
    case 2
    note s1 = s [unfolded 2(1)]
    have hd: "height (Node d x e) < 2 ^ 14" "height (Node d x e) = height r + 2"
    proof -
      have "height l < 2 ^ 14" using hb(3) by simp
      then show "height (Node d x e) < 2 ^ 14" unfolding 2(1) .
      show "height (Node d x e) = height r + 2" using 2(2) unfolding 2(1) .
    qed
    have kk: "stored h d" "stored h e" using k(1) 2(1) by simp_all
    note rb = rebalance_left_heavy [OF s1 k(1) [unfolded 2(1)] k(2) hd(2,1) refl]
    show ?thesis
    proof (cases "height e \<le> height d")
      case True
      have "performs h (small_right_rotation h p) rt c (Node d x (Node e a r))"
        using small_right_rotation_performs [OF s1] by simp
      then show ?thesis
        using settle_rotated_right [of h _ rt c d x e a r] rb True 2 hd kk k(2) stored_kids [OF kk(1)] by simp
    next
      case False
      then obtain d1 y d2 where e: "e = Node d1 y d2" by (cases e) auto
      have "performs h (big_right_rotation h p) rt c (Node (Node d x d1) y (Node d2 a r))"
        using big_right_rotation_performs [OF s1] e by simp
      then show ?thesis
        using settle_rotated_right [of h _ rt c "Node d x d1" y d2 a r] rb False 2 hd kk k(2) e by simp
    qed
  next
    case 3
    have rb: "rebal (Node l a r) = Node l a r" using 3 by auto
    have lt: "height l < 2 ^ 14" "height r < 2 ^ 14" using hb(3) by simp_all
    obtain h' where h': "settle h p = Some h'" "\<And>rt c p u. sub_at h' rt c p u = sub_at h rt c p u"
        "kv_at h' = kv_at h" "stored h' (Node l a r)" "stored h' (sibling c)"
        "\<And>x. x \<noteq> a \<Longrightarrow> root_ptr (sibling c) \<noteq> Some x \<Longrightarrow> ext_at h' x = ext_at h x"
      using settle_spec [OF s k(1,2) stored_kids [OF k(3)] hb(3,4)] by blast
    have "ext_at h' x = ext_at h x" if "x \<notin> set_tree (Node l a r)" for x
      using h'(6) [of x] that stored_root [OF k(3), of x] stored_root [OF h'(5), of x]
      by (cases "root_ptr (sibling c) = Some x") auto
    moreover have "p = Some a" using sub_at_ptr [OF s] by simp
    moreover have "sub_at h (new_root c rt (Some a)) c p (Node l a r)"
      using s calculation(2) by (auto simp: new_root_def sub_at_def)
    ultimately show ?thesis
      using rebalance_balanced [OF s k(1,2) 3 lt] h' unfolding rebalanced_def rb by simp
  qed
qed

declare rebal.simps(2) [simp del]

subsection \<open>The loop of post_insert\<close>

text \<open>The surroundings of a hole that held a tree of height \<open>k\<close>: put back, it would be balanced.\<close>

fun around :: "('k, 'v, height) heap \<Rightarrow> ctx \<Rightarrow> nat \<Rightarrow> bool" where
  "around h [] k = True"
| "around h (InLeft a r # c) k \<longleftrightarrow>
     stored h r \<and> avl r \<and> k \<le> height r + 1 \<and> height r \<le> k + 1 \<and> around h c (max k (height r) + 1)"
| "around h (InRight l a # c) k \<longleftrightarrow>
     stored h l \<and> avl l \<and> k \<le> height l + 1 \<and> height l \<le> k + 1 \<and> around h c (max k (height l) + 1)"

lemma around_plug: "avl (plug c t) \<Longrightarrow> stored h (plug c t) \<Longrightarrow> avl t \<and> stored h t \<and> around h c (height t)"
  by (induction c t rule: plug.induct) (auto simp: max.commute)

lemma around_cong: "(\<And>x. x \<in> set_ctx c \<Longrightarrow> ext_at h' x = ext_at h x) \<Longrightarrow> around h' c k = around h c k"
proof (induction c arbitrary: k)
  case (Cons k0 c)
  then have IH: "around h' c j = around h c j" for j by (cases k0) auto
  show ?case
  proof (cases k0)
    case (InLeft a r)
    then have "stored h' r = stored h r" using Cons.prems by (intro stored_cong) simp
    then show ?thesis using IH InLeft by simp
  next
    case (InRight l a)
    then have "stored h' l = stored h l" using Cons.prems by (intro stored_cong) simp
    then show ?thesis using IH InRight by simp
  qed
qed simp

lemma around_sibling: "around h c k \<Longrightarrow> stored h (sibling c) \<and> avl (sibling c)"
  by (cases c rule: sibling.cases) auto

lemma sibling_subset: "set_tree (sibling c) \<subseteq> set_ctx c"
  by (cases c rule: sibling.cases) auto

lemma distinct_sibling: "distinct (inorder (plug c t)) \<Longrightarrow> distinct (inorder (sibling c))"
  by (cases c rule: sibling.cases) (auto simp: inorder_plug)

text \<open>An iteration: the subtree in the hole has become \<open>rebal\<close> of it, its heights are stored.\<close>

lemma climb_step:
  assumes s: "sub_at (heap b) (root b) c (Some a) (Node l a r)"
    and k: "stored (heap b) l" "stored (heap b) r" "avl l" "avl r" "around (heap b) c k"
    and hb: "height r \<le> height l + 2" "height l \<le> height r + 2"
    and rng: "set_tree (plug c (Node l a r)) \<subseteq> {..<2 ^ 64}"
  shows "\<exists>b'. climb b (Some a) = climb b' (ctx_parent c) \<and> stored (heap b') (rebal (Node l a r)) \<and>
     sub_at (heap b') (root b') c (root_ptr (rebal (Node l a r))) (rebal (Node l a r)) \<and>
     around (heap b') c k \<and> kv_at (heap b') = kv_at (heap b) \<and> tree_size b' = tree_size b"
proof -
  define t where "t = Node l a r"
  define h1 where "h1 = put_ext (heap b) a (of_nat (height t))"
  note dj = sub_at_disjoint [OF s]
  have rng': "set_tree l \<subseteq> {..<2 ^ 64}" "set_tree r \<subseteq> {..<2 ^ 64}" "set_tree (sibling c) \<subseteq> {..<2 ^ 64}"
    using rng sibling_subset [of c] unfolding set_tree_plug by auto
  have dis: "distinct (inorder l)" "distinct (inorder r)" "distinct (inorder (sibling c))"
    using dj distinct_sibling [of c "Node l a r"] s by (auto simp: sub_at_def)
  have hl: "height l < 200" "height r < 200" "height (sibling c) < 200"
    using avl_height_bound [OF k(3) dis(1) rng'(1)] avl_height_bound [OF k(4) dis(2) rng'(2)]
      avl_height_bound [OF _ dis(3) rng'(3)] around_sibling [OF k(5)] by simp_all
  have lt: "height l < 2 ^ 14" "height r < 2 ^ 14" "height (Node l a r) < 2 ^ 14" "height (sibling c) < 2 ^ 14"
    using hl by simp_all
  have r1: "recalculate_height (heap b) (Some a) = Some h1"
    using recalculate_spec [OF s k(1,2) lt(1,2)] by (simp add: h1_def t_def)
  have e1: "ext_at h1 x = ext_at (heap b) x" if "x \<noteq> a" for x
    using sub_at_alloc [OF s, of a] that by (simp add: h1_def)
  have s1: "sub_at h1 (root b) c (Some a) (Node l a r)" using s by (simp add: h1_def)
  have ac: "a \<notin> set_ctx c" "a \<notin> set_tree l" "a \<notin> set_tree r" "a \<notin> set_tree (sibling c)"
    using dj sibling_subset [of c] by auto
  have k1: "stored h1 l" "stored h1 r" "stored h1 (sibling c)"
    using k(1,2) around_sibling [OF k(5)] e1 ac stored_cong [of _ h1 "heap b"] by metis+
  obtain h2 l' y r' where u: "rebal t = Node l' y r'" "rebalance h1 (Some a) = Some (h2, Some y)"
      "sub_at h2 (new_root c (root b) (Some y)) c (Some y) (rebal t)" "stored h2 l'" "stored h2 r'" "kv_at h2 = kv_at h1"
      "\<And>x. x \<notin> set_tree (rebal t) \<Longrightarrow> ext_at h2 x = ext_at h1 x"
    using rebalance_spec [OF s1 k1 hb lt(3,4)] by (auto simp: rebalanced_def t_def)
  have hu: "height (rebal t) \<le> height t" using rebal_avl [OF k(3,4) hb] by (simp add: t_def)
  have "height (Node l' y r') < 2 ^ 14" using hu lt(3) unfolding t_def [symmetric] u(1) by linarith
  then have lt2: "height l' < 2 ^ 14" "height r' < 2 ^ 14" by simp_all
  define h3 where "h3 = put_ext h2 y (of_nat (height (rebal t)))"
  have s2: "sub_at h2 (new_root c (root b) (Some y)) c (Some y) (Node l' y r')" using u(1,3) by simp
  have r3: "recalculate_height h2 (Some y) = Some h3"
    using recalculate_spec [OF s2 u(4,5) lt2] by (simp add: h3_def u(1))
  have st: "stored h3 (rebal t)" using put_stored [OF s2 u(4,5)] by (simp add: h3_def u(1))
  have s3: "sub_at h3 (new_root c (root b) (Some y)) c (Some y) (rebal t)" using u(3) by (simp add: h3_def)
  obtain n where n: "h3 y = Some n" "parent n = ctx_parent c"
    using sub_atD [OF s3 [unfolded u(1)]] by metis
  have e3: "ext_at h3 x = ext_at (heap b) x" if "x \<in> set_ctx c" for x
  proof -
    have "set_tree (rebal t) = set_tree t" by (metis inorder_rebal set_inorder)
    then have "x \<notin> set_tree (rebal t)" "x \<noteq> a" using that dj by (auto simp: t_def)
    moreover have "x \<noteq> y" using calculation(1) u(1) by auto
    ultimately show ?thesis using u(7) e1 sub_at_alloc [OF s2, of y] by (simp add: h3_def)
  qed
  have rt: "(if ctx_parent c = None then Some y else root b) = new_root c (root b) (Some y)"
    by (cases c rule: ctx_parent.cases) (simp_all add: new_root_def)
  have "climb b (Some a) = climb (b\<lparr>heap := h3, root := new_root c (root b) (Some y)\<rparr>) (ctx_parent c)"
    using r1 u(2) r3 n rt by (subst climb.simps) simp
  moreover have "around h3 c k" using k(5) around_cong [of c h3 "heap b" k] e3 by simp
  moreover have "kv_at h3 = kv_at (heap b)" using u(6) by (simp add: h3_def h1_def)
  ultimately show ?thesis
    using st s3 u(1) unfolding t_def [symmetric]
    by (intro exI [of _ "b\<lparr>heap := h3, root := new_root c (root b) (Some y)\<rparr>"]) simp
qed


text \<open>A node one of whose subtrees has grown by at most one level, after rebalancing.\<close>

lemma rebal_grown:
  assumes "avl l" "avl r" "k1 \<le> k2 + 1" "k2 \<le> k1 + 1"
    and "(k1 \<le> height l \<and> height l \<le> k1 + 1 \<and> k2 = height r) \<or> (k2 \<le> height r \<and> height r \<le> k2 + 1 \<and> k1 = height l)"
  shows "avl (rebal (Node l a r)) \<and> max k1 k2 + 1 \<le> height (rebal (Node l a r)) \<and>
     height (rebal (Node l a r)) \<le> max k1 k2 + 2 \<and> height r \<le> height l + 2 \<and> height l \<le> height r + 2"
proof -
  have d: "height r \<le> height l + 2" "height l \<le> height r + 2" using assms(3-5) by auto
  note ra = rebal_avl [OF assms(1,2) d, of a]
  show ?thesis
  proof (cases "height r \<le> height l + 1 \<and> height l \<le> height r + 1")
    case True
    then have "rebal (Node l a r) = Node l a r" using ra by blast
    then show ?thesis using True assms ra by auto
  next
    case False
    have h: "height (Node l a r) = max (height l) (height r) + 1" by simp
    show ?thesis using False assms(3-5) ra d unfolding h by (auto simp del: height_tree.simps)
  qed
qed

lemma climb_spec:
  assumes "sub_at (heap b) (root b) c (Some a) (Node l a r)"
    and "stored (heap b) l" "stored (heap b) r" "avl l" "avl r" "around (heap b) c k"
    and "height r \<le> height l + 2" "height l \<le> height r + 2"
    and "k \<le> height (rebal (Node l a r))" "height (rebal (Node l a r)) \<le> k + 1" "avl (rebal (Node l a r))"
    and "set_tree (plug c (Node l a r)) \<subseteq> {..<2 ^ 64}"
  shows "\<exists>b' t'. climb b (Some a) = Some b' \<and> bst_rep b' t' \<and> avl t' \<and> stored (heap b') t' \<and>
     inorder t' = inorder (plug c (Node l a r)) \<and> kv_at (heap b') = kv_at (heap b) \<and> tree_size b' = tree_size b"
  using assms
proof (induction "length c" arbitrary: b c a l r k rule: less_induct)
  case less
  define u where "u = rebal (Node l a r)"
  have iu: "inorder u = inorder (Node l a r)" by (simp add: u_def)
  obtain b' where b': "climb b (Some a) = climb b' (ctx_parent c)" "stored (heap b') u"
      "sub_at (heap b') (root b') c (root_ptr u) u" "around (heap b') c k"
      "kv_at (heap b') = kv_at (heap b)" "tree_size b' = tree_size b"
    using climb_step [OF less.prems(1-8,12)] unfolding u_def by blast
  have hu: "k \<le> height u" "height u \<le> k + 1" "avl u" using less.prems(9-11) by (simp_all add: u_def)
  have st: "set_tree u = set_tree (Node l a r)" by (metis iu set_inorder)
  show ?case
  proof (cases c)
    case Nil
    have "climb b' None = Some b'" by (subst climb.simps) simp
    then show ?thesis
      using b' hu(3) Nil iu bst_rep_sub_at by (intro exI [of _ b'] exI [of _ u]) simp
  next
    case (Cons k0 c0)
    show ?thesis
    proof (cases k0)
      case (InLeft x s)
      have a1: "stored (heap b') s" "avl s" "k \<le> height s + 1" "height s \<le> k + 1" "around (heap b') c0 (max k (height s) + 1)"
        using b'(4) Cons InLeft by simp_all
      have "(k \<le> height u \<and> height u \<le> k + 1 \<and> height s = height s) \<or> (height s \<le> height s \<and> height s \<le> height s + 1 \<and> k = height u)"
        using hu by simp
      note g = rebal_grown [OF hu(3) a1(2,3,4) this, of x]
      have "\<exists>b'' t'. climb b' (Some x) = Some b'' \<and> bst_rep b'' t' \<and> avl t' \<and> stored (heap b'') t' \<and>
          inorder t' = inorder (plug c0 (Node u x s)) \<and> kv_at (heap b'') = kv_at (heap b') \<and> tree_size b'' = tree_size b'"
      proof (rule less.hyps [OF _ _ b'(2) a1(1) hu(3) a1(2) a1(5)])
        show "length c0 < length c" using Cons by simp
        show "sub_at (heap b') (root b') c0 (Some x) (Node u x s)"
          using sub_at_upL [of "heap b'" "root b'" x s c0] b'(3) Cons InLeft by simp
        show "set_tree (plug c0 (Node u x s)) \<subseteq> {..<2 ^ 64}"
          using less.prems(12) st Cons InLeft by (simp add: set_tree_plug)
      qed (use g in \<open>simp_all\<close>)
      then show ?thesis using b' Cons InLeft iu by (simp add: inorder_plug)
    next
      case (InRight s x)
      have a1: "stored (heap b') s" "avl s" "height s \<le> k + 1" "k \<le> height s + 1" "around (heap b') c0 (max (height s) k + 1)"
        using b'(4) Cons InRight by (simp_all add: max.commute)
      have "(height s \<le> height s \<and> height s \<le> height s + 1 \<and> k = height u) \<or> (k \<le> height u \<and> height u \<le> k + 1 \<and> height s = height s)"
        using hu by simp
      note g = rebal_grown [OF a1(2) hu(3) a1(3,4) this, of x]
      have "\<exists>b'' t'. climb b' (Some x) = Some b'' \<and> bst_rep b'' t' \<and> avl t' \<and> stored (heap b'') t' \<and>
          inorder t' = inorder (plug c0 (Node s x u)) \<and> kv_at (heap b'') = kv_at (heap b') \<and> tree_size b'' = tree_size b'"
      proof (rule less.hyps [OF _ _ a1(1) b'(2) a1(2) hu(3) a1(5)])
        show "length c0 < length c" using Cons by simp
        show "sub_at (heap b') (root b') c0 (Some x) (Node s x u)"
          using sub_at_upR [of "heap b'" "root b'" s x c0] b'(3) Cons InRight by simp
        show "set_tree (plug c0 (Node s x u)) \<subseteq> {..<2 ^ 64}"
          using less.prems(12) st Cons InRight by (simp add: set_tree_plug)
      qed (use g in \<open>simp_all\<close>)
      then show ?thesis using b' Cons InRight iu by (simp add: inorder_plug)
    qed
  qed
qed

subsection \<open>The hook keeps its contract\<close>

definition avl_inv :: "('k, 'v, height) heap \<Rightarrow> nat tree \<Rightarrow> bool" where
  "avl_inv h t \<longleftrightarrow> avl t \<and> stored h t \<and> set_tree t \<subseteq> {..<2 ^ 64}"

definition is_address :: "nat \<Rightarrow> bool" where
  "is_address a \<longleftrightarrow> a < 2 ^ 64"

lemma post_insert_avl_spec:
  assumes "avl_inv h (plug c Leaf)" "is_address a" "bst_rep b (plug c (Node Leaf a Leaf))"
    and d: "data_at (heap b) = (data_at h)(a \<mapsto> (k, v, 0))"
  shows "\<exists>b' t'. post_insert_avl b (Some a) = Some (b', Some a) \<and> bst_rep b' t' \<and> avl_inv (heap b') t' \<and>
     inorder t' = before c @ a # after c \<and> kv_at (heap b') = kv_at (heap b) \<and> tree_size b' = tree_size b"
proof -
  have s: "sub_at (heap b) (root b) c (Some a) (Node Leaf a Leaf)"
    using sub_at_plug_ext [OF assms(3)] by simp
  have e: "ext_at (heap b) x = ext_at h x" if "x \<noteq> a" for x
    using fun_cong [OF d, of x] that by (auto simp: data_at_def ext_at_def split: option.splits)
  have nin: "a \<notin> set_ctx c" using sub_at_disjoint [OF s] by simp
  have ar: "around (heap b) c 0"
  proof -
    have "around (heap b) c 0 = around h c 0" using e nin by (intro around_cong) metis
    then show ?thesis using around_plug [of c Leaf h] assms(1) by (simp add: avl_inv_def)
  qed
  have rng: "set_tree (plug c (Node Leaf a Leaf)) \<subseteq> {..<2 ^ 64}"
    using assms(1,2) by (auto simp: avl_inv_def is_address_def set_tree_plug)
  obtain b' t' where b': "climb b (Some a) = Some b'" "bst_rep b' t'" "avl t'" "stored (heap b') t'"
     "inorder t' = inorder (plug c (Node Leaf a Leaf))" "kv_at (heap b') = kv_at (heap b)" "tree_size b' = tree_size b"
    using climb_spec [OF s _ _ _ _ ar] rng by (auto simp: rebal.simps(2))
  have "set_tree t' = set_tree (plug c (Node Leaf a Leaf))" by (metis b'(5) set_inorder)
  then show ?thesis
    using b' rng by (intro exI [of _ b'] exI [of _ t']) (simp add: post_insert_avl_def avl_inv_def inorder_plug)
qed

interpretation balancing: ordered_policy std_less 0 post_insert_avl avl_inv is_address
proof unfold_locales
  fix h :: "('a, 'b, height) heap" and c a and b :: "('a, 'b, height) bst" and k v
  show "avl_inv h Leaf" by (simp add: avl_inv_def)
  assume "avl_inv h (plug c Leaf)" "is_address a" "bst_rep b (plug c (Node Leaf a Leaf))"
    "data_at (heap b) = (data_at h)(a \<mapsto> (k, v, 0))"
  from post_insert_avl_spec [OF this]
  show "\<exists>b' p t'. post_insert_avl b (Some a) = Some (b', p) \<and> bst_rep b' t' \<and>
      inorder t' = before c @ a # after c \<and> kv_at (heap b') = kv_at (heap b) \<and>
      tree_size b' = tree_size b \<and> avl_inv (heap b') t'"
    by blast
qed

subsection \<open>The erasure of a leaf\<close>

lemma set_child_ext:
  "(if b then set_left h (Some p) q else set_right h (Some p) q) = Some h' \<Longrightarrow> ext_at h' = ext_at h"
  by (auto simp: ptr_defs ext_at_def split: option.splits if_splits)

lemma unlink_leaf:
  assumes s: "sub_at (heap b) (root b) (k # c) (Some a) (Node Leaf a Leaf)"
  shows "\<exists>h. unlink_avl (heap b) (Some a) = Some (h, nullptr) \<and> rep_ctx h (root b) (k # c) nullptr \<and>
     h a = heap b a \<and> ext_at h = ext_at (heap b)"
proof -
  obtain nd where n: "heap b a = Some nd" "parent nd = ctx_parent (k # c)" "left_subtree nd = None" "right_subtree nd = None"
    using sub_atD [OF s] by (metis root_ptr.simps(1))
  obtain par pn h' where h': "ctx_parent (k # c) = Some par" "heap b par = Some pn"
    "(if left_subtree pn = Some a then set_left (heap b) (Some par) nullptr else set_right (heap b) (Some par) nullptr) = Some h'"
    "rep_ctx h' (root b) (k # c) nullptr" "\<forall>x. x \<notin> set_ctx (k # c) \<longrightarrow> h' x = heap b x"
    using child_swap [OF s] by meson
  have "a \<notin> set_ctx (k # c)" using sub_at_disjoint [OF s] by auto
  moreover have "par \<in> set_ctx (k # c)" using h'(1) by (cases k) auto
  ultimately have ha: "h' a = heap b a" "a \<noteq> par" using h'(5) by blast+
  then show ?thesis
    using n h' ha set_child_ext [OF h'(3)] by (intro exI [of _ h']) (simp add: unlink_avl_def split: if_splits)
qed

subsection \<open>Properties\<close>

text \<open>C2: Insertion into an AVL tree sorted by std::less links the entry after those whose key is not greater
  and gives a balanced tree again: at every node the heights of the subtrees differ by at most one,
  every node stores its height, and so the height is at most logarithmic in the number of nodes.\<close>
theorem avl_insert_keeps_balance:
  assumes "bst_rep b t" "avl_inv (heap b) t" "heap b a = None" "a < 2 ^ 64"
    and "sorted_entries std_less (entries (heap b) (inorder t))"
  shows "\<exists>b' t'. insert_copy std_less 0 post_insert_avl b (Some a) (k, v) = Some (b', mk_iter (Some a), True) \<and>
     bst_rep b' t' \<and> avl t' \<and> stored (heap b') t' \<and> 2 ^ (height t' div 2) \<le> size t' + 1 \<and>
     entries (heap b') (inorder t') = insert_entry std_less k v (entries (heap b) (inorder t)) \<and>
     sorted_entries std_less (entries (heap b') (inorder t'))"
proof -
  have "is_address a" using assms(4) by (simp add: is_address_def)
  from balancing.inserted_entries [OF assms(1-3) this assms(5), of k v]
  obtain b' t' where b': "insert_copy std_less 0 post_insert_avl b (Some a) (k, v) = Some (b', mk_iter (Some a), True)"
     "bst_rep b' t'" "avl_inv (heap b') t'"
     "entries (heap b') (inorder t') = insert_entry std_less k v (entries (heap b) (inorder t))"
     "sorted_entries std_less (entries (heap b') (inorder t'))" by blast
  then show ?thesis using avl_size [of t'] by (intro exI [of _ b'] exI [of _ t']) (simp add: avl_inv_def)
qed

text \<open>A tree with four nodes that leans to the right.\<close>

definition avl_heap :: "(int, int, height) heap" where
  "avl_heap = (\<lambda>_. None)
     (0 \<mapsto> \<lparr>nd_key = 5, nd_val = 50, parent = None, left_subtree = Some 1, right_subtree = Some 2, ext = 3\<rparr>,
      1 \<mapsto> \<lparr>nd_key = 3, nd_val = 30, parent = Some 0, left_subtree = None, right_subtree = None, ext = 1\<rparr>,
      2 \<mapsto> \<lparr>nd_key = 9, nd_val = 90, parent = Some 0, left_subtree = None, right_subtree = Some 3, ext = 2\<rparr>,
      3 \<mapsto> \<lparr>nd_key = 12, nd_val = 120, parent = Some 2, left_subtree = None, right_subtree = None, ext = 1\<rparr>)"

definition avl_sample :: "(int, int, height) bst" where
  "avl_sample = \<lparr>heap = avl_heap, root = Some 0, tree_size = 4\<rparr>"

definition avl_sample_tree :: "nat tree" where
  "avl_sample_tree = Node (Node Leaf 1 Leaf) 0 (Node Leaf 2 (Node Leaf 3 Leaf))"

lemma avl_sample: "bst_rep avl_sample avl_sample_tree" "avl_inv (heap avl_sample) avl_sample_tree"
  "sorted_entries std_less (entries (heap avl_sample) (inorder avl_sample_tree))"
  by (simp_all add: bst_rep_def avl_sample_def avl_sample_tree_def avl_heap_def avl_inv_def ext_at_def
      sorted_entries_def entries_def List.map_filter_simps kv_at_def std_less_def)

theorem avl_insert_keeps_balance_witness:
  "\<exists>b' t'. insert_copy std_less 0 post_insert_avl avl_sample (Some 7) (15, 150) = Some (b', mk_iter (Some 7), True) \<and>
     bst_rep b' t' \<and> avl t' \<and> entries (heap b') (inorder t') = [(3, 30), (5, 50), (9, 90), (12, 120), (15, 150)]"
proof -
  have "heap avl_sample 7 = None" by (simp add: avl_sample_def avl_heap_def)
  moreover have "insert_entry std_less 15 150 (entries (heap avl_sample) (inorder avl_sample_tree)) =
      [(3, 30), (5, 50), (9, 90), (12, 120), (15, 150)]"
    by (simp add: avl_sample_def avl_sample_tree_def avl_heap_def entries_def List.map_filter_simps kv_at_def
        insert_entry_def std_less_def)
  ultimately show ?thesis
    using avl_insert_keeps_balance [OF avl_sample(1,2) _ _ avl_sample(3), of 7 15 150] by auto
qed

text \<open>Erasing a leaf that is not the root cuts it off, frees it and decrements the size, but no height is
  recalculated and nothing is rebalanced: rebalance_to_root starts at the replacing node, which is
  null.\<close>
theorem avl_erase_leaf_skips_rebalancing:
  assumes "bst_rep b (plug (k # c) (Node Leaf a Leaf))"
  shows "\<exists>b'. erase_avl b (Some a) = Some (Inr (b', nullptr)) \<and> bst_rep b' (plug (k # c) Leaf) \<and>
     heap b' a = None \<and> tree_size b' = tree_size b - 1 \<and> (\<forall>x. x \<noteq> a \<longrightarrow> ext_at (heap b') x = ext_at (heap b) x)"
proof -
  have s: "sub_at (heap b) (root b) (k # c) (Some a) (Node Leaf a Leaf)"
    using sub_at_plug_ext [OF assms] by simp
  obtain nd where n: "heap b a = Some nd" "parent nd = ctx_parent (k # c)"
    using sub_atD [OF s] by metis
  obtain h where h: "unlink_avl (heap b) (Some a) = Some (h, nullptr)" "rep_ctx h (root b) (k # c) nullptr"
      "h a = heap b a" "ext_at h = ext_at (heap b)"
    using unlink_leaf [OF s] by blast
  have nr: "rebalance_to_root b' None = Some b'" for b' :: "('a, 'b, height) bst"
    by (subst rebalance_to_root.simps) simp
  define b' where "b' = b\<lparr>heap := h(a := None), tree_size := tree_size b - 1\<rparr>"
  obtain y where "ctx_parent (k # c) = Some y" by (cases k) simp_all
  then have "erase_avl b (Some a) = Some (Inr (b', nullptr))"
    using h(1,3) n nr by (simp add: erase_avl_def delete_node_def b'_def)
  moreover have "bst_rep b' (plug (k # c) Leaf)"
    using h(2) assms sub_at_disjoint [OF s] by (simp add: b'_def bst_rep_def rep_plug inorder_plug)
  moreover have "\<forall>x. x \<noteq> a \<longrightarrow> ext_at (heap b') x = ext_at (heap b) x"
    using h(4) by (simp add: b'_def ext_at_def fun_eq_iff)
  ultimately show ?thesis by (intro exI [of _ b']) (simp add: b'_def)
qed

text \<open>Erasing the left leaf of the sample leaves a root whose right subtree is two levels deeper.\<close>
theorem avl_erase_leaf_skips_rebalancing_witness:
  "\<exists>b'. erase_avl avl_sample (Some 1) = Some (Inr (b', nullptr)) \<and>
     bst_rep b' (Node Leaf 0 (Node Leaf 2 (Node Leaf 3 Leaf))) \<and> \<not> avl (Node Leaf 0 (Node Leaf 2 (Node Leaf 3 Leaf)))"
  using avl_erase_leaf_skips_rebalancing [of avl_sample "InLeft 0 (Node Leaf 2 (Node Leaf 3 Leaf))" "[]" 1] avl_sample(1)
  by (auto simp: avl_sample_tree_def)

end
