(* ===== verification/RedBlackTree.thy ===== *)
theory RedBlackTree
  imports BstExt BstErase
begin

text \<open>
  The red-black tree (binary_search_tree/red_black_tree/include/red_black_tree.h): the colour of a
  node, the loop of post_insert that repairs the colours, and erase with its repair loop. Insertion is
  shown to keep the red-black invariant, so it satisfies the contract of \<open>BstInsert\<close>; erasing is shown
  to remove exactly the node, and what it does to the black heights is shown on black leaves.
\<close>

subsection \<open>Colours and links\<close>

datatype node_color = RED | BLACK

type_synonym ('k, 'v) rbt = "('k, 'v, node_color) bst"

text \<open>\<open>link_to\<close>: a reference to the root variable or to a child field of the parent. A rotation through it
  reads the link, rotates and stores the new top of the subtree in the link.\<close>

type_synonym ('k, 'v, 'e) rotation = "('k, 'v, 'e) heap \<Rightarrow> ptr \<Rightarrow> (('k, 'v, 'e) heap \<times> ptr) option"

definition rotate_link ::
  "('k, 'v, 'e) rotation \<Rightarrow> ('k, 'v, 'e) bst \<Rightarrow> ptr \<Rightarrow>
     ('k, 'v, 'e) bst option" where
  "rotate_link rot b n = do {
     nn \<leftarrow> deref (heap b) n;
     (if parent nn = nullptr then do {
        (h, v) \<leftarrow> rot (heap b) (root b);
        Some (b\<lparr>heap := h, root := v\<rparr>)
      } else do {
        pn \<leftarrow> deref (heap b) (parent nn);
        (if n = left_subtree pn then do {
           (h, v) \<leftarrow> rot (heap b) (left_subtree pn);
           h \<leftarrow> set_left h (parent nn) v;
           Some (b\<lparr>heap := h\<rparr>)
         } else do {
           (h, v) \<leftarrow> rot (heap b) (right_subtree pn);
           h \<leftarrow> set_right h (parent nn) v;
           Some (b\<lparr>heap := h\<rparr>)
         })
      })
   }"

text \<open>\<open>p && p->color == RED\<close>\<close>

definition is_red :: "('k, 'v, node_color) heap \<Rightarrow> ptr \<Rightarrow> bool option" where
  "is_red h p = (if p = nullptr then Some False else do { n \<leftarrow> deref h p; Some (ext n = RED) })"

subsection \<open>Insertion\<close>

definition recolor ::
  "('k, 'v, node_color) heap \<Rightarrow> ptr \<Rightarrow> ptr \<Rightarrow> ptr \<Rightarrow> ('k, 'v, node_color) heap option" where
  "recolor h par uncle grand = do {
     h \<leftarrow> set_ext h par BLACK;
     h \<leftarrow> set_ext h uncle BLACK;
     set_ext h grand RED
   }"

partial_function (option) fix_insert ::
  "('k, 'v, node_color) rotation \<Rightarrow> ('k, 'v, node_color) rotation \<Rightarrow> ('k, 'v) rbt \<Rightarrow> ptr \<Rightarrow> ('k, 'v) rbt option" where
  "fix_insert rl rr b z =
     (if z = root b then Some b
      else do {
        zn \<leftarrow> deref (heap b) z;
        let par = parent zn;
        pn \<leftarrow> deref (heap b) par;
        (if ext pn \<noteq> RED then Some b
         else do {
           let grand = parent pn;
           gn \<leftarrow> deref (heap b) grand;
           (if par = left_subtree gn then do {
              let uncle = right_subtree gn;
              uncle_red \<leftarrow> is_red (heap b) uncle;
              (if uncle_red then do {
                 h \<leftarrow> recolor (heap b) par uncle grand;
                 fix_insert rl rr (b\<lparr>heap := h\<rparr>) grand
               } else do {
                 (b, z, par) \<leftarrow>
                   (if z = right_subtree pn then do {
                      b \<leftarrow> rotate_link rl b par;
                      zn \<leftarrow> deref (heap b) par;
                      Some (b, par, parent zn)
                    } else Some (b, z, par));
                 h \<leftarrow> set_ext (heap b) par BLACK;
                 h \<leftarrow> set_ext h grand RED;
                 b \<leftarrow> rotate_link rr (b\<lparr>heap := h\<rparr>) grand;
                 fix_insert rl rr b z
               })
            } else do {
              let uncle = left_subtree gn;
              uncle_red \<leftarrow> is_red (heap b) uncle;
              (if uncle_red then do {
                 h \<leftarrow> recolor (heap b) par uncle grand;
                 fix_insert rl rr (b\<lparr>heap := h\<rparr>) grand
               } else do {
                 (b, z, par) \<leftarrow>
                   (if z = left_subtree pn then do {
                      b \<leftarrow> rotate_link rr b par;
                      zn \<leftarrow> deref (heap b) par;
                      Some (b, par, parent zn)
                    } else Some (b, z, par));
                 h \<leftarrow> set_ext (heap b) par BLACK;
                 h \<leftarrow> set_ext h grand RED;
                 b \<leftarrow> rotate_link rl (b\<lparr>heap := h\<rparr>) grand;
                 fix_insert rl rr b z
               })
            })
         })
      })"

definition insert_repair ::
  "('k, 'v, node_color) rotation \<Rightarrow> ('k, 'v, node_color) rotation \<Rightarrow> ('k, 'v) rbt \<Rightarrow> ptr \<Rightarrow> ('k, 'v) rbt option" where
  "insert_repair rl rr b n = do {
     b \<leftarrow> fix_insert rl rr b n;
     h \<leftarrow> set_ext (heap b) (root b) BLACK;
     Some (b\<lparr>heap := h\<rparr>)
   }"

definition post_insert_rb :: "('k, 'v, node_color) hook" where
  "post_insert_rb b n = do {
     b \<leftarrow> insert_repair small_left_rotation small_right_rotation b n;
     Some (b, n)
   }"

subsection \<open>Rotations through a link\<close>

lemma rep_ctx_root: "rep_ctx h rt c p \<Longrightarrow> c \<noteq> [] \<Longrightarrow> \<exists>x \<in> set_ctx c. rt = Some x"
proof (induction c arbitrary: p)
  case (Cons k c)
  show ?case
  proof (cases "c = []")
    case True
    then show ?thesis using Cons.prems by (cases k) (auto split: option.splits)
  next
    case False
    then show ?thesis using Cons by (cases k) (fastforce split: option.splits)+
  qed
qed simp

lemma not_root:
  assumes "sub_at h rt c (Some z) t" "c \<noteq> []"
  shows "rt \<noteq> Some z"
proof -
  obtain x where "x \<in> set_ctx c" "rt = Some x"
    using rep_ctx_root assms by (metis sub_at_def)
  moreover have "z \<in> set_tree t" using sub_at_ptr [OF assms(1)] root_ptr_in by metis
  ultimately show ?thesis using sub_at_disjoint [OF assms(1)] by auto
qed

lemma rotate_link_spec:
  assumes s: "sub_at (heap b) (root b) c (Some a) t"
    and p: "performs (heap b) (rot (heap b) (Some a)) (root b) c (Node l y r)"
  shows "\<exists>b'. rotate_link rot b (Some a) = Some b' \<and> sub_at (heap b') (root b') c (Some y) (Node l y r) \<and>
     ext_at (heap b') = ext_at (heap b) \<and> kv_at (heap b') = kv_at (heap b) \<and> tree_size b' = tree_size b \<and>
     rot (heap b) (Some a) = Some (heap b', Some y)"
proof -
  obtain h' v where h': "rot (heap b) (Some a) = Some (h', v)" "sub_at h' (new_root c (root b) v) c v (Node l y r)"
      "data_at h' = data_at (heap b)"
    using p by (auto simp: performs_def)
  have v: "v = Some y" using sub_at_ptr [OF h'(2)] by simp
  have e: "ext_at h' = ext_at (heap b)" "kv_at h' = kv_at (heap b)"
    using h'(3) data_at_ext data_at_kv_all by blast+
  have t: "root_ptr t = Some a" using sub_at_ptr [OF s] by simp
  then obtain l0 r0 where t': "t = Node l0 a r0" by (cases t) auto
  obtain n where n: "heap b a = Some n" "parent n = ctx_parent c" using sub_atD [OF s [unfolded t']] by metis
  define b' where "b' = b\<lparr>heap := h', root := new_root c (root b) v\<rparr>"
  have "rotate_link rot b (Some a) = Some b'"
  proof (cases c)
    case Nil
    then have "root b = Some a" using s by (simp add: sub_at_def)
    then show ?thesis using Nil n h'(1) by (simp add: rotate_link_def b'_def new_root_def)
  next
    case (Cons k c0)
    show ?thesis
    proof (cases k)
      case (InLeft x u)
      obtain m where m: "heap b x = Some m" "left_subtree m = Some a"
        using s Cons InLeft by (auto simp: sub_at_def split: option.splits)
      obtain m' where m': "h' x = Some m'" "left_subtree m' = v"
        using h'(2) Cons InLeft by (auto simp: sub_at_def split: option.splits)
      have "set_left h' (Some x) v = Some h'" using m' by (auto simp: fun_upd_idem)
      then show ?thesis using Cons InLeft n m h'(1) by (simp add: rotate_link_def b'_def new_root_def)
    next
      case (InRight u x)
      obtain m where m: "heap b x = Some m" "right_subtree m = Some a" "left_subtree m = root_ptr u"
        using s Cons InRight rep_root_ptr by (fastforce simp: sub_at_def split: option.splits)
      have "left_subtree m \<noteq> Some a"
        using m(3) root_ptr_in [of u a] sub_at_disjoint [OF s] Cons InRight t' by auto
      moreover obtain m' where m': "h' x = Some m'" "right_subtree m' = v"
        using h'(2) Cons InRight by (auto simp: sub_at_def split: option.splits)
      moreover have "set_right h' (Some x) v = Some h'" using m' by (auto simp: fun_upd_idem)
      ultimately show ?thesis using Cons InRight n m h'(1) by (auto simp: rotate_link_def b'_def new_root_def)
    qed
  qed
  then show ?thesis using h'(1,2) e v by (intro exI [of _ b']) (simp add: b'_def)
qed

subsection \<open>The red-black invariant\<close>

text \<open>The colour of the node at the top, the number of black nodes on the leftmost path, and the invariant:
  equal black heights, and no red node with a red child.\<close>

fun red :: "('k, 'v, node_color) heap \<Rightarrow> nat tree \<Rightarrow> bool" where
  "red h Leaf = False"
| "red h (Node l a r) \<longleftrightarrow> ext_at h a = Some RED"

fun bh :: "('k, 'v, node_color) heap \<Rightarrow> nat tree \<Rightarrow> nat" where
  "bh h Leaf = 0"
| "bh h (Node l a r) = bh h l + (if ext_at h a = Some RED then 0 else 1)"

fun rb :: "('k, 'v, node_color) heap \<Rightarrow> nat tree \<Rightarrow> bool" where
  "rb h Leaf = True"
| "rb h (Node l a r) \<longleftrightarrow>
     bh h l = bh h r \<and> (ext_at h a = Some RED \<longrightarrow> \<not> red h l \<and> \<not> red h r) \<and> rb h l \<and> rb h r"

fun top_red :: "('k, 'v, node_color) heap \<Rightarrow> ctx \<Rightarrow> bool" where
  "top_red h [] = False"
| "top_red h (InLeft a r # c) \<longleftrightarrow> ext_at h a = Some RED"
| "top_red h (InRight l a # c) \<longleftrightarrow> ext_at h a = Some RED"

text \<open>The surroundings of a hole that takes a tree of black height \<open>k\<close>.\<close>

fun ctx_rb :: "('k, 'v, node_color) heap \<Rightarrow> ctx \<Rightarrow> nat \<Rightarrow> bool" where
  "ctx_rb h [] k = True"
| "ctx_rb h (InLeft a r # c) k \<longleftrightarrow>
     rb h r \<and> bh h r = k \<and> (ext_at h a = Some RED \<longrightarrow> \<not> red h r \<and> c \<noteq> [] \<and> \<not> top_red h c) \<and>
     ctx_rb h c (k + (if ext_at h a = Some RED then 0 else 1))"
| "ctx_rb h (InRight l a # c) k \<longleftrightarrow>
     rb h l \<and> bh h l = k \<and> (ext_at h a = Some RED \<longrightarrow> \<not> red h l \<and> c \<noteq> [] \<and> \<not> top_red h c) \<and>
     ctx_rb h c (k + (if ext_at h a = Some RED then 0 else 1))"

definition same_colors :: "('k, 'v, node_color) heap \<Rightarrow> ('k, 'v, node_color) heap \<Rightarrow> nat set \<Rightarrow> bool" where
  "same_colors h' h S \<longleftrightarrow> (\<forall>x \<in> S. ext_at h' x = ext_at h x)"

lemma same_colors_Un [simp]: "same_colors h' h (S \<union> T) \<longleftrightarrow> same_colors h' h S \<and> same_colors h' h T"
  "same_colors h' h (insert x T) \<longleftrightarrow> ext_at h' x = ext_at h x \<and> same_colors h' h T" "same_colors h' h {}"
  by (auto simp: same_colors_def)

lemma colors_cong:
  "same_colors h' h (set_tree t) \<Longrightarrow> red h' t = red h t \<and> bh h' t = bh h t \<and> rb h' t = rb h t"
  by (induction t) auto

lemma ctx_colors_cong:
  "same_colors h' h (set_ctx c) \<Longrightarrow> top_red h' c = top_red h c \<and> ctx_rb h' c k = ctx_rb h c k"
proof (induction c arbitrary: k)
  case (Cons k0 c)
  then show ?case by (cases k0) (auto simp: colors_cong [of h' h])
qed simp

lemma colors_ext: "ext_at h' = ext_at h \<Longrightarrow> same_colors h' h S"
  by (simp add: same_colors_def)

lemma rb_plug:
  "ctx_rb h c k \<Longrightarrow> rb h t \<Longrightarrow> bh h t = k \<Longrightarrow> (red h t \<longrightarrow> \<not> top_red h c) \<Longrightarrow>
   rb h (plug c t) \<and> (c \<noteq> [] \<longrightarrow> \<not> red h (plug c t))"
proof (induction c arbitrary: t k)
  case (Cons k0 c)
  show ?case
  proof (cases k0)
    case (InLeft a r)
    have "rb h (plug c (Node t a r)) \<and> (c \<noteq> [] \<longrightarrow> \<not> red h (plug c (Node t a r)))"
      using Cons.prems InLeft by (intro Cons.IH [of "k + (if ext_at h a = Some RED then 0 else 1)"]) auto
    moreover have "c = [] \<Longrightarrow> ext_at h a \<noteq> Some RED" using Cons.prems(1) InLeft by auto
    ultimately show ?thesis using InLeft by auto
  next
    case (InRight l a)
    have "rb h (plug c (Node l a t)) \<and> (c \<noteq> [] \<longrightarrow> \<not> red h (plug c (Node l a t)))"
      using Cons.prems InRight by (intro Cons.IH [of "k + (if ext_at h a = Some RED then 0 else 1)"]) auto
    moreover have "c = [] \<Longrightarrow> ext_at h a \<noteq> Some RED" using Cons.prems(1) InRight by auto
    ultimately show ?thesis using InRight by auto
  qed
qed simp

lemma rb_unplug:
  "rb h (plug c t) \<Longrightarrow> \<not> red h (plug c t) \<Longrightarrow>
   ctx_rb h c (bh h t) \<and> rb h t \<and> (c \<noteq> [] \<and> red h t \<longrightarrow> \<not> top_red h c)"
proof (induction c arbitrary: t)
  case (Cons k0 c)
  show ?case
  proof (cases k0)
    case (InLeft a r)
    then have IH: "ctx_rb h c (bh h (Node t a r))" "rb h (Node t a r)" "c \<noteq> [] \<and> red h (Node t a r) \<longrightarrow> \<not> top_red h c"
      using Cons by (simp_all del: ctx_rb.simps rb.simps bh.simps red.simps)
    moreover have "c = [] \<Longrightarrow> ext_at h a \<noteq> Some RED" using Cons.prems(2) InLeft by auto
    ultimately show ?thesis using InLeft by auto
  next
    case (InRight l a)
    then have IH: "ctx_rb h c (bh h (Node l a t))" "rb h (Node l a t)" "c \<noteq> [] \<and> red h (Node l a t) \<longrightarrow> \<not> top_red h c"
      using Cons by (simp_all del: ctx_rb.simps rb.simps bh.simps red.simps)
    moreover have "c = [] \<Longrightarrow> ext_at h a \<noteq> Some RED" using Cons.prems(2) InRight by auto
    ultimately show ?thesis using InRight by auto
  qed
qed simp

subsection \<open>The steps of the insertion loop\<close>

text \<open>The red node \<open>z\<close> in its surroundings: only the colour of its parent may be wrong.\<close>

definition pending :: "('k, 'v) rbt \<Rightarrow> ctx \<Rightarrow> nat tree \<Rightarrow> bool" where
  "pending b c t \<longleftrightarrow> sub_at (heap b) (root b) c (root_ptr t) t \<and> t \<noteq> Leaf \<and> red (heap b) t \<and> rb (heap b) t \<and>
     ctx_rb (heap b) c (bh (heap b) t)"

lemma set_ext_alloc: "h a \<noteq> None \<Longrightarrow> set_ext h (Some a) e = Some (put_ext h a e)"
  by auto

lemma fix_insert_end:
  assumes p: "sub_at (heap b) (root b) c (root_ptr t) t" "t \<noteq> Leaf" and "c = [] \<or> \<not> top_red (heap b) c"
  shows "fix_insert rl rr b (root_ptr t) = Some b"
proof (cases "c = []")
  case True
  then have "root b = root_ptr t" using p by (simp add: sub_at_def)
  then show ?thesis by (subst fix_insert.simps) simp
next
  case False
  obtain l z r where t: "t = Node l z r" using p by (cases t) auto
  note s = p(1) [unfolded t root_ptr.simps]
  obtain n where n: "heap b z = Some n" "parent n = ctx_parent c" using sub_atD [OF s] by metis
  obtain k0 c0 where c: "c = k0 # c0" using False by (cases c) auto
  obtain x m where x: "ctx_parent c = Some x" "heap b x = Some m" "ext m \<noteq> RED"
  proof (cases k0)
    case (InLeft x u)
    then obtain m where "heap b x = Some m" using s c by (auto simp: sub_at_def split: option.splits)
    then show ?thesis using that [of x m] assms(3) InLeft c by (auto simp: ext_at_def)
  next
    case (InRight u x)
    then obtain m where "heap b x = Some m" using s c by (auto simp: sub_at_def split: option.splits)
    then show ?thesis using that [of x m] assms(3) InRight c by (auto simp: ext_at_def)
  qed
  show ?thesis using not_root [OF s False] n x t by (subst fix_insert.simps) simp
qed

lemma fix_insert_stop:
  "pending b c t \<Longrightarrow> c = [] \<or> \<not> top_red (heap b) c \<Longrightarrow> fix_insert rl rr b (root_ptr t) = Some b"
  by (rule fix_insert_end) (auto simp: pending_def)

text \<open>The loop has ended with a tree that is right but for the colour of its root.\<close>

definition repaired :: "('k, 'v) rbt \<Rightarrow> ('k, 'v) rbt option \<Rightarrow> nat list \<Rightarrow> bool" where
  "repaired b res xs \<longleftrightarrow> (\<exists>b' t. res = Some b' \<and> bst_rep b' t \<and> rb (heap b') t \<and> inorder t = xs \<and>
     kv_at (heap b') = kv_at (heap b) \<and> tree_size b' = tree_size b)"

lemma sub_at_bst: "sub_at (heap b) (root b) c p t \<Longrightarrow> bst_rep b (plug c t)"
  by (auto simp: sub_at_def bst_rep_def rep_plug)

lemma repaired_stop:
  assumes p: "pending b' c t" "c = [] \<or> \<not> top_red (heap b') c"
    and b: "kv_at (heap b') = kv_at (heap b)" "tree_size b' = tree_size b" "inorder (plug c t) = xs"
  shows "repaired b (fix_insert rl rr b' (root_ptr t)) xs"
proof -
  have "rb (heap b') (plug c t)"
    using rb_plug [of "heap b'" c "bh (heap b') t" t] p by (cases c) (auto simp: pending_def)
  moreover have "bst_rep b' (plug c t)" using p(1) sub_at_bst by (auto simp: pending_def)
  ultimately show ?thesis
    unfolding repaired_def using fix_insert_stop [OF p] b by blast
qed

lemma recolored:
  assumes s: "sub_at (heap b) (root b) c (Some g) (Node (Node a1 y a2) g (Node b1 w b2))"
    and k: "rb (heap b) a1" "rb (heap b) a2" "rb (heap b) b1" "rb (heap b) b2"
      "bh (heap b) a1 = k" "bh (heap b) a2 = k" "bh (heap b) b1 = k" "bh (heap b) b2 = k"
      "ctx_rb (heap b) c (k + 1)"
    and p: "(p = y \<and> q = w) \<or> (p = w \<and> q = y)"
  shows "\<exists>h. recolor (heap b) (Some p) (Some q) (Some g) = Some h \<and>
     pending (b\<lparr>heap := h\<rparr>) c (Node (Node a1 y a2) g (Node b1 w b2)) \<and> kv_at h = kv_at (heap b)"
proof -
  define h where "h = put_ext (put_ext (put_ext (heap b) p BLACK) q BLACK) g RED"
  have al: "heap b y \<noteq> None" "heap b w \<noteq> None" "heap b g \<noteq> None" using sub_at_alloc [OF s] by simp_all
  then have al': "heap b p \<noteq> None" "heap b q \<noteq> None" using p by auto
  have r: "recolor (heap b) (Some p) (Some q) (Some g) = Some h"
    using al(3) al' by (simp add: recolor_def h_def set_ext_alloc del: set_ext_put not_None_eq)
  note d = sub_at_disjoint [OF s]
  have e: "ext_at h = (ext_at (heap b))(p \<mapsto> BLACK, q \<mapsto> BLACK, g \<mapsto> RED)"
    using al al' by (simp add: h_def)
  have ey: "ext_at h y = Some BLACK" "ext_at h w = Some BLACK" "ext_at h g = Some RED"
    using d p by (auto simp: e)
  have sc: "same_colors h (heap b) (set_tree a1)" "same_colors h (heap b) (set_tree a2)"
    "same_colors h (heap b) (set_tree b1)" "same_colors h (heap b) (set_tree b2)" "same_colors h (heap b) (set_ctx c)"
    using d p by (auto simp: same_colors_def e)
  note cc = colors_cong [OF sc(1)] colors_cong [OF sc(2)] colors_cong [OF sc(3)] colors_cong [OF sc(4)] ctx_colors_cong [OF sc(5)]
  have "pending (b\<lparr>heap := h\<rparr>) c (Node (Node a1 y a2) g (Node b1 w b2))"
    using s k cc ey by (simp add: pending_def h_def [symmetric]) (simp add: h_def)
  then show ?thesis using r by (intro exI [of _ h]) (simp add: h_def)
qed

lemma is_red_tree:
  assumes "sub_at h rt c p t"
  shows "is_red h (root_ptr t) = Some (red h t)"
proof (cases t)
  case (Node l a r)
  then obtain n where "h a = Some n" using sub_atD [OF assms [unfolded Node]] by metis
  then show ?thesis using Node by (simp add: is_red_def ext_at_def)
qed (simp add: is_red_def)

text \<open>One iteration where the parent is the left child of the grandparent, and its mirror image.\<close>

definition advances ::
  "('k, 'v, node_color) rotation \<Rightarrow> ('k, 'v, node_color) rotation \<Rightarrow> ('k, 'v) rbt \<Rightarrow> ctx \<Rightarrow> nat tree \<Rightarrow> ctx \<Rightarrow> nat tree \<Rightarrow> bool" where
  "advances rl rr b c t c' t' \<longleftrightarrow> (\<exists>b'. fix_insert rl rr b (root_ptr t) = fix_insert rl rr b' (root_ptr t') \<and> pending b' c' t' \<and>
     kv_at (heap b') = kv_at (heap b) \<and> tree_size b' = tree_size b)"

lemma pendingD:
  assumes "pending b c t"
  obtains z l r n where "t = Node l z r" "sub_at (heap b) (root b) c (Some z) t" "heap b z = Some n" "parent n = ctx_parent c"
    "ext_at (heap b) z = Some RED" "rb (heap b) t" "ctx_rb (heap b) c (bh (heap b) t)"
proof -
  obtain z l r where t: "t = Node l z r" using assms by (cases t) (auto simp: pending_def)
  have s: "sub_at (heap b) (root b) c (Some z) t" using assms t by (simp add: pending_def)
  obtain n where "heap b z = Some n" "parent n = ctx_parent c" using sub_atD [OF s [unfolded t]] by metis
  then show ?thesis using that [OF t s] assms t by (auto simp: pending_def)
qed

lemma fix_insert_iter:
  assumes p: "sub_at (heap b) (root b) c (root_ptr t) t \<and> t \<noteq> Leaf" and y: "c \<noteq> []" "ctx_parent c = Some y" "heap b y = Some yn" "ext yn = RED"
    "parent yn = Some g" "heap b g = Some gn"
  shows "fix_insert rl rr b (root_ptr t) =
     (if Some y = left_subtree gn then do {
        red \<leftarrow> is_red (heap b) (right_subtree gn);
        (if red then do { h \<leftarrow> recolor (heap b) (Some y) (right_subtree gn) (Some g); fix_insert rl rr (b\<lparr>heap := h\<rparr>) (Some g) }
         else do {
           (b, z, par) \<leftarrow>
             (if root_ptr t = right_subtree yn then do {
                b \<leftarrow> rotate_link rl b (Some y);
                zn \<leftarrow> deref (heap b) (Some y);
                Some (b, Some y, parent zn)
              } else Some (b, root_ptr t, Some y));
           h \<leftarrow> set_ext (heap b) par BLACK;
           h \<leftarrow> set_ext h (Some g) RED;
           b \<leftarrow> rotate_link rr (b\<lparr>heap := h\<rparr>) (Some g);
           fix_insert rl rr b z
         })
      } else do {
        red \<leftarrow> is_red (heap b) (left_subtree gn);
        (if red then do { h \<leftarrow> recolor (heap b) (Some y) (left_subtree gn) (Some g); fix_insert rl rr (b\<lparr>heap := h\<rparr>) (Some g) }
         else do {
           (b, z, par) \<leftarrow>
             (if root_ptr t = left_subtree yn then do {
                b \<leftarrow> rotate_link rr b (Some y);
                zn \<leftarrow> deref (heap b) (Some y);
                Some (b, Some y, parent zn)
              } else Some (b, root_ptr t, Some y));
           h \<leftarrow> set_ext (heap b) par BLACK;
           h \<leftarrow> set_ext h (Some g) RED;
           b \<leftarrow> rotate_link rl (b\<lparr>heap := h\<rparr>) (Some g);
           fix_insert rl rr b z
         })
      })"
proof -
  obtain l z r where t0: "t = Node l z r" using p by (cases t) auto
  then have s: "sub_at (heap b) (root b) c (Some z) (Node l z r)" using p by simp
  obtain n where "heap b z = Some n" "parent n = ctx_parent c" using sub_atD [OF s] by metis
  note t = t0 s [folded t0] this
  have "root b \<noteq> Some z" using not_root [OF t(2) y(1)] .
  moreover have "parent n = Some y" "root_ptr t = Some z" using t y(2) by simp_all
  ultimately show ?thesis using t(3) y by (subst fix_insert.simps) (simp add: Let_def cong: if_cong)
qed

lemma pending_sub: "pending b c t \<Longrightarrow> sub_at (heap b) (root b) c (root_ptr t) t \<and> t \<noteq> Leaf"
  by (auto simp: pending_def)

lemmas fix_insert_unfold = fix_insert_iter [OF pending_sub]

lemma same_ext:
  fixes h h' :: "('k, 'v, node_color) heap"
  assumes "ext_at h' = ext_at h"
  shows "red h' t = red h t" "bh h' t = bh h t" "rb h' t = rb h t" "ctx_rb h' c k = ctx_rb h c k"
  using colors_cong [of h' h t] ctx_colors_cong [of h' h c k] colors_ext [OF assms] by blast+

lemma ext_at_Some: "ext_at h y = Some e \<longleftrightarrow> (\<exists>n. h y = Some n \<and> ext n = e)"
  by (auto simp: ext_at_def)

text \<open>The root is painted black at the end.\<close>

definition rb_inv :: "('k, 'v, node_color) heap \<Rightarrow> nat tree \<Rightarrow> bool" where
  "rb_inv h t \<longleftrightarrow> rb h t \<and> \<not> red h t"

lemma paint_root:
  assumes "bst_rep b t" "t \<noteq> Leaf" "rb (heap b) t"
  shows "\<exists>h. set_ext (heap b) (root b) BLACK = Some h \<and> bst_rep (b\<lparr>heap := h\<rparr>) t \<and> rb_inv h t \<and> kv_at h = kv_at (heap b)"
proof -
  obtain l a r where t: "t = Node l a r" using assms(2) by (cases t) auto
  have s: "sub_at (heap b) (root b) [] (Some a) t" using sub_at_plug_ext [of b "[]" t] assms(1) t by simp
  have ra: "root b = Some a" using s by (simp add: sub_at_def)
  have al: "heap b a \<noteq> None" using sub_at_alloc [OF s [unfolded t]] by simp
  define h where "h = put_ext (heap b) a BLACK"
  have e: "ext_at h = (ext_at (heap b))(a \<mapsto> BLACK)" using al by (simp add: h_def)
  have d: "a \<notin> set_tree l" "a \<notin> set_tree r" using sub_at_disjoint [OF s [unfolded t]] by auto
  have "same_colors h (heap b) (set_tree l)" "same_colors h (heap b) (set_tree r)"
    using d by (auto simp: same_colors_def e)
  note cc = colors_cong [OF this(1)] colors_cong [OF this(2)]
  have "rb_inv h t" using assms(3) cc t by (simp add: rb_inv_def e)
  moreover have "sub_at h (root b) [] (Some a) t" using s by (simp add: h_def)
  then have "bst_rep (b\<lparr>heap := h\<rparr>) t" using sub_at_bst [of "b\<lparr>heap := h\<rparr>" "[]"] by simp
  ultimately show ?thesis
    using al ra by (intro exI [of _ h]) (simp add: h_def set_ext_alloc del: not_None_eq)
qed

subsection \<open>The insertion loop, for every pair of rotations\<close>

text \<open>What the loop relies on: a rotation computes the abstract one and touches no node outside the tree.\<close>

locale rotations =
  fixes rl rr :: "('k, 'v, node_color) rotation"
  assumes rl_performs: "sub_at h rt c p t \<Longrightarrow> performs h (rl h p) rt c (rotl t)"
    and rr_performs: "sub_at h rt c p t \<Longrightarrow> performs h (rr h p) rt c (rotr t)"
    and rl_frame: "sub_at h rt c p t \<Longrightarrow> rl h p = Some (h', v) \<Longrightarrow> x \<notin> set_tree (plug c t) \<Longrightarrow> h' x = h x"
    and rr_frame: "sub_at h rt c p t \<Longrightarrow> rr h p = Some (h', v) \<Longrightarrow> x \<notin> set_tree (plug c t) \<Longrightarrow> h' x = h x"
begin

lemma blacken_left:
  assumes s: "sub_at (heap b) (root b) c (Some g) (Node (Node t y u) g v)"
    and t: "t \<noteq> Leaf" "red (heap b) t" "rb (heap b) t" and u: "rb (heap b) u" "\<not> red (heap b) u" "bh (heap b) u = bh (heap b) t"
    and v: "rb (heap b) v" "\<not> red (heap b) v" "bh (heap b) v = bh (heap b) t"
    and c: "ctx_rb (heap b) c (bh (heap b) t + 1)"
  shows "repaired b (do {
       h \<leftarrow> set_ext (heap b) (Some y) BLACK;
       h \<leftarrow> set_ext h (Some g) RED;
       b \<leftarrow> rotate_link rr (b\<lparr>heap := h\<rparr>) (Some g);
       fix_insert rl rr b (root_ptr t) }) (inorder (plug c (Node (Node t y u) g v)))"
proof -
  define h1 where "h1 = put_ext (put_ext (heap b) y BLACK) g RED"
  have al: "heap b y \<noteq> None" "heap b g \<noteq> None" using sub_at_alloc [OF s] by simp_all
  have st: "set_ext (heap b) (Some y) BLACK = Some (put_ext (heap b) y BLACK)"
      "set_ext (put_ext (heap b) y BLACK) (Some g) RED = Some h1"
    using al by (auto simp: set_ext_alloc h1_def)
  have s1: "sub_at (heap (b\<lparr>heap := h1\<rparr>)) (root (b\<lparr>heap := h1\<rparr>)) c (Some g) (Node (Node t y u) g v)"
    using s by (simp add: h1_def)
  have "performs (heap (b\<lparr>heap := h1\<rparr>)) (rr (heap (b\<lparr>heap := h1\<rparr>)) (Some g)) (root (b\<lparr>heap := h1\<rparr>)) c (Node t y (Node u g v))"
    using rr_performs [OF s1] by simp
  from rotate_link_spec [where rot = rr, OF s1 this] obtain b2 where b2:
    "rotate_link rr (b\<lparr>heap := h1\<rparr>) (Some g) = Some b2"
    "sub_at (heap b2) (root b2) c (Some y) (Node t y (Node u g v))" "ext_at (heap b2) = ext_at h1"
    "kv_at (heap b2) = kv_at (heap b)" "tree_size b2 = tree_size b"
    by (auto simp: h1_def)
  note d = sub_at_disjoint [OF b2(2)]
  have e: "ext_at (heap b2) = (ext_at (heap b))(y \<mapsto> BLACK, g \<mapsto> RED)" using b2(3) al by (simp add: h1_def)
  have gy: "ext_at (heap b2) y = Some BLACK" "ext_at (heap b2) g = Some RED" using d e by auto
  have sc: "same_colors (heap b2) (heap b) (set_tree w)" if "y \<notin> set_tree w" "g \<notin> set_tree w" for w
    using that by (auto simp: same_colors_def e)
  have sx: "same_colors (heap b2) (heap b) (set_ctx c)" using d by (auto simp: same_colors_def e)
  have scs: "same_colors (heap b2) (heap b) (set_tree t)" "same_colors (heap b2) (heap b) (set_tree u)"
      "same_colors (heap b2) (heap b) (set_tree v)"
    using d by (intro sc; auto)+
  note cc = colors_cong [OF scs(1)] colors_cong [OF scs(2)] colors_cong [OF scs(3)] ctx_colors_cong [OF sx]
  have "pending b2 (InLeft y (Node u g v) # c) t"
    using sub_at_leftI [OF b2(2)] t u v c cc gy by (simp add: pending_def)
  then have "repaired b (fix_insert rl rr b2 (root_ptr t)) (inorder (plug (InLeft y (Node u g v) # c) t))"
    using b2(4,5) gy by (intro repaired_stop) (assumption | simp add: inorder_plug)+
  then show ?thesis using st b2(1) by (simp add: inorder_plug)
qed

lemma blacken_right:
  assumes s: "sub_at (heap b) (root b) c (Some g) (Node v g (Node u y t))"
    and t: "t \<noteq> Leaf" "red (heap b) t" "rb (heap b) t" and u: "rb (heap b) u" "\<not> red (heap b) u" "bh (heap b) u = bh (heap b) t"
    and v: "rb (heap b) v" "\<not> red (heap b) v" "bh (heap b) v = bh (heap b) t"
    and c: "ctx_rb (heap b) c (bh (heap b) t + 1)"
  shows "repaired b (do {
       h \<leftarrow> set_ext (heap b) (Some y) BLACK;
       h \<leftarrow> set_ext h (Some g) RED;
       b \<leftarrow> rotate_link rl (b\<lparr>heap := h\<rparr>) (Some g);
       fix_insert rl rr b (root_ptr t) }) (inorder (plug c (Node v g (Node u y t))))"
proof -
  define h1 where "h1 = put_ext (put_ext (heap b) y BLACK) g RED"
  have al: "heap b y \<noteq> None" "heap b g \<noteq> None" using sub_at_alloc [OF s] by simp_all
  have st: "set_ext (heap b) (Some y) BLACK = Some (put_ext (heap b) y BLACK)"
      "set_ext (put_ext (heap b) y BLACK) (Some g) RED = Some h1"
    using al by (auto simp: set_ext_alloc h1_def)
  have s1: "sub_at (heap (b\<lparr>heap := h1\<rparr>)) (root (b\<lparr>heap := h1\<rparr>)) c (Some g) (Node v g (Node u y t))"
    using s by (simp add: h1_def)
  have "performs (heap (b\<lparr>heap := h1\<rparr>)) (rl (heap (b\<lparr>heap := h1\<rparr>)) (Some g)) (root (b\<lparr>heap := h1\<rparr>)) c (Node (Node v g u) y t)"
    using rl_performs [OF s1] by simp
  from rotate_link_spec [where rot = rl, OF s1 this] obtain b2 where b2:
    "rotate_link rl (b\<lparr>heap := h1\<rparr>) (Some g) = Some b2"
    "sub_at (heap b2) (root b2) c (Some y) (Node (Node v g u) y t)" "ext_at (heap b2) = ext_at h1"
    "kv_at (heap b2) = kv_at (heap b)" "tree_size b2 = tree_size b"
    by (auto simp: h1_def)
  note d = sub_at_disjoint [OF b2(2)]
  have e: "ext_at (heap b2) = (ext_at (heap b))(y \<mapsto> BLACK, g \<mapsto> RED)" using b2(3) al by (simp add: h1_def)
  have gy: "ext_at (heap b2) y = Some BLACK" "ext_at (heap b2) g = Some RED" using d e by auto
  have sc: "same_colors (heap b2) (heap b) (set_tree w)" if "y \<notin> set_tree w" "g \<notin> set_tree w" for w
    using that by (auto simp: same_colors_def e)
  have sx: "same_colors (heap b2) (heap b) (set_ctx c)" using d by (auto simp: same_colors_def e)
  have scs: "same_colors (heap b2) (heap b) (set_tree t)" "same_colors (heap b2) (heap b) (set_tree u)"
      "same_colors (heap b2) (heap b) (set_tree v)"
    using d by (intro sc; auto)+
  note cc = colors_cong [OF scs(1)] colors_cong [OF scs(2)] colors_cong [OF scs(3)] ctx_colors_cong [OF sx]
  have "pending b2 (InRight (Node v g u) y # c) t"
    using sub_at_rightI [OF b2(2)] t u v c cc gy by (simp add: pending_def)
  then have "repaired b (fix_insert rl rr b2 (root_ptr t)) (inorder (plug (InRight (Node v g u) y # c) t))"
    using b2(4,5) gy by (intro repaired_stop) (assumption | simp add: inorder_plug)+
  then show ?thesis using st b2(1) by (simp add: inorder_plug)
qed

text \<open>The parent is the left child of the grandparent; \<open>t\<close> is the left or the right subtree of the parent.\<close>

lemma fix_left_red:
  assumes p: "pending b (k # InLeft g v # c) t" and y: "top_red (heap b) [k]"
    and P: "P = plug [k] t" "red (heap b) v"
  shows "advances rl rr b (k # InLeft g v # c) t c (Node P g v)"
proof -
  obtain vl w vr where v: "v = Node vl w vr" using P(2) by (cases v) auto
  obtain a1 x a2 where P': "P = Node a1 x a2" "ctx_parent [k] = Some x" using P(1) by (cases k) auto
  have sP: "sub_at (heap b) (root b) (InLeft g v # c) (Some x) P"
    using p P(1) P'(2) sub_at_upL sub_at_upR by (cases k) (auto simp: pending_def)
  have sG: "sub_at (heap b) (root b) c (Some g) (Node P g v)" using sub_at_upL [OF sP] .
  obtain xn where xn: "heap b x = Some xn" "parent xn = Some g"
    using sub_atD [OF sP [unfolded P']] by auto
  obtain gn where gn: "heap b g = Some gn" "left_subtree gn = Some x" "right_subtree gn = Some w"
    using sub_atD [OF sG] P' v by (metis root_ptr.simps(2))
  have ex: "ext xn = RED" using y xn P'(2) by (cases k) (auto simp: ext_at_def)
  have cp: "ctx_parent (k # InLeft g v # c) = Some x" using P'(2) by (cases k) auto
  have c: "ctx_rb (heap b) (k # InLeft g v # c) (bh (heap b) t)" "rb (heap b) t" using p by (simp_all add: pending_def)
  have kk: "rb (heap b) a1" "rb (heap b) a2" "bh (heap b) a1 = bh (heap b) t" "bh (heap b) a2 = bh (heap b) t"
    "ext_at (heap b) g \<noteq> Some RED" "rb (heap b) v" "bh (heap b) v = bh (heap b) t" "ctx_rb (heap b) c (bh (heap b) t + 1)"
    using c y P(1) P'(1) by (cases k; auto split: if_splits)+
  have vv: "rb (heap b) vl" "rb (heap b) vr" "bh (heap b) vl = bh (heap b) t" "bh (heap b) vr = bh (heap b) t"
    using kk(6,7) v P(2) by (simp_all split: if_splits)
  have sG': "sub_at (heap b) (root b) c (Some g) (Node (Node a1 x a2) g (Node vl w vr))" using sG P' v by simp
  obtain h where h: "recolor (heap b) (Some x) (Some w) (Some g) = Some h"
      "pending (b\<lparr>heap := h\<rparr>) c (Node P g v)" "kv_at h = kv_at (heap b)"
    using recolored [OF sG' kk(1,2) vv(1,2) kk(3,4) vv(3,4) kk(8), of x w] P' v by auto
  have ir: "is_red (heap b) (Some w) = Some True"
    using is_red_tree [OF sub_at_rightI [OF sG]] v P(2) by simp
  have "fix_insert rl rr b (root_ptr t) = fix_insert rl rr (b\<lparr>heap := h\<rparr>) (Some g)"
    using fix_insert_unfold [OF p _ cp xn(1) ex xn(2) gn(1)] gn ir h(1) by simp
  then show ?thesis unfolding advances_def using h by (intro exI [of _ "b\<lparr>heap := h\<rparr>"]) simp
qed

lemma fix_right_red:
  assumes p: "pending b (k # InRight v g # c) t" and y: "top_red (heap b) [k]"
    and P: "P = plug [k] t" "red (heap b) v"
  shows "advances rl rr b (k # InRight v g # c) t c (Node v g P)"
proof -
  obtain vl w vr where v: "v = Node vl w vr" using P(2) by (cases v) auto
  obtain a1 x a2 where P': "P = Node a1 x a2" "ctx_parent [k] = Some x" using P(1) by (cases k) auto
  have sP: "sub_at (heap b) (root b) (InRight v g # c) (Some x) P"
    using p P(1) P'(2) sub_at_upL sub_at_upR by (cases k) (auto simp: pending_def)
  have sG: "sub_at (heap b) (root b) c (Some g) (Node v g P)" using sub_at_upR [OF sP] .
  obtain xn where xn: "heap b x = Some xn" "parent xn = Some g"
    using sub_atD [OF sP [unfolded P']] by auto
  obtain gn where gn: "heap b g = Some gn" "left_subtree gn = Some w" "right_subtree gn = Some x"
    using sub_atD [OF sG] P' v by (metis root_ptr.simps(2))
  have wx: "w \<noteq> x" using sub_at_disjoint [OF sG] P' v by auto
  have ex: "ext xn = RED" using y xn P'(2) by (cases k) (auto simp: ext_at_def)
  have cp: "ctx_parent (k # InRight v g # c) = Some x" using P'(2) by (cases k) auto
  have c: "ctx_rb (heap b) (k # InRight v g # c) (bh (heap b) t)" "rb (heap b) t" using p by (simp_all add: pending_def)
  have kk: "rb (heap b) a1" "rb (heap b) a2" "bh (heap b) a1 = bh (heap b) t" "bh (heap b) a2 = bh (heap b) t"
    "ext_at (heap b) g \<noteq> Some RED" "rb (heap b) v" "bh (heap b) v = bh (heap b) t" "ctx_rb (heap b) c (bh (heap b) t + 1)"
    using c y P(1) P'(1) by (cases k; auto split: if_splits)+
  have vv: "rb (heap b) vl" "rb (heap b) vr" "bh (heap b) vl = bh (heap b) t" "bh (heap b) vr = bh (heap b) t"
    using kk(6,7) v P(2) by (simp_all split: if_splits)
  have sG': "sub_at (heap b) (root b) c (Some g) (Node (Node vl w vr) g (Node a1 x a2))" using sG P' v by simp
  obtain h where h: "recolor (heap b) (Some x) (Some w) (Some g) = Some h"
      "pending (b\<lparr>heap := h\<rparr>) c (Node v g P)" "kv_at h = kv_at (heap b)"
    using recolored [OF sG' vv(1,2) kk(1,2) vv(3,4) kk(3,4) kk(8), of x w] P' v by auto
  have ir: "is_red (heap b) (Some w) = Some True"
    using is_red_tree [OF sub_at_leftI [OF sG]] v P(2) by simp
  have "fix_insert rl rr b (root_ptr t) = fix_insert rl rr (b\<lparr>heap := h\<rparr>) (Some g)"
    using fix_insert_unfold [OF p _ cp xn(1) ex xn(2) gn(1)] gn ir h(1) wx by simp
  then show ?thesis unfolding advances_def using h by (intro exI [of _ "b\<lparr>heap := h\<rparr>"]) simp
qed

lemma repaired_from:
  "repaired b1 res xs \<Longrightarrow> kv_at (heap b1) = kv_at (heap b) \<Longrightarrow> tree_size b1 = tree_size b \<Longrightarrow> repaired b res xs"
  by (simp add: repaired_def)

lemma fix_left_black:
  assumes p: "pending b (k # InLeft g v # c) t" and y: "top_red (heap b) [k]" and nv: "\<not> red (heap b) v"
  shows "repaired b (fix_insert rl rr b (root_ptr t)) (inorder (plug (k # InLeft g v # c) t))"
proof -
  obtain z tl tr where t: "t = Node tl z tr"
    and st: "sub_at (heap b) (root b) (k # InLeft g v # c) (Some z) t"
    and c3: "ext_at (heap b) z = Some RED"
    and c12: "ctx_rb (heap b) (k # InLeft g v # c) (bh (heap b) t)" "rb (heap b) t"
    using pendingD [OF p] by metis
  have "red (heap b) t" using c3 t by simp
  note c = c12 this
  show ?thesis
  proof (cases k)
    case (InLeft x u)
    have sP: "sub_at (heap b) (root b) (InLeft g v # c) (Some x) (Node t x u)"
      using sub_at_upL st InLeft by blast
    have sG: "sub_at (heap b) (root b) c (Some g) (Node (Node t x u) g v)" using sub_at_upL [OF sP] .
    obtain xn where xn: "heap b x = Some xn" "parent xn = Some g" "right_subtree xn = root_ptr u"
      using sub_atD [OF sP] by (metis ctx_parent.simps(2))
    obtain gn where gn: "heap b g = Some gn" "left_subtree gn = Some x" "right_subtree gn = root_ptr v"
      using sub_atD [OF sG] by (metis root_ptr.simps(2))
    have ex: "ext xn = RED" using y xn InLeft by (simp add: ext_at_def)
    have zu: "root_ptr t \<noteq> root_ptr u" using sub_at_disjoint [OF sP] t root_ptr_in [of u z] by auto
    have ir: "is_red (heap b) (root_ptr v) = Some False"
      using is_red_tree [OF sub_at_rightI [OF sG]] nv by simp
    have exr: "ext_at (heap b) x = Some RED" using y InLeft by simp
    have kk: "rb (heap b) u" "\<not> red (heap b) u" "bh (heap b) u = bh (heap b) t" "rb (heap b) v" "bh (heap b) v = bh (heap b) t"
      "ctx_rb (heap b) c (bh (heap b) t + 1)" using c(1) InLeft exr by (auto split: if_splits)
    note f = fix_insert_unfold [OF p _ _ xn(1) ex xn(2) gn(1)]
    show ?thesis
      using blacken_left [OF sG _ c(3,2) kk(1-4) nv kk(5,6)] f gn ir zu xn(3) InLeft t
      by (simp del: root_ptr.simps red.simps rb.simps bh.simps)
  next
    case (InRight u x)
    have sP: "sub_at (heap b) (root b) (InLeft g v # c) (Some x) (Node u x t)"
      using sub_at_upR st InRight by blast
    have sG: "sub_at (heap b) (root b) c (Some g) (Node (Node u x t) g v)" using sub_at_upL [OF sP] .
    obtain xn where xn: "heap b x = Some xn" "parent xn = Some g" "right_subtree xn = root_ptr t"
      using sub_atD [OF sP] by (metis ctx_parent.simps(2))
    obtain gn where gn: "heap b g = Some gn" "left_subtree gn = Some x" "right_subtree gn = root_ptr v"
      using sub_atD [OF sG] by (metis root_ptr.simps(2))
    have ex: "ext xn = RED" using y xn InRight by (simp add: ext_at_def)
    have ir: "is_red (heap b) (root_ptr v) = Some False"
      using is_red_tree [OF sub_at_rightI [OF sG]] nv by simp
    have exr: "ext_at (heap b) x = Some RED" using y InRight by simp
    have kk: "rb (heap b) u" "\<not> red (heap b) u" "bh (heap b) u = bh (heap b) t" "rb (heap b) v" "bh (heap b) v = bh (heap b) t"
      "ctx_rb (heap b) c (bh (heap b) t + 1)" using c(1) InRight exr by (auto split: if_splits)
    have "performs (heap b) (rl (heap b) (Some x)) (root b) (InLeft g v # c) (Node (Node u x tl) z tr)"
      using rl_performs [OF sP] t by simp
    from rotate_link_spec [where rot = rl, OF sP this] obtain b1 where b1:
      "rotate_link rl b (Some x) = Some b1"
      "sub_at (heap b1) (root b1) (InLeft g v # c) (Some z) (Node (Node u x tl) z tr)"
      "ext_at (heap b1) = ext_at (heap b)" "kv_at (heap b1) = kv_at (heap b)" "tree_size b1 = tree_size b" by blast
    note se = same_ext [OF b1(3)]
    obtain x1 where x1: "heap b1 x = Some x1" "parent x1 = Some z"
      using sub_atD [OF sub_at_leftI [OF b1(2)]] by (metis ctx_parent.simps(2))
    have tt: "rb (heap b) tl" "rb (heap b) tr" "bh (heap b) tl = bh (heap b) t" "bh (heap b) tr = bh (heap b) t"
      "\<not> red (heap b) tl" "\<not> red (heap b) tr" "ext_at (heap b) z = Some RED"
      using c(2,3) t by (auto split: if_splits)
    have new: "red (heap b1) (Node u x tl)" "rb (heap b1) (Node u x tl)" "bh (heap b1) (Node u x tl) = bh (heap b) t"
      using kk tt exr b1(3) se by simp_all
    have "repaired b1 (do {
         h \<leftarrow> set_ext (heap b1) (Some z) BLACK;
         h \<leftarrow> set_ext h (Some g) RED;
         b \<leftarrow> rotate_link rr (b1\<lparr>heap := h\<rparr>) (Some g);
         fix_insert rl rr b (root_ptr (Node u x tl)) }) (inorder (plug c (Node (Node (Node u x tl) z tr) g v)))"
      by (rule blacken_left [OF sub_at_upL [OF b1(2)] _ new(1,2)])
        (use kk tt nv new(3) se in \<open>simp_all del: red.simps rb.simps bh.simps\<close>)
    then have r: "repaired b (do {
         h \<leftarrow> set_ext (heap b1) (Some z) BLACK;
         h \<leftarrow> set_ext h (Some g) RED;
         b \<leftarrow> rotate_link rr (b1\<lparr>heap := h\<rparr>) (Some g);
         fix_insert rl rr b (Some x) }) (inorder (plug (k # InLeft g v # c) t))"
      using repaired_from b1(4,5) InRight t by (simp add: inorder_plug)
    note f = fix_insert_unfold [OF p _ _ xn(1) ex xn(2) gn(1)]
    show ?thesis
      using r f gn ir xn(3) InRight b1(1) x1 by simp
  qed
qed

lemma fix_right_black:
  assumes p: "pending b (k # InRight v g # c) t" and y: "top_red (heap b) [k]" and nv: "\<not> red (heap b) v"
  shows "repaired b (fix_insert rl rr b (root_ptr t)) (inorder (plug (k # InRight v g # c) t))"
proof -
  obtain z tl tr where t: "t = Node tl z tr"
    and st: "sub_at (heap b) (root b) (k # InRight v g # c) (Some z) t"
    and c3: "ext_at (heap b) z = Some RED"
    and c12: "ctx_rb (heap b) (k # InRight v g # c) (bh (heap b) t)" "rb (heap b) t"
    using pendingD [OF p] by metis
  have "red (heap b) t" using c3 t by simp
  note c = c12 this
  show ?thesis
  proof (cases k)
    case (InRight u x)
    have sP: "sub_at (heap b) (root b) (InRight v g # c) (Some x) (Node u x t)"
      using sub_at_upR st InRight by blast
    have sG: "sub_at (heap b) (root b) c (Some g) (Node v g (Node u x t))" using sub_at_upR [OF sP] .
    obtain xn where xn: "heap b x = Some xn" "parent xn = Some g" "left_subtree xn = root_ptr u"
      using sub_atD [OF sP] by (metis ctx_parent.simps(3))
    obtain gn where gn: "heap b g = Some gn" "right_subtree gn = Some x" "left_subtree gn = root_ptr v"
      using sub_atD [OF sG] by (metis root_ptr.simps(2))
    have vx: "root_ptr v \<noteq> Some x" using sub_at_disjoint [OF sG] root_ptr_in [of v x] by auto
    have ex: "ext xn = RED" using y xn InRight by (simp add: ext_at_def)
    have zu: "root_ptr t \<noteq> root_ptr u" using sub_at_disjoint [OF sP] t root_ptr_in [of u z] by auto
    have ir: "is_red (heap b) (root_ptr v) = Some False"
      using is_red_tree [OF sub_at_leftI [OF sG]] nv by simp
    have exr: "ext_at (heap b) x = Some RED" using y InRight by simp
    have kk: "rb (heap b) u" "\<not> red (heap b) u" "bh (heap b) u = bh (heap b) t" "rb (heap b) v" "bh (heap b) v = bh (heap b) t"
      "ctx_rb (heap b) c (bh (heap b) t + 1)" using c(1) InRight exr by (auto split: if_splits)
    note f = fix_insert_unfold [OF p _ _ xn(1) ex xn(2) gn(1)]
    show ?thesis
      using blacken_right [OF sG _ c(3,2) kk(1-4) nv kk(5,6)] f gn ir zu xn(3) InRight t vx [symmetric]
      by (simp del: root_ptr.simps red.simps rb.simps bh.simps)
  next
    case (InLeft x u)
    have sP: "sub_at (heap b) (root b) (InRight v g # c) (Some x) (Node t x u)"
      using sub_at_upL st InLeft by blast
    have sG: "sub_at (heap b) (root b) c (Some g) (Node v g (Node t x u))" using sub_at_upR [OF sP] .
    obtain xn where xn: "heap b x = Some xn" "parent xn = Some g" "left_subtree xn = root_ptr t"
      using sub_atD [OF sP] by (metis ctx_parent.simps(3))
    obtain gn where gn: "heap b g = Some gn" "right_subtree gn = Some x" "left_subtree gn = root_ptr v"
      using sub_atD [OF sG] by (metis root_ptr.simps(2))
    have vx: "root_ptr v \<noteq> Some x" using sub_at_disjoint [OF sG] root_ptr_in [of v x] by auto
    have ex: "ext xn = RED" using y xn InLeft by (simp add: ext_at_def)
    have ir: "is_red (heap b) (root_ptr v) = Some False"
      using is_red_tree [OF sub_at_leftI [OF sG]] nv by simp
    have exr: "ext_at (heap b) x = Some RED" using y InLeft by simp
    have kk: "rb (heap b) u" "\<not> red (heap b) u" "bh (heap b) u = bh (heap b) t" "rb (heap b) v" "bh (heap b) v = bh (heap b) t"
      "ctx_rb (heap b) c (bh (heap b) t + 1)" using c(1) InLeft exr by (auto split: if_splits)
    have "performs (heap b) (rr (heap b) (Some x)) (root b) (InRight v g # c) (Node tl z (Node tr x u))"
      using rr_performs [OF sP] t by simp
    from rotate_link_spec [where rot = rr, OF sP this] obtain b1 where b1:
      "rotate_link rr b (Some x) = Some b1"
      "sub_at (heap b1) (root b1) (InRight v g # c) (Some z) (Node tl z (Node tr x u))"
      "ext_at (heap b1) = ext_at (heap b)" "kv_at (heap b1) = kv_at (heap b)" "tree_size b1 = tree_size b" by blast
    note se = same_ext [OF b1(3)]
    obtain x1 where x1: "heap b1 x = Some x1" "parent x1 = Some z"
      using sub_atD [OF sub_at_rightI [OF b1(2)]] by (metis ctx_parent.simps(3))
    have tt: "rb (heap b) tl" "rb (heap b) tr" "bh (heap b) tl = bh (heap b) t" "bh (heap b) tr = bh (heap b) t"
      "\<not> red (heap b) tl" "\<not> red (heap b) tr" "ext_at (heap b) z = Some RED"
      using c(2,3) t by (auto split: if_splits)
    have new: "red (heap b1) (Node tr x u)" "rb (heap b1) (Node tr x u)" "bh (heap b1) (Node tr x u) = bh (heap b) t"
      using kk tt exr b1(3) se by simp_all
    have "repaired b1 (do {
         h \<leftarrow> set_ext (heap b1) (Some z) BLACK;
         h \<leftarrow> set_ext h (Some g) RED;
         b \<leftarrow> rotate_link rl (b1\<lparr>heap := h\<rparr>) (Some g);
         fix_insert rl rr b (root_ptr (Node tr x u)) }) (inorder (plug c (Node v g (Node tl z (Node tr x u)))))"
      by (rule blacken_right [OF sub_at_upR [OF b1(2)] _ new(1,2)])
        (use kk tt nv new(3) se in \<open>simp_all del: red.simps rb.simps bh.simps\<close>)
    then have r: "repaired b (do {
         h \<leftarrow> set_ext (heap b1) (Some z) BLACK;
         h \<leftarrow> set_ext h (Some g) RED;
         b \<leftarrow> rotate_link rl (b1\<lparr>heap := h\<rparr>) (Some g);
         fix_insert rl rr b (Some x) }) (inorder (plug (k # InRight v g # c) t))"
      using repaired_from b1(4,5) InLeft t by (simp add: inorder_plug)
    note f = fix_insert_unfold [OF p _ _ xn(1) ex xn(2) gn(1)]
    show ?thesis
      using r f gn ir xn(3) InLeft b1(1) x1 vx [symmetric] by simp
  qed
qed

text \<open>Every iteration either ends the repair or moves the pending node two levels up.\<close>

lemma advanced:
  fixes b :: "('k, 'v) rbt"
  assumes a: "advances rl rr b c t c' t'" and r: "\<And>b' :: ('k, 'v) rbt. pending b' c' t' \<Longrightarrow> repaired b' (fix_insert rl rr b' (root_ptr t')) xs"
  shows "repaired b (fix_insert rl rr b (root_ptr t)) xs"
proof -
  obtain b' where b': "fix_insert rl rr b (root_ptr t) = fix_insert rl rr b' (root_ptr t')" "pending b' c' t'"
     "kv_at (heap b') = kv_at (heap b)" "tree_size b' = tree_size b" using a by (auto simp: advances_def)
  show ?thesis using repaired_from [OF r [OF b'(2)] b'(3,4)] b'(1) by simp
qed

lemma red_crumb_not_last: "ctx_rb h (k # c) n \<Longrightarrow> top_red h (k # c) \<Longrightarrow> c \<noteq> []"
  by (cases k) auto

lemma top_red_crumb: "top_red h (k # c) = top_red h [k]"
  by (cases k) auto

lemma fix_insert_spec:
  "pending b c t \<Longrightarrow> repaired b (fix_insert rl rr b (root_ptr t)) (inorder (plug c t))"
proof (induction "length c" arbitrary: b c t rule: less_induct)
  case less
  show ?case
  proof (cases "c = [] \<or> \<not> top_red (heap b) c")
    case True
    then show ?thesis using repaired_stop [OF less.prems True] by simp
  next
    case False
    then obtain k1 c1 where c1: "c = k1 # c1" by (cases c) auto
    have y: "top_red (heap b) [k1]" using False c1 top_red_crumb by metis
    have "ctx_rb (heap b) c (bh (heap b) t)" using less.prems by (simp add: pending_def)
    then obtain k2 c2 where c2: "c1 = k2 # c2"
      using red_crumb_not_last [of "heap b" k1 c1] False c1 by (cases c1) auto
    note IH = less.hyps [of c2, unfolded c1 c2, simplified]
    show ?thesis
    proof (cases k2)
      case (InLeft g v)
      note p = less.prems [unfolded c1 c2 InLeft]
      show ?thesis
      proof (cases "red (heap b) v")
        case True
        then show ?thesis using advanced [OF fix_left_red [OF p y refl True] IH] c1 c2 InLeft by (cases k1) (simp_all add: inorder_plug)
      qed (use fix_left_black [OF p y] c1 c2 InLeft in simp)
    next
      case (InRight v g)
      note p = less.prems [unfolded c1 c2 InRight]
      show ?thesis
      proof (cases "red (heap b) v")
        case True
        then show ?thesis using advanced [OF fix_right_red [OF p y refl True] IH] c1 c2 InRight by (cases k1) (simp_all add: inorder_plug)
      qed (use fix_right_black [OF p y] c1 c2 InRight in simp)
    qed
  qed
qed

lemma insert_repair_spec:
  assumes "rb_inv h (plug c Leaf)" "bst_rep b (plug c (Node Leaf a Leaf))"
    and d: "data_at (heap b) = (data_at h)(a \<mapsto> (k, v, RED))"
  shows "\<exists>b' t'. insert_repair rl rr b (Some a) = Some b' \<and> bst_rep b' t' \<and> rb_inv (heap b') t' \<and>
     inorder t' = before c @ a # after c \<and> kv_at (heap b') = kv_at (heap b) \<and> tree_size b' = tree_size b"
proof -
  have s: "sub_at (heap b) (root b) c (Some a) (Node Leaf a Leaf)"
    using sub_at_plug_ext [OF assms(2)] by simp
  have e: "ext_at (heap b) x = ext_at h x" if "x \<noteq> a" for x
    using fun_cong [OF d, of x] that by (auto simp: data_at_def ext_at_def split: option.splits)
  have ea: "ext_at (heap b) a = Some RED"
    using fun_cong [OF d, of a] by (auto simp: data_at_def ext_at_def split: option.splits)
  have "a \<notin> set_ctx c" using sub_at_disjoint [OF s] by simp
  then have "same_colors (heap b) h (set_ctx c)" unfolding same_colors_def using e by metis
  then have "ctx_rb (heap b) c 0"
    using rb_unplug [of h c Leaf] assms(1) ctx_colors_cong by (auto simp: rb_inv_def)
  then have "pending b c (Node Leaf a Leaf)" using s ea by (simp add: pending_def)
  then obtain b1 t1 where b1: "fix_insert rl rr b (Some a) = Some b1" "bst_rep b1 t1" "rb (heap b1) t1"
      "inorder t1 = inorder (plug c (Node Leaf a Leaf))" "kv_at (heap b1) = kv_at (heap b)" "tree_size b1 = tree_size b"
    using fix_insert_spec by (fastforce simp: repaired_def)
  have "t1 \<noteq> Leaf" using b1(4) by (auto simp: inorder_plug)
  from paint_root [OF b1(2) this b1(3)] obtain h' where
    "set_ext (heap b1) (root b1) BLACK = Some h'" "bst_rep (b1\<lparr>heap := h'\<rparr>) t1" "rb_inv h' t1" "kv_at h' = kv_at (heap b1)"
    by blast
  then show ?thesis
    using b1 by (intro exI [of _ "b1\<lparr>heap := h'\<rparr>"] exI [of _ t1]) (simp add: insert_repair_def inorder_plug)
qed

end

text \<open>The small rotations write to the node, its parent, its child and its grandchildren.\<close>

lemma write_frame:
  "set_left h p q = Some h' \<Longrightarrow> p \<noteq> Some x \<Longrightarrow> h' x = h x"
  "set_right h p q = Some h' \<Longrightarrow> p \<noteq> Some x \<Longrightarrow> h' x = h x"
  "set_parent h p q = Some h' \<Longrightarrow> p \<noteq> Some x \<Longrightarrow> h' x = h x"
  "set_parent_nn h p q = Some h' \<Longrightarrow> p \<noteq> Some x \<Longrightarrow> h' x = h x"
  "set_ext h p e = Some h' \<Longrightarrow> p \<noteq> Some x \<Longrightarrow> h' x = h x"
  "replace_child h p q r = Some h' \<Longrightarrow> p \<noteq> Some x \<Longrightarrow> h' x = h x"
  by (auto simp: ptr_defs replace_child_def bind_eq_Some_conv split: option.splits if_splits)

lemma ctx_parent_frame: "x \<notin> set_ctx c \<Longrightarrow> ctx_parent c \<noteq> Some x"
  by (cases c rule: ctx_parent.cases) auto

lemma root_ptr_frame: "x \<notin> set_tree t \<Longrightarrow> root_ptr t \<noteq> Some x"
  using root_ptr_in by blast

lemma small_left_frame:
  assumes s: "sub_at h rt c p t" and r: "small_left_rotation h p = Some (h', v)" and x: "x \<notin> set_tree (plug c t)"
  shows "h' x = h x"
proof (cases t)
  case Leaf
  then show ?thesis using r sub_at_ptr [OF s] by (simp add: small_left_rotation_def)
next
  case t: (Node l a u)
  obtain n where n: "p = Some a" "h a = Some n" "parent n = ctx_parent c" "left_subtree n = root_ptr l" "right_subtree n = root_ptr u"
    using sub_atD [OF s [unfolded t]] .
  have f: "ctx_parent c \<noteq> Some x" "a \<noteq> x" "root_ptr l \<noteq> Some x" "root_ptr u \<noteq> Some x"
    using x t by (auto simp: set_tree_plug dest: root_ptr_in ctx_parent_frame)
  show ?thesis
  proof (cases u)
    case Leaf
    then show ?thesis using r n by (simp add: small_left_rotation_def)
  next
    case (Node d y e)
    obtain m where m: "h y = Some m" "left_subtree m = root_ptr d" "right_subtree m = root_ptr e"
      using sub_atD [OF sub_at_rightI [OF s [unfolded t], unfolded Node]] by auto
    have g: "y \<noteq> x" "root_ptr d \<noteq> Some x" "root_ptr e \<noteq> Some x"
      using x t Node by (auto simp: set_tree_plug dest: root_ptr_in)
    show ?thesis
      using r n m f g Node by (auto simp: small_left_rotation_def Let_def bind_eq_Some_conv dest!: write_frame [where x = x])
  qed
qed

lemma small_right_frame:
  assumes s: "sub_at h rt c p t" and r: "small_right_rotation h p = Some (h', v)" and x: "x \<notin> set_tree (plug c t)"
  shows "h' x = h x"
proof (cases t)
  case Leaf
  then show ?thesis using r sub_at_ptr [OF s] by (simp add: small_right_rotation_def)
next
  case t: (Node u a l)
  obtain n where n: "p = Some a" "h a = Some n" "parent n = ctx_parent c" "left_subtree n = root_ptr u" "right_subtree n = root_ptr l"
    using sub_atD [OF s [unfolded t]] .
  have f: "ctx_parent c \<noteq> Some x" "a \<noteq> x" "root_ptr l \<noteq> Some x" "root_ptr u \<noteq> Some x"
    using x t by (auto simp: set_tree_plug dest: root_ptr_in ctx_parent_frame)
  show ?thesis
  proof (cases u)
    case Leaf
    then show ?thesis using r n by (simp add: small_right_rotation_def)
  next
    case (Node d y e)
    obtain m where m: "h y = Some m" "left_subtree m = root_ptr d" "right_subtree m = root_ptr e"
      using sub_atD [OF sub_at_leftI [OF s [unfolded t], unfolded Node]] by auto
    have g: "y \<noteq> x" "root_ptr d \<noteq> Some x" "root_ptr e \<noteq> Some x"
      using x t Node by (auto simp: set_tree_plug dest: root_ptr_in)
    show ?thesis
      using r n m f g Node by (auto simp: small_right_rotation_def Let_def bind_eq_Some_conv dest!: write_frame [where x = x])
  qed
qed

lemmas small_rotation_frame = small_left_frame small_right_frame

interpretation small: rotations small_left_rotation small_right_rotation
  by unfold_locales (erule small_left_rotation_performs small_right_rotation_performs small_rotation_frame; assumption)+

interpretation coloring: ordered_policy std_less RED post_insert_rb rb_inv "\<lambda>_. True"
proof unfold_locales
  fix h :: "('a, 'b, node_color) heap" and c a and b :: "('a, 'b) rbt" and k v
  show "rb_inv h Leaf" by (simp add: rb_inv_def)
  assume "rb_inv h (plug c Leaf)" "bst_rep b (plug c (Node Leaf a Leaf))"
    "data_at (heap b) = (data_at h)(a \<mapsto> (k, v, RED))"
  from small.insert_repair_spec [OF this]
  show "\<exists>b' p t'. post_insert_rb b (Some a) = Some (b', p) \<and> bst_rep b' t' \<and>
      inorder t' = before c @ a # after c \<and> kv_at (heap b') = kv_at (heap b) \<and>
      tree_size b' = tree_size b \<and> rb_inv (heap b') t'"
    unfolding post_insert_rb_def by fastforce
qed

text \<open>A red-black tree is of logarithmic height.\<close>

lemma rb_size: "rb h t \<Longrightarrow> 2 ^ bh h t \<le> size t + 1"
  by (induction t) auto

lemma rb_height: "rb h t \<Longrightarrow> height t \<le> 2 * bh h t + (if red h t then 1 else 0)"
  by (induction t) (auto split: if_splits)

lemma rb_height_log: "rb_inv h t \<Longrightarrow> 2 ^ (height t div 2) \<le> size t + 1"
proof -
  assume r: "rb_inv h t"
  then have "height t div 2 \<le> bh h t" using rb_height [of h t] by (simp add: rb_inv_def)
  then have "(2::nat) ^ (height t div 2) \<le> 2 ^ bh h t" by simp
  also have "\<dots> \<le> size t + 1" using rb_size r by (auto simp: rb_inv_def)
  finally show ?thesis .
qed

subsection \<open>Properties\<close>

text \<open>C3: Insertion into a red-black tree sorted by std::less links the entry after those whose key is not
  greater and repairs the colours: no red node has a red child, every path has the same number of
  black nodes, the root is black, and so the height is at most logarithmic in the number of nodes.\<close>
theorem rb_insert_keeps_invariant:
  assumes "bst_rep b t" "rb_inv (heap b) t" "heap b a = None"
    and "sorted_entries std_less (entries (heap b) (inorder t))"
  shows "\<exists>b' t'. insert_copy std_less RED post_insert_rb b (Some a) (k, v) = Some (b', mk_iter (Some a), True) \<and>
     bst_rep b' t' \<and> rb_inv (heap b') t' \<and> 2 ^ (height t' div 2) \<le> size t' + 1 \<and>
     entries (heap b') (inorder t') = insert_entry std_less k v (entries (heap b) (inorder t)) \<and>
     sorted_entries std_less (entries (heap b') (inorder t'))"
  using coloring.inserted_entries [OF assms(1-3) TrueI assms(4), of k v] rb_height_log by blast

text \<open>A black root with two red children; inserting below the right one recolours all three.\<close>

definition rb_heap :: "(int, int, node_color) heap" where
  "rb_heap = (\<lambda>_. None)
     (0 \<mapsto> \<lparr>nd_key = 5, nd_val = 50, parent = None, left_subtree = Some 1, right_subtree = Some 2, ext = BLACK\<rparr>,
      1 \<mapsto> \<lparr>nd_key = 3, nd_val = 30, parent = Some 0, left_subtree = None, right_subtree = None, ext = RED\<rparr>,
      2 \<mapsto> \<lparr>nd_key = 9, nd_val = 90, parent = Some 0, left_subtree = None, right_subtree = None, ext = RED\<rparr>)"

definition rb_sample :: "(int, int) rbt" where
  "rb_sample = \<lparr>heap = rb_heap, root = Some 0, tree_size = 3\<rparr>"

definition rb_sample_tree :: "nat tree" where
  "rb_sample_tree = Node (Node Leaf 1 Leaf) 0 (Node Leaf 2 Leaf)"

lemma rb_sample: "bst_rep rb_sample rb_sample_tree" "rb_inv (heap rb_sample) rb_sample_tree"
  "sorted_entries std_less (entries (heap rb_sample) (inorder rb_sample_tree))"
  by (simp_all add: bst_rep_def rb_sample_def rb_sample_tree_def rb_heap_def rb_inv_def ext_at_def
      sorted_entries_def entries_def List.map_filter_simps kv_at_def std_less_def)

theorem rb_insert_keeps_invariant_witness:
  "\<exists>b' t'. insert_copy std_less RED post_insert_rb rb_sample (Some 7) (12, 120) = Some (b', mk_iter (Some 7), True) \<and>
     bst_rep b' t' \<and> rb_inv (heap b') t' \<and> entries (heap b') (inorder t') = [(3, 30), (5, 50), (9, 90), (12, 120)]"
proof -
  have "heap rb_sample 7 = None" by (simp add: rb_sample_def rb_heap_def)
  moreover have "insert_entry std_less 12 120 (entries (heap rb_sample) (inorder rb_sample_tree)) =
      [(3, 30), (5, 50), (9, 90), (12, 120)]"
    by (simp add: rb_sample_def rb_sample_tree_def rb_heap_def entries_def List.map_filter_simps kv_at_def
        insert_entry_def std_less_def)
  ultimately show ?thesis
    using rb_insert_keeps_invariant [OF rb_sample(1,2) _ rb_sample(3), of 7 12 120] by auto
qed

end
