(* ===== verification/RedBlackErase.thy ===== *)
theory RedBlackErase
  imports RedBlackTree
begin

text \<open>
  Erasing from the red-black tree (bst_impl::erase of red_black_tree.h): the surgery on the links, the
  loop that repairs the black heights, and the hook. The surgery is shown to take exactly the node out
  of the tree; the loop never starts from a null pointer, so the colours are right afterwards if and
  only if the node that is cut out was not a black leaf below the root.
\<close>

subsection \<open>Operations\<close>

text \<open>\<open>link_to(u) = v\<close> and transplant.\<close>

definition set_link :: "('k, 'v, 'e) bst \<Rightarrow> ptr \<Rightarrow> ptr \<Rightarrow> ('k, 'v, 'e) bst option" where
  "set_link b u v = do {
     un \<leftarrow> deref (heap b) u;
     (if parent un = nullptr then Some (b\<lparr>root := v\<rparr>)
      else do {
        pn \<leftarrow> deref (heap b) (parent un);
        h \<leftarrow> (if u = left_subtree pn then set_left (heap b) (parent un) v
              else set_right (heap b) (parent un) v);
        Some (b\<lparr>heap := h\<rparr>)
      })
   }"

definition transplant :: "('k, 'v, 'e) bst \<Rightarrow> ptr \<Rightarrow> ptr \<Rightarrow> ('k, 'v, 'e) bst option" where
  "transplant b u v = do {
     b \<leftarrow> set_link b u v;
     (if v = nullptr then Some b
      else do {
        un \<leftarrow> deref (heap b) u;
        h \<leftarrow> set_parent (heap b) v (parent un);
        Some (b\<lparr>heap := h\<rparr>)
      })
   }"

text \<open>A null pointer counts as black.\<close>

definition color_of :: "('k, 'v, node_color) heap \<Rightarrow> ptr \<Rightarrow> node_color option" where
  "color_of h p = (if p = nullptr then Some BLACK else do { n \<leftarrow> deref h p; Some (ext n) })"

definition child_is_black :: "('k, 'v, node_color) heap \<Rightarrow> ptr \<Rightarrow> bool \<Rightarrow> bool option" where
  "child_is_black h p on_right = do {
     c \<leftarrow> (if p = nullptr then Some nullptr
           else do { n \<leftarrow> deref h p; Some (if on_right then right_subtree n else left_subtree n) });
     col \<leftarrow> color_of h c;
     Some (col = BLACK)
   }"

definition get_sibling :: "('k, 'v, node_color) heap \<Rightarrow> ptr \<Rightarrow> ptr option" where
  "get_sibling h x = do {
     xn \<leftarrow> deref h x;
     pn \<leftarrow> deref h (parent xn);
     Some (if x = left_subtree pn then right_subtree pn else left_subtree pn)
   }"

definition set_ext_nn :: "('k, 'v, 'e) heap \<Rightarrow> ptr \<Rightarrow> 'e \<Rightarrow> ('k, 'v, 'e) heap option" where
  "set_ext_nn h p e = (if p = nullptr then Some h else set_ext h p e)"

text \<open>The two halves of the loop body, for a left and for a right child. The flag says that the loop goes
  on (with the parent); otherwise it is left by break.\<close>

definition repair_left ::
  "('k, 'v, node_color) rotation \<Rightarrow> ('k, 'v, node_color) rotation \<Rightarrow> ('k, 'v) rbt \<Rightarrow> ptr \<Rightarrow> ptr \<Rightarrow> (('k, 'v) rbt \<times> bool) option" where
  "repair_left rl rr b xp w = do {
     cw \<leftarrow> color_of (heap b) w;
     (b, w) \<leftarrow>
       (if cw = RED then do {
          h \<leftarrow> set_ext (heap b) w BLACK;
          h \<leftarrow> set_ext h xp RED;
          b \<leftarrow> rotate_link rl (b\<lparr>heap := h\<rparr>) xp;
          pn \<leftarrow> deref (heap b) xp;
          Some (b, right_subtree pn)
        } else Some (b, w));
     left_black \<leftarrow> child_is_black (heap b) w False;
     right_black \<leftarrow> child_is_black (heap b) w True;
     (if left_black \<and> right_black then do {
        h \<leftarrow> set_ext_nn (heap b) w RED;
        Some (b\<lparr>heap := h\<rparr>, True)
      } else do {
        (b, w) \<leftarrow>
          (if \<not> left_black \<and> right_black then do {
             wn \<leftarrow> deref (heap b) w;
             h \<leftarrow> set_ext (heap b) (left_subtree wn) BLACK;
             h \<leftarrow> set_ext h w RED;
             b \<leftarrow> rotate_link rr (b\<lparr>heap := h\<rparr>) w;
             pn \<leftarrow> deref (heap b) xp;
             Some (b, right_subtree pn)
           } else Some (b, w));
        pn \<leftarrow> deref (heap b) xp;
        h \<leftarrow> set_ext (heap b) w (ext pn);
        h \<leftarrow> set_ext h xp BLACK;
        wn \<leftarrow> deref h w;
        h \<leftarrow> set_ext_nn h (right_subtree wn) BLACK;
        b \<leftarrow> rotate_link rl (b\<lparr>heap := h\<rparr>) xp;
        Some (b, False)
      })
   }"

text \<open>Here the third case rotates at the parent, where the left half rotates at the sibling.\<close>

definition repair_right ::
  "('k, 'v, node_color) rotation \<Rightarrow> ('k, 'v, node_color) rotation \<Rightarrow> ('k, 'v) rbt \<Rightarrow> ptr \<Rightarrow> ptr \<Rightarrow> (('k, 'v) rbt \<times> bool) option" where
  "repair_right rl rr b xp w = do {
     cw \<leftarrow> color_of (heap b) w;
     (b, w) \<leftarrow>
       (if cw = RED then do {
          h \<leftarrow> set_ext (heap b) w BLACK;
          h \<leftarrow> set_ext h xp RED;
          b \<leftarrow> rotate_link rr (b\<lparr>heap := h\<rparr>) xp;
          pn \<leftarrow> deref (heap b) xp;
          Some (b, left_subtree pn)
        } else Some (b, w));
     left_black \<leftarrow> child_is_black (heap b) w False;
     right_black \<leftarrow> child_is_black (heap b) w True;
     (if left_black \<and> right_black then do {
        h \<leftarrow> set_ext_nn (heap b) w RED;
        Some (b\<lparr>heap := h\<rparr>, True)
      } else do {
        (b, w) \<leftarrow>
          (if \<not> right_black \<and> left_black then do {
             wn \<leftarrow> deref (heap b) w;
             h \<leftarrow> set_ext (heap b) (right_subtree wn) BLACK;
             h \<leftarrow> set_ext h w RED;
             b \<leftarrow> rotate_link rl (b\<lparr>heap := h\<rparr>) xp;
             pn \<leftarrow> deref (heap b) xp;
             Some (b, left_subtree pn)
           } else Some (b, w));
        pn \<leftarrow> deref (heap b) xp;
        h \<leftarrow> set_ext (heap b) w (ext pn);
        h \<leftarrow> set_ext h xp BLACK;
        wn \<leftarrow> deref h w;
        h \<leftarrow> set_ext h (left_subtree wn) BLACK;
        b \<leftarrow> rotate_link rr (b\<lparr>heap := h\<rparr>) xp;
        Some (b, False)
      })
   }"

partial_function (option) fix_erase ::
  "('k, 'v, node_color) rotation \<Rightarrow> ('k, 'v, node_color) rotation \<Rightarrow> ('k, 'v) rbt \<Rightarrow> ptr \<Rightarrow> (('k, 'v) rbt \<times> ptr) option" where
  "fix_erase rl rr b x =
     (if x = root b then Some (b, x)
      else do {
        col \<leftarrow> color_of (heap b) x;
        (if col \<noteq> BLACK then Some (b, x)
         else do {
           xp \<leftarrow> (if x = nullptr then Some nullptr else do { xn \<leftarrow> deref (heap b) x; Some (parent xn) });
           (if xp = nullptr then do {
              h \<leftarrow> set_ext_nn (heap b) x BLACK;
              Some (b\<lparr>heap := h\<rparr>, x)
            } else do {
              w \<leftarrow> get_sibling (heap b) x;
              (if w = nullptr then fix_erase rl rr b xp
               else do {
                 pn \<leftarrow> deref (heap b) xp;
                 (b, again) \<leftarrow> (if x = left_subtree pn then repair_left rl rr b xp w else repair_right rl rr b xp w);
                 (if again then fix_erase rl rr b xp else Some (b, x))
               })
            })
         })
      })"

text \<open>The predecessor \<open>y\<close> leaves its place, and takes the place of \<open>z\<close> with its colour.\<close>

definition detach_pred :: "('k, 'v, 'e) bst \<Rightarrow> ptr \<Rightarrow> ptr \<Rightarrow> ('k, 'v, 'e) node \<Rightarrow> ('k, 'v, 'e) bst option" where
  "detach_pred b z y yn =
     (if parent yn = z then do {
        h \<leftarrow> set_parent_nn (heap b) (left_subtree yn) y;
        Some (b\<lparr>heap := h\<rparr>)
      } else do {
        b \<leftarrow> transplant b y (left_subtree yn);
        zn \<leftarrow> deref (heap b) z;
        h \<leftarrow> set_left (heap b) y (left_subtree zn);
        yn \<leftarrow> deref h y;
        h \<leftarrow> set_parent h (left_subtree yn) y;
        Some (b\<lparr>heap := h\<rparr>)
      })"

definition attach_pred :: "('k, 'v, 'e) bst \<Rightarrow> ptr \<Rightarrow> ptr \<Rightarrow> ('k, 'v, 'e) bst option" where
  "attach_pred b z y = do {
     b \<leftarrow> transplant b z y;
     zn \<leftarrow> deref (heap b) z;
     h \<leftarrow> set_right (heap b) y (right_subtree zn);
     yn \<leftarrow> deref h y;
     h \<leftarrow> set_parent h (right_subtree yn) y;
     zn \<leftarrow> deref h z;
     h \<leftarrow> set_ext h y (ext zn);
     Some (b\<lparr>heap := h\<rparr>)
   }"

text \<open>The links without the node: the tree, the node or null that took the place of the node cut out,
  and the colour of that node.\<close>

definition unlink_rb :: "('k, 'v, 'e) bst \<Rightarrow> ptr \<Rightarrow> (('k, 'v, 'e) bst \<times> ptr \<times> 'e) option" where
  "unlink_rb b z = do {
     zn \<leftarrow> deref (heap b) z;
     (if left_subtree zn = nullptr \<or> right_subtree zn = nullptr then do {
        let x = (if left_subtree zn \<noteq> nullptr then left_subtree zn else right_subtree zn);
        b \<leftarrow> transplant b z x;
        Some (b, x, ext zn)
      } else do {
        y \<leftarrow> go_right (heap b) (left_subtree zn);
        yn \<leftarrow> deref (heap b) y;
        let oc = ext yn;
        let x = left_subtree yn;
        b \<leftarrow> detach_pred b z y yn;
        b \<leftarrow> attach_pred b z y;
        Some (b, x, oc)
      })
   }"

definition erase_rb :: "('k, 'v) rbt \<Rightarrow> ptr \<Rightarrow> (exn + ('k, 'v) rbt \<times> ptr) option" where
  "erase_rb b z =
     (if z = nullptr then Some (Inl (OutOfRange ''invalid iterator''))
      else do {
        (b, x, oc) \<leftarrow> unlink_rb b z;
        b \<leftarrow> delete_node b z;
        let b = b\<lparr>tree_size := tree_size b - 1\<rparr>;
        (b, x) \<leftarrow>
          (if oc = BLACK then do {
             (b, x) \<leftarrow> fix_erase small_left_rotation small_right_rotation b x;
             h \<leftarrow> set_ext_nn (heap b) x BLACK;
             Some (b\<lparr>heap := h\<rparr>, x)
           } else Some (b, x));
        Some (Inr (b, if x \<noteq> nullptr then x else root b))
      })"

subsection \<open>The surgery\<close>

lemma set_link_spec:
  assumes r: "rep_ctx (heap b) (root b) c (Some u)" and d: "distinct (before c @ after c)" and u: "u \<notin> set_ctx c"
    and n: "heap b u = Some un" "parent un = ctx_parent c"
  shows "\<exists>b'. set_link b (Some u) v = Some b' \<and> rep_ctx (heap b') (root b') c v \<and>
     (\<forall>x. x \<notin> set_ctx c \<longrightarrow> heap b' x = heap b x) \<and> data_at (heap b') = data_at (heap b) \<and> tree_size b' = tree_size b"
proof (cases c)
  case Nil
  then show ?thesis using r n by (intro exI [of _ "b\<lparr>root := v\<rparr>"]) (simp add: set_link_def)
next
  case (Cons k c0)
  show ?thesis
  proof (cases k)
    case (InLeft x r)
    then obtain xn where x: "heap b x = Some xn" "parent xn = ctx_parent c0" "left_subtree xn = Some u"
      "rep (heap b) (Some x) (right_subtree xn) r" "rep_ctx (heap b) (root b) c0 (Some x)"
      using r Cons by (auto split: option.splits)
    have "x \<notin> set_tree r" "x \<notin> set_ctx c0" using d Cons InLeft by (auto simp: set_before_after [symmetric])
    then show ?thesis
      using Cons InLeft x n
      by (intro exI [of _ "b\<lparr>heap := (heap b)(x \<mapsto> xn\<lparr>left_subtree := v\<rparr>)\<rparr>"]) (auto simp: set_link_def data_at_def)
  next
    case (InRight l x)
    then obtain xn where x: "heap b x = Some xn" "parent xn = ctx_parent c0" "right_subtree xn = Some u"
      "rep (heap b) (Some x) (left_subtree xn) l" "rep_ctx (heap b) (root b) c0 (Some x)"
      using r Cons by (auto split: option.splits)
    have "x \<notin> set_tree l" "x \<notin> set_ctx c0" using d Cons InRight by (auto simp: set_before_after [symmetric])
    moreover have "left_subtree xn \<noteq> Some u" using x(4) u Cons InRight ptr_notin [of "heap b" "Some x" _ l "{u}"] by auto
    ultimately show ?thesis
      using Cons InRight x n
      by (intro exI [of _ "b\<lparr>heap := (heap b)(x \<mapsto> xn\<lparr>right_subtree := v\<rparr>)\<rparr>"]) (auto simp: set_link_def data_at_def)
  qed
qed

lemma transplant_spec:
  assumes r: "rep_ctx (heap b) (root b) c (Some u)" and d: "distinct (before c @ after c)" and u: "u \<notin> set_ctx c"
    and n: "heap b u = Some un" "parent un = ctx_parent c"
    and s: "rep (heap b) q v s" "set_tree s \<inter> set_ctx c = {}" "distinct (inorder s)"
  shows "\<exists>b'. transplant b (Some u) v = Some b' \<and> rep_ctx (heap b') (root b') c v \<and> rep (heap b') (ctx_parent c) v s \<and>
     (\<forall>x. x \<notin> set_ctx c \<longrightarrow> v \<noteq> Some x \<longrightarrow> heap b' x = heap b x) \<and> data_at (heap b') = data_at (heap b) \<and>
     tree_size b' = tree_size b"
proof -
  obtain b1 where b1: "set_link b (Some u) v = Some b1" "rep_ctx (heap b1) (root b1) c v"
     "\<forall>x. x \<notin> set_ctx c \<longrightarrow> heap b1 x = heap b x" "data_at (heap b1) = data_at (heap b)" "tree_size b1 = tree_size b"
    using set_link_spec [OF r d u n] by blast
  have s1: "rep (heap b1) q v s" using s b1(3) by (subst rep_cong [of _ "heap b1" "heap b"]) (auto simp: disjoint_iff)
  have pn: "set_parent_nn (heap b1) v (ctx_parent c) = Some (repar (heap b1) v (ctx_parent c))"
    using set_parent_nn_repar [OF s1] .
  have "transplant b (Some u) v = Some (b1\<lparr>heap := repar (heap b1) v (ctx_parent c)\<rparr>)"
    using b1(1,3) u n pn by (cases v) (simp_all add: transplant_def set_parent_nn_def)
  moreover have "v \<notin> Some ` set_ctx c" using ptr_notin [OF s(1,2)] .
  ultimately show ?thesis
    using b1 rep_repar_same [OF s1 s(3)]
    by (intro exI [of _ "b1\<lparr>heap := repar (heap b1) v (ctx_parent c)\<rparr>"]) auto
qed

text \<open>The way from the top of a tree to its last node; \<open>y\<close> is cut out of \<open>l = plug d (Node m y Leaf)\<close>.\<close>

lemma around_append: "before (d @ c) = before c @ before d" "after (d @ c) = after d @ after c"
  "set_ctx (d @ c) = set_ctx d \<union> set_ctx c" "d \<noteq> [] \<Longrightarrow> ctx_parent (d @ c) = ctx_parent d"
proof -
  show "before (d @ c) = before c @ before d" by (induction d rule: before.induct) simp_all
  show "after (d @ c) = after d @ after c" by (induction d rule: after.induct) simp_all
  show "set_ctx (d @ c) = set_ctx d \<union> set_ctx c" by (induction d rule: set_ctx.induct) auto
  show "d \<noteq> [] \<Longrightarrow> ctx_parent (d @ c) = ctx_parent d" by (cases d rule: ctx_parent.cases) simp_all
qed

lemma ctx_parent_in: "c \<noteq> [] \<Longrightarrow> \<exists>x \<in> set_ctx c. ctx_parent c = Some x"
  by (cases c rule: ctx_parent.cases) auto

lemma last_split:
  "l \<noteq> Leaf \<Longrightarrow> \<exists>d m y. l = plug d (Node m y Leaf) \<and> after d = []"
proof (induction l)
  case (Node l a r)
  show ?case
  proof (cases "r = Leaf")
    case True
    then show ?thesis by (intro exI [of _ "[]"] exI [of _ l] exI [of _ a]) simp
  next
    case False
    then obtain d m y where "r = plug d (Node m y Leaf)" "after d = []" using Node.IH(2) by blast
    then show ?thesis
      by (intro exI [of _ "d @ [InRight l a]"] exI [of _ m] exI [of _ y]) (simp add: plug_append around_append)
  qed
qed simp

lemma plug_Leaf: "plug c t = Leaf \<longleftrightarrow> c = [] \<and> t = Leaf"
  by (induction c t rule: plug.induct) simp_all

lemma repar_id: "rep h q p t \<Longrightarrow> repar h p q = h"
  by (cases t) (auto simp: repar_def split: option.splits intro!: fun_upd_idem)

text \<open>The tree while the node \<open>z\<close> still hangs in it and its predecessor \<open>y\<close> carries what is left of the
  left subtree.\<close>

definition detached :: "('k, 'v, 'e) bst \<Rightarrow> ctx \<Rightarrow> nat \<Rightarrow> nat tree \<Rightarrow> nat \<Rightarrow> nat tree \<Rightarrow> bool" where
  "detached b c z r y l' \<longleftrightarrow> rep_ctx (heap b) (root b) c (Some z) \<and>
     (\<exists>zn q. heap b z = Some zn \<and> parent zn = ctx_parent c \<and> right_subtree zn = root_ptr r \<and>
       rep (heap b) (Some z) (root_ptr r) r \<and> rep (heap b) q (Some y) (Node l' y Leaf))"

lemma node_at:
  assumes s: "sub_at h rt c (Some z) (Node l z r)"
  obtains n where "h z = Some n" "parent n = ctx_parent c" "left_subtree n = root_ptr l" "right_subtree n = root_ptr r"
    "rep_ctx h rt c (Some z)" "rep h (Some z) (root_ptr l) l" "rep h (Some z) (root_ptr r) r"
proof -
  obtain n where n: "h z = Some n" "parent n = ctx_parent c" "left_subtree n = root_ptr l" "right_subtree n = root_ptr r"
    using sub_atD [OF s] by metis
  moreover have "rep h (Some z) (left_subtree n) l" "rep h (Some z) (right_subtree n) r" "rep_ctx h rt c (Some z)"
    using s n(1) by (auto simp: sub_at_def)
  ultimately show ?thesis using that by simp
qed

lemma detach_pred_spec:
  assumes s: "sub_at (heap b) (root b) c (Some z) (Node (plug d (Node m y Leaf)) z r)" and a: "after d = []"
    and yn: "heap b y = Some yn"
  shows "\<exists>b'. detach_pred b (Some z) (Some y) yn = Some b' \<and> detached b' c z r y (plug d m) \<and>
     data_at (heap b') = data_at (heap b) \<and> tree_size b' = tree_size b \<and>
     (\<forall>x. x \<notin> set_tree (plug c (Node (plug d (Node m y Leaf)) z r)) \<longrightarrow> heap b' x = heap b x)"
proof -
  define cy where "cy = d @ InLeft z r # c"
  have "bst_rep b (plug cy (Node m y Leaf))" using sub_at_bst [OF s] by (simp add: cy_def plug_append)
  from sub_at_plug_ext [OF this] have sy: "sub_at (heap b) (root b) cy (Some y) (Node m y Leaf)" by simp
  then have y: "parent yn = ctx_parent cy" "left_subtree yn = root_ptr m" "right_subtree yn = None"
    using yn by (metis option.inject root_ptr.simps(1) sub_atD)+
  have m: "rep (heap b) (Some y) (root_ptr m) m" using sy yn y by (simp add: sub_at_def)
  have dy: "distinct (inorder (plug cy (Node m y Leaf)))" using sy by (simp add: sub_at_def)
  note D = dy [unfolded cy_def inorder_plug around_append]
  show ?thesis
  proof (cases "d = []")
    case True
    then have p: "parent yn = Some z" using y by (simp add: cy_def)
    have "set_parent_nn (heap b) (root_ptr m) (Some y) = Some (heap b)"
      using set_parent_nn_repar [OF m] repar_id [OF m] by simp
    then have "detach_pred b (Some z) (Some y) yn = Some b" using p y by (simp add: detach_pred_def)
    moreover have "detached b c z r y (plug d m)"
      using node_at [OF s] True yn y m by (fastforce simp: detached_def)
    ultimately show ?thesis by blast
  next
    case False
    obtain x where "x \<in> set_ctx d" "ctx_parent cy = Some x"
      using ctx_parent_in [OF False] False by (auto simp: cy_def around_append)
    then have p: "parent yn \<noteq> Some z" using y(1) D by (auto simp: set_before_after [symmetric])
    have dis: "distinct (before cy @ after cy)" "y \<notin> set_ctx cy" "set_tree m \<inter> set_ctx cy = {}" "distinct (inorder m)"
      "y \<notin> set_tree m"
      using dy by (auto simp: inorder_plug set_before_after [symmetric])
    have rc: "rep_ctx (heap b) (root b) cy (Some y)" using sy by (simp add: sub_at_def)
    obtain b1 where b1: "transplant b (Some y) (root_ptr m) = Some b1" "rep_ctx (heap b1) (root b1) cy (root_ptr m)"
      "rep (heap b1) (ctx_parent cy) (root_ptr m) m"
      "\<forall>x. x \<notin> set_ctx cy \<longrightarrow> root_ptr m \<noteq> Some x \<longrightarrow> heap b1 x = heap b x" "data_at (heap b1) = data_at (heap b)"
      "tree_size b1 = tree_size b"
      using transplant_spec [OF rc dis(1,2) yn y(1) m dis(3,4)] by blast
    have y1: "heap b1 y = Some yn" using b1(4) dis(2,5) yn root_ptr_in [of m y] by auto
    have "sub_at (heap b1) (root b1) cy (root_ptr m) m"
      using b1(2,3) dy by (auto simp: sub_at_def inorder_plug)
    then have "bst_rep b1 (plug c (Node (plug d m) z r))"
      using sub_at_bst [of b1 cy "root_ptr m" m] by (simp add: cy_def plug_append)
    from sub_at_plug_ext [OF this] have s1: "sub_at (heap b1) (root b1) c (Some z) (Node (plug d m) z r)" by simp
    note D1 = sub_at_disjoint [OF s1]
    obtain w where w: "root_ptr (plug d m) = Some w" "w \<in> set_tree (plug d m)"
      using False root_ptr_in plug_Leaf by (cases "root_ptr (plug d m)") auto
    obtain zn where z1: "heap b1 z = Some zn" "parent zn = ctx_parent c" "left_subtree zn = Some w" "right_subtree zn = root_ptr r"
      "rep_ctx (heap b1) (root b1) c (Some z)" "rep (heap b1) (Some z) (Some w) (plug d m)" "rep (heap b1) (Some z) (root_ptr r) r"
      using node_at [OF s1] w(1) by metis
    have ny: "y \<noteq> z" "y \<notin> set_tree (plug d m)" "y \<notin> set_tree r" "y \<notin> set_ctx c"
      using D by (auto simp: set_tree_plug set_before_after [symmetric])
    have nw: "w \<noteq> z" "w \<noteq> y" "w \<notin> set_tree r" "w \<notin> set_ctx c" using w(2) D1 ny by auto
    define h2 where "h2 = (heap b1)(y \<mapsto> yn\<lparr>left_subtree := Some w\<rparr>)"
    define h3 where "h3 = repar h2 (Some w) (Some y)"
    obtain wn where "heap b1 w = Some wn" using rep_alloc [OF z1(6) w(2)] by auto
    then have h3: "set_parent h2 (Some w) (Some y) = Some h3" using nw by (simp add: h3_def h2_def repar_def)
    have "detach_pred b (Some z) (Some y) yn = Some (b1\<lparr>heap := h3\<rparr>)"
      using p b1(1) y(2) y1 z1(1,3) h3 by (simp add: detach_pred_def h2_def)
    moreover have "rep h3 (Some y) (Some w) (plug d m)"
      unfolding h3_def by (rule rep_repar_same [of _ "Some z"]) (use z1(6) ny D1 in \<open>simp_all add: h2_def\<close>)
    then have "rep h3 (parent yn) (Some y) (Node (plug d m) y Leaf)"
      using nw y(3) by (simp add: h3_def h2_def)
    then have "detached (b1\<lparr>heap := h3\<rparr>) c z r y (plug d m)"
      using z1 nw ny by (auto simp: detached_def h3_def h2_def image_iff)
    moreover have "data_at h3 = data_at (heap b)" using b1(5) y1 by (simp add: h3_def h2_def)
    moreover have "h3 x = heap b x" if "x \<notin> set_tree (plug c (Node (plug d (Node m y Leaf)) z r))" for x
    proof -
      have "x \<notin> set_ctx cy" "root_ptr m \<noteq> Some x" "x \<noteq> y" "x \<noteq> w"
        using that w(2) root_ptr_frame [of x m] by (auto simp: cy_def around_append set_tree_plug)
      then show ?thesis using b1(4) by (simp add: h3_def h2_def)
    qed
    ultimately show ?thesis using b1(6) by (intro exI [of _ "b1\<lparr>heap := h3\<rparr>"]) simp
  qed
qed

lemma attach_pred_spec:
  assumes t: "detached b c z r y l'" and r: "r \<noteq> Leaf" and d: "distinct (inorder (plug c (Node (Node l' y Leaf) z r)))"
  shows "\<exists>b' zn. attach_pred b (Some z) (Some y) = Some b' \<and> sub_at (heap b') (root b') c (Some y) (Node l' y r) \<and>
     heap b z = Some zn \<and> heap b' z = Some zn \<and> ext_at (heap b') = (ext_at (heap b))(y \<mapsto> ext zn) \<and>
     kv_at (heap b') = kv_at (heap b) \<and> tree_size b' = tree_size b \<and>
     (\<forall>x. x \<notin> set_tree (plug c (Node (Node l' y Leaf) z r)) \<longrightarrow> heap b' x = heap b x)"
proof -
  note D = d [unfolded inorder_plug]
  obtain zn q where z: "rep_ctx (heap b) (root b) c (Some z)" "heap b z = Some zn" "parent zn = ctx_parent c"
    "right_subtree zn = root_ptr r" "rep (heap b) (Some z) (root_ptr r) r" "rep (heap b) q (Some y) (Node l' y Leaf)"
    using t by (auto simp: detached_def)
  have dis: "distinct (before c @ after c)" "z \<notin> set_ctx c" "set_tree (Node l' y Leaf) \<inter> set_ctx c = {}"
      "distinct (inorder (Node l' y Leaf))"
    using D by (auto simp: set_before_after [symmetric])
  obtain b1 where b1: "transplant b (Some z) (Some y) = Some b1" "rep_ctx (heap b1) (root b1) c (Some y)"
    "rep (heap b1) (ctx_parent c) (Some y) (Node l' y Leaf)"
    "\<forall>x. x \<notin> set_ctx c \<longrightarrow> Some y \<noteq> Some x \<longrightarrow> heap b1 x = heap b x" "data_at (heap b1) = data_at (heap b)"
    "tree_size b1 = tree_size b"
    using transplant_spec [OF z(1) dis(1,2) z(2,3,6) dis(3,4)] by blast
  obtain w where w: "root_ptr r = Some w" "w \<in> set_tree r" using r root_ptr_in by (cases r) auto
  have ne: "z \<noteq> y" "w \<noteq> y" "w \<noteq> z" "y \<notin> set_ctx c" "z \<notin> set_ctx c" "w \<notin> set_ctx c" "y \<notin> set_tree l'"
    "w \<notin> set_tree l'" "y \<notin> set_tree r" "z \<notin> set_tree r"
    using D w(2) by (auto simp: set_before_after [symmetric])
  have z1: "heap b1 z = Some zn" "rep (heap b1) (Some z) (Some w) r"
  proof -
    show "heap b1 z = Some zn" using b1(4) ne z(2) by simp
    have "rep (heap b1) (Some z) (root_ptr r) r = rep (heap b) (Some z) (root_ptr r) r"
      using b1(4) D by (intro rep_cong) (auto simp: set_before_after [symmetric])
    then show "rep (heap b1) (Some z) (Some w) r" using z(5) w(1) by simp
  qed
  obtain yn where y1: "heap b1 y = Some yn" "parent yn = ctx_parent c" "rep (heap b1) (Some y) (left_subtree yn) l'"
    using b1(3) by (auto split: option.splits)
  define h2 where "h2 = (heap b1)(y \<mapsto> yn\<lparr>right_subtree := Some w\<rparr>)"
  define h3 where "h3 = repar h2 (Some w) (Some y)"
  define h4 where "h4 = put_ext h3 y (ext zn)"
  obtain wn where wn: "heap b1 w = Some wn" using rep_alloc [OF z1(2) w(2)] by auto
  then have s3: "set_parent h2 (Some w) (Some y) = Some h3" using ne by (simp add: h3_def h2_def repar_def)
  have y3: "h3 y = Some (yn\<lparr>right_subtree := Some w\<rparr>)" and z3: "h3 z = Some zn" using ne z1(1) by (simp_all add: h3_def h2_def)
  have "attach_pred b (Some z) (Some y) = Some (b1\<lparr>heap := h4\<rparr>)"
    using b1(1) z1(1) z(4) w(1) y1(1) s3 y3 z3 by (simp add: attach_pred_def h2_def [symmetric] h4_def del: set_parent_Some)
  moreover have "rep h3 (Some y) (Some w) r"
    unfolding h3_def by (rule rep_repar_same [of _ "Some z"]) (use z1(2) ne D in \<open>simp_all add: h2_def\<close>)
  then have "rep h3 (ctx_parent c) (Some y) (Node l' y r)"
    using y1 y3 ne by (simp add: h3_def h2_def image_iff)
  then have "sub_at h3 (root b1) c (Some y) (Node l' y r)"
    using b1(2) ne D unfolding sub_at_def by (auto simp: inorder_plug h3_def h2_def image_iff)
  then have "sub_at h4 (root b1) c (Some y) (Node l' y r)" by (simp add: h4_def)
  moreover have "data_at h3 = data_at (heap b)" using b1(5) y1(1) by (simp add: h3_def h2_def)
  then have "ext_at h4 = (ext_at (heap b))(y \<mapsto> ext zn)" "kv_at h4 = kv_at (heap b)"
    using data_at_ext [of h3 "heap b"] data_at_kv_all [of h3 "heap b"] y3 by (simp_all add: h4_def)
  moreover have "h4 z = Some zn" using z3 ne by (simp add: h4_def put_ext_other)
  moreover have "h4 x = heap b x" if "x \<notin> set_tree (plug c (Node (Node l' y Leaf) z r))" for x
  proof -
    have "x \<notin> set_ctx c" "x \<noteq> y" "x \<noteq> w" using that w(2) by (auto simp: set_tree_plug)
    then show ?thesis using b1(4) by (simp add: h4_def h3_def h2_def put_ext_other)
  qed
  ultimately show ?thesis using z(2) b1(6) by (intro exI [of _ "b1\<lparr>heap := h4\<rparr>"] exI [of _ zn]) simp
qed

subsection \<open>The colours without the node\<close>

lemma rb_inv_plug:
  "rb_inv h (plug c t) \<longleftrightarrow> ctx_rb h c (bh h t) \<and> rb h t \<and> (if c = [] then \<not> red h t else red h t \<longrightarrow> \<not> top_red h c)"
  unfolding rb_inv_def using rb_plug [of h c "bh h t" t] rb_unplug [of h c t] by (cases "c = []") auto

lemma rb_inv_cong:
  assumes "same_colors h' h (set_ctx c \<union> set_tree l \<union> set_tree r)" and "ext_at h' y = ext_at h z"
  shows "rb_inv h' (plug c (Node l y r)) = rb_inv h (plug c (Node l z r))"
proof -
  have "same_colors h' h (set_tree l)" "same_colors h' h (set_tree r)" "same_colors h' h (set_ctx c)" using assms(1) by simp_all
  note cc = colors_cong [OF this(1)] colors_cong [OF this(2)] ctx_colors_cong [OF this(3)]
  show ?thesis using cc assms(2) by (simp add: rb_inv_plug)
qed

lemma bh_zero: "rb h s \<Longrightarrow> bh h s = 0 \<Longrightarrow> s = Leaf \<or> (\<exists>x. s = Node Leaf x Leaf \<and> ext_at h x = Some RED)"
proof (cases s)
  case (Node l x r)
  assume a: "rb h s" "bh h s = 0"
  then have x: "ext_at h x = Some RED" "bh h l = 0" "bh h r = 0" "rb h l" "rb h r" "\<not> red h l" "\<not> red h r"
    using Node by (auto split: if_splits)
  have "t = Leaf" if "rb h t" "bh h t = 0" "\<not> red h t" for t
    using that by (cases t) (auto split: if_splits)
  then show ?thesis using x Node by blast
qed simp

definition paint :: "('k, 'v, node_color) heap \<Rightarrow> nat tree \<Rightarrow> ('k, 'v, node_color) heap" where
  "paint h s = (case root_ptr s of None \<Rightarrow> h | Some x \<Rightarrow> put_ext h x BLACK)"

lemma ctx_rb_hole: "c \<noteq> [] \<Longrightarrow> ctx_rb h c k \<Longrightarrow> ctx_rb h c k' \<Longrightarrow> k = k'"
  by (cases c rule: ctx_parent.cases) auto

lemma cut_colors:
  assumes i: "rb_inv h (plug c (Node s1 y s2))" and one: "s1 = Leaf \<or> s2 = Leaf" and s: "s = (if s1 \<noteq> Leaf then s1 else s2)"
    and d: "set_tree s \<inter> set_ctx c = {}" and a: "\<And>x. x \<in> set_tree s \<Longrightarrow> h x \<noteq> None"
  shows "s = Leaf \<or> red h s \<and> ext_at h y \<noteq> Some RED"
    and "rb_inv (paint h s) (plug c s) \<longleftrightarrow> s \<noteq> Leaf \<or> ext_at h y = Some RED \<or> c = []"
proof -
  have n: "rb h (Node s1 y s2)" "ctx_rb h c (bh h (Node s1 y s2))"
    using i [unfolded rb_inv_plug] by blast+
  have s': "rb h s" "bh h s = 0" using n(1) one s by auto
  have rs: "red h s \<Longrightarrow> ext_at h y \<noteq> Some RED" using n(1) one s by (auto split: if_splits)
  show leaf: "s = Leaf \<or> red h s \<and> ext_at h y \<noteq> Some RED" using bh_zero [OF s'] rs by auto
  show "rb_inv (paint h s) (plug c s) \<longleftrightarrow> s \<noteq> Leaf \<or> ext_at h y = Some RED \<or> c = []"
  proof (cases "s = Leaf")
    case True
    have b: "bh h (Node s1 y s2) = (if ext_at h y = Some RED then 0 else 1)" using True one s by (auto split: if_splits)
    have "ctx_rb h c 0 \<longleftrightarrow> ext_at h y = Some RED \<or> c = []"
      using ctx_rb_hole [of c h 0 1] n(2) b by (cases "c = []") (auto split: if_splits)
    then show ?thesis using True by (simp add: rb_inv_plug paint_def)
  next
    case False
    then obtain x where x: "s = Node Leaf x Leaf" using bh_zero [OF s'] by blast
    have y: "ext_at h y \<noteq> Some RED" using leaf False by blast
    have b: "bh h (Node s1 y s2) = 1" using one s s'(2) y n(1) by (auto split: if_splits)
    have e: "ext_at (paint h s) = (ext_at h)(x \<mapsto> BLACK)" using a [of x] x by (simp add: paint_def)
    have "same_colors (paint h s) h (set_ctx c)" using d x unfolding same_colors_def e by auto
    then have "ctx_rb (paint h s) c 1" using ctx_colors_cong n(2) b by metis
    then show ?thesis using x e by (simp add: rb_inv_plug)
  qed
qed

lemma fix_erase_stop:
  assumes "s = Leaf \<or> red (heap b) s"
  shows "fix_erase rl rr b (root_ptr s) = Some (b, root_ptr s)"
proof (cases s)
  case Leaf
  then show ?thesis by (subst fix_erase.simps) (simp add: color_of_def set_ext_nn_def)
next
  case (Node l x r)
  then obtain n where "heap b x = Some n" "ext n = RED" using assms by (auto simp: ext_at_def)
  then show ?thesis using Node by (subst fix_erase.simps) (simp add: color_of_def)
qed

lemma set_ext_nn_paint:
  "(\<And>x. x \<in> set_tree s \<Longrightarrow> h x \<noteq> None) \<Longrightarrow> set_ext_nn h (root_ptr s) BLACK = Some (paint h s)"
  by (cases s) (fastforce simp: set_ext_nn_def paint_def)+

text \<open>What is left to do after the surgery: freeing the node and painting.\<close>

lemma erase_rb_finish:
  assumes u: "unlink_rb b (Some z) = Some (b1, root_ptr s, oc)" and r: "sub_at (heap b1) (root b1) c (root_ptr t) t"
    and z: "heap b1 z \<noteq> None" "z \<notin> set_ctx c" "z \<notin> set_tree t" and s: "set_tree s \<subseteq> set_tree t"
    and col: "s = Leaf \<or> red (heap b1) s \<and> oc = BLACK"
  shows "\<exists>b' q. erase_rb b (Some z) = Some (Inr (b', q)) \<and> bst_rep b' (plug c t) \<and>
     heap b' = (paint (heap b1) s)(z := None) \<and> tree_size b' = tree_size b1 - 1"
proof -
  define b2 where "b2 = b1\<lparr>heap := (heap b1)(z := None), tree_size := tree_size b1 - 1\<rparr>"
  have r2: "sub_at (heap b2) (root b2) c (root_ptr t) t" using r z by (simp add: b2_def sub_at_def)
  have zs: "z \<notin> set_tree s" using z s by auto
  have "same_colors (heap b2) (heap b1) (set_tree s)" using zs by (auto simp: same_colors_def b2_def ext_at_def)
  then have c2: "s = Leaf \<or> red (heap b2) s" using col colors_cong by metis
  have p: "set_ext_nn (heap b2) (root_ptr s) BLACK = Some (paint (heap b2) s)"
    using sub_at_alloc [OF r2] s by (intro set_ext_nn_paint) blast
  have pz: "paint (heap b2) s = (paint (heap b1) s)(z := None)"
    using zs root_ptr_in [of s] by (auto simp: paint_def b2_def put_ext_apply fun_eq_iff split: option.split)
  obtain n where n: "heap b1 z = Some n" using z(1) by auto
  have bp: "bst_rep (b2\<lparr>heap := paint (heap b2) s\<rparr>) (plug c t)"
    using r2 sub_at_bst [of "b2\<lparr>heap := paint (heap b2) s\<rparr>" c "root_ptr t" t] by (simp add: paint_def split: option.split)
  show ?thesis
  proof (cases oc)
    case BLACK
    then have "\<exists>q. erase_rb b (Some z) = Some (Inr (b2\<lparr>heap := paint (heap b2) s\<rparr>, q))"
      using u n fix_erase_stop [OF c2] p by (simp add: erase_rb_def delete_node_def Let_def b2_def)
    then show ?thesis using bp pz by (auto simp: b2_def)
  next
    case RED
    then have l: "s = Leaf" using col by auto
    then have "\<exists>q. erase_rb b (Some z) = Some (Inr (b2, q))"
      using u n RED by (simp add: erase_rb_def delete_node_def Let_def b2_def)
    moreover have "bst_rep b2 (plug c t)" using r2 sub_at_bst by metis
    ultimately show ?thesis using l by (auto simp: b2_def paint_def)
  qed
qed

subsection \<open>Erasing\<close>

lemma unlink_one_child:
  assumes s: "sub_at (heap b) (root b) c (Some z) (Node l z r)" and one: "l = Leaf \<or> r = Leaf"
    and m: "m = (if l \<noteq> Leaf then l else r)"
  shows "\<exists>b1 e. unlink_rb b (Some z) = Some (b1, root_ptr m, e) \<and> ext_at (heap b) z = Some e \<and>
     sub_at (heap b1) (root b1) c (root_ptr m) m \<and> data_at (heap b1) = data_at (heap b) \<and> tree_size b1 = tree_size b \<and>
     (\<forall>x. x \<notin> set_tree (plug c (Node l z r)) \<longrightarrow> heap b1 x = heap b x)"
proof -
  obtain n where n: "heap b z = Some n" "parent n = ctx_parent c" "left_subtree n = root_ptr l" "right_subtree n = root_ptr r"
    "rep_ctx (heap b) (root b) c (Some z)" "rep (heap b) (Some z) (root_ptr l) l" "rep (heap b) (Some z) (root_ptr r) r"
    using node_at [OF s] .
  have D: "distinct (inorder (plug c (Node l z r)))" using s by (simp add: sub_at_def)
  then have dis: "distinct (before c @ after c)" "z \<notin> set_ctx c" "set_tree m \<inter> set_ctx c = {}" "distinct (inorder m)"
    using m by (auto simp: inorder_plug set_before_after [symmetric])
  have rm: "rep (heap b) (Some z) (root_ptr m) m" using n(6,7) m by simp
  obtain b1 where b1: "transplant b (Some z) (root_ptr m) = Some b1" "rep_ctx (heap b1) (root b1) c (root_ptr m)"
    "rep (heap b1) (ctx_parent c) (root_ptr m) m" "data_at (heap b1) = data_at (heap b)" "tree_size b1 = tree_size b"
    "\<forall>x. x \<notin> set_ctx c \<longrightarrow> root_ptr m \<noteq> Some x \<longrightarrow> heap b1 x = heap b x"
    using transplant_spec [OF n(5) dis(1,2) n(1,2) rm dis(3,4)] by blast
  have "unlink_rb b (Some z) = Some (b1, root_ptr m, ext n)"
    using n one m b1(1) by (auto simp: unlink_rb_def Let_def)
  moreover have "sub_at (heap b1) (root b1) c (root_ptr m) m"
    using b1(2,3) D m by (auto simp: sub_at_def inorder_plug)
  moreover have "heap b1 x = heap b x" if "x \<notin> set_tree (plug c (Node l z r))" for x
    using that m b1(6) root_ptr_frame [of x m] by (auto simp: set_tree_plug)
  ultimately show ?thesis using b1(4,5) n(1) by (auto simp: ext_at_def)
qed

lemma unlink_two_children:
  assumes s: "sub_at (heap b) (root b) c (Some z) (Node (plug d (Node m y Leaf)) z r)" and r: "r \<noteq> Leaf" and a: "after d = []"
  shows "\<exists>b1 e ez. unlink_rb b (Some z) = Some (b1, root_ptr m, e) \<and> ext_at (heap b) y = Some e \<and> ext_at (heap b) z = Some ez \<and>
     sub_at (heap b1) (root b1) c (Some y) (Node (plug d m) y r) \<and> ext_at (heap b1) = (ext_at (heap b))(y \<mapsto> ez) \<and>
     kv_at (heap b1) = kv_at (heap b) \<and> tree_size b1 = tree_size b \<and>
     (\<forall>x. x \<notin> set_tree (plug c (Node (plug d (Node m y Leaf)) z r)) \<longrightarrow> heap b1 x = heap b x)"
proof -
  define l where "l = plug d (Node m y Leaf)"
  have l: "l \<noteq> Leaf" by (simp add: l_def plug_Leaf)
  obtain n where n: "heap b z = Some n" "left_subtree n = root_ptr l" "right_subtree n = root_ptr r"
    "rep (heap b) (Some z) (root_ptr l) l"
    using node_at [OF s [folded l_def]] .
  have go: "go_right (heap b) (root_ptr l) = Some (Some y)"
    using go_right_spec [OF n(4) l] a by (simp add: l_def inorder_plug prev_of_append prev_of_Cons)
  have "heap b y \<noteq> None" using sub_at_alloc [OF s, of y] by (simp add: set_tree_plug)
  then obtain yn where yn: "heap b y = Some yn" by auto
  have yl: "left_subtree yn = root_ptr m"
    using sub_at_plug_ext [of b "d @ InLeft z r # c" "Node m y Leaf"] sub_at_bst [OF s] sub_atD yn
    by (metis (no_types, lifting) option.inject plug.simps(2) plug_append)
  obtain b1 where b1: "detach_pred b (Some z) (Some y) yn = Some b1" "detached b1 c z r y (plug d m)"
    "data_at (heap b1) = data_at (heap b)" "tree_size b1 = tree_size b"
    "\<forall>x. x \<notin> set_tree (plug c (Node (plug d (Node m y Leaf)) z r)) \<longrightarrow> heap b1 x = heap b x"
    using detach_pred_spec [OF s a yn] by blast
  have D: "distinct (inorder (plug c (Node (Node (plug d m) y Leaf) z r)))"
    using s a by (auto simp: sub_at_def inorder_plug)
  obtain b2 zn where b2: "attach_pred b1 (Some z) (Some y) = Some b2" "sub_at (heap b2) (root b2) c (Some y) (Node (plug d m) y r)"
     "heap b1 z = Some zn" "ext_at (heap b2) = (ext_at (heap b1))(y \<mapsto> ext zn)"
     "kv_at (heap b2) = kv_at (heap b1)" "tree_size b2 = tree_size b1"
     "\<forall>x. x \<notin> set_tree (plug c (Node (Node (plug d m) y Leaf) z r)) \<longrightarrow> heap b2 x = heap b1 x"
    using attach_pred_spec [OF b1(2) r D] by blast
  have e: "ext_at (heap b1) = ext_at (heap b)" "kv_at (heap b1) = kv_at (heap b)"
    using data_at_ext [OF b1(3)] data_at_kv_all [OF b1(3)] .
  have "unlink_rb b (Some z) = Some (b2, root_ptr m, ext yn)"
    using n(1-3) l r go yn yl b1(1) b2(1) by (simp add: unlink_rb_def Let_def)
  moreover have "ext_at (heap b) z = Some (ext zn)" using b2(3) e(1) by (metis ext_at_def option.simps(9))
  moreover have "heap b2 x = heap b x" if "x \<notin> set_tree (plug c (Node (plug d (Node m y Leaf)) z r))" for x
    using that b1(5) b2(7) by (simp add: set_tree_plug)
  ultimately show ?thesis using b2(2,5,6) b2(4) b1(3,4) e yn
    by (intro exI [of _ b2] exI [of _ "ext yn"] exI [of _ "ext zn"]) (simp add: ext_at_def)
qed

text \<open>The node that leaves its place in the tree, and whether it is a leaf.\<close>

definition cut_out :: "nat tree \<Rightarrow> nat \<Rightarrow> nat tree \<Rightarrow> nat" where
  "cut_out l z r = (if l = Leaf \<or> r = Leaf then z else last (inorder l))"

definition black_leaf :: "('k, 'v, node_color) heap \<Rightarrow> nat \<Rightarrow> bool" where
  "black_leaf h y \<longleftrightarrow> (case h y of None \<Rightarrow> False
     | Some n \<Rightarrow> ext n = BLACK \<and> left_subtree n = nullptr \<and> right_subtree n = nullptr)"

definition rb_erased :: "('k, 'v) rbt \<Rightarrow> ctx \<Rightarrow> nat tree \<Rightarrow> nat \<Rightarrow> nat tree \<Rightarrow> ('k, 'v) rbt \<Rightarrow> nat tree \<Rightarrow> bool" where
  "rb_erased b c l z r b' t' \<longleftrightarrow> bst_rep b' t' \<and> inorder t' = before c @ inorder l @ inorder r @ after c \<and>
     kv_at (heap b') = (kv_at (heap b))(z := None) \<and> tree_size b' = tree_size b - 1 \<and>
     (rb_inv (heap b') t' \<longleftrightarrow> \<not> (black_leaf (heap b) (cut_out l z r) \<and> size (plug c (Node l z r)) > 1))"

lemma kv_at_free: "kv_at (h(z := None)) = (kv_at h)(z := None)"
  by (auto simp: kv_at_def)

lemma kv_at_paint [simp]: "kv_at (paint h s) = kv_at h"
  by (simp add: paint_def split: option.split)

lemma ext_at_paint: "ext_at (paint h s) x = (if root_ptr s = Some x \<and> ext_at h x \<noteq> None then Some BLACK else ext_at h x)"
  by (auto simp: paint_def ext_at_def put_ext_apply split: option.split)

lemma ext_at_free: "ext_at (h(z := None)) = (ext_at h)(z := None)"
  by (auto simp: ext_at_def)

lemma black_leaf_at:
  assumes s: "sub_at h rt c p (Node l z r)" and e: "ext_at h z = Some e"
  shows "black_leaf h z \<longleftrightarrow> e = BLACK \<and> l = Leaf \<and> r = Leaf"
proof -
  obtain n where "h z = Some n" "left_subtree n = root_ptr l" "right_subtree n = root_ptr r" using sub_atD [OF s] by metis
  then show ?thesis using e by (auto simp: black_leaf_def ext_at_def)
qed

lemma erase_rb_one_child:
  assumes b: "bst_rep b (plug c (Node l z r))" and i: "rb_inv (heap b) (plug c (Node l z r))" and one: "l = Leaf \<or> r = Leaf"
  shows "\<exists>b' q t'. erase_rb b (Some z) = Some (Inr (b', q)) \<and> rb_erased b c l z r b' t'"
proof -
  have s: "sub_at (heap b) (root b) c (Some z) (Node l z r)" using sub_at_plug_ext [OF b] by simp
  define m where "m = (if l \<noteq> Leaf then l else r)"
  obtain b1 e where b1: "unlink_rb b (Some z) = Some (b1, root_ptr m, e)" "ext_at (heap b) z = Some e"
     "sub_at (heap b1) (root b1) c (root_ptr m) m" "data_at (heap b1) = data_at (heap b)" "tree_size b1 = tree_size b"
    using unlink_one_child [OF s one m_def] by blast
  have e: "ext_at (heap b1) = ext_at (heap b)" "kv_at (heap b1) = kv_at (heap b)"
    using data_at_ext [OF b1(4)] data_at_kv_all [OF b1(4)] .
  have d: "set_tree m \<inter> set_ctx c = {}" "z \<notin> set_ctx c" "z \<notin> set_tree m" using sub_at_disjoint [OF s] by (auto simp: m_def)
  have al: "\<And>x. x \<in> set_tree m \<Longrightarrow> heap b x \<noteq> None" using sub_at_alloc [OF s] by (auto simp: m_def split: if_splits)
  note cc = cut_colors [OF i one m_def d(1) al]
  have "e = BLACK \<or> e = RED" using node_color.exhaust by blast
  then have "m = Leaf \<or> red (heap b1) m \<and> e = BLACK" using cc(1) same_ext [OF e(1)] b1(2) by auto
  moreover have z1: "heap b1 z \<noteq> None" using sub_at_alloc [OF s, of z] kv_at_alloc [OF e(2)] by simp
  ultimately obtain b' q where b': "erase_rb b (Some z) = Some (Inr (b', q))" "bst_rep b' (plug c m)"
     "heap b' = (paint (heap b1) m)(z := None)" "tree_size b' = tree_size b1 - 1"
    using erase_rb_finish [OF b1(1,3) z1 d(2,3)] by auto
  have "same_colors (heap b') (paint (heap b) m) (set_tree (plug c m))"
    using d(2,3) by (auto simp: same_colors_def b'(3) ext_at_free ext_at_paint e(1) set_tree_plug)
  from colors_cong [OF this] have "rb_inv (heap b') (plug c m) \<longleftrightarrow> m \<noteq> Leaf \<or> ext_at (heap b) z = Some RED \<or> c = []"
    using cc(2) by (simp add: rb_inv_def)
  moreover have "black_leaf (heap b) z \<longleftrightarrow> e = BLACK \<and> m = Leaf"
    using black_leaf_at [OF s b1(2)] one by (auto simp: m_def)
  moreover have "size (plug c (Node l z r)) > 1 \<longleftrightarrow> m \<noteq> Leaf \<or> c \<noteq> []"
    using one length_inorder [of "plug c (Node l z r)"] ctx_parent_in [of c]
    by (cases c rule: ctx_parent.cases) (auto simp: inorder_plug m_def neq0_conv [symmetric] simp del: neq0_conv)
  ultimately have "rb_erased b c l z r b' (plug c m)"
    using b' b1(2,5) e(2) one \<open>e = BLACK \<or> e = RED\<close>
    by (auto simp: rb_erased_def m_def cut_out_def inorder_plug kv_at_free)
  then show ?thesis using b'(1) by blast
qed

lemma erase_rb_two_children:
  assumes b: "bst_rep b (plug c (Node l z r))" and i: "rb_inv (heap b) (plug c (Node l z r))" and two: "l \<noteq> Leaf" "r \<noteq> Leaf"
  shows "\<exists>b' q t'. erase_rb b (Some z) = Some (Inr (b', q)) \<and> rb_erased b c l z r b' t'"
proof -
  have s0: "sub_at (heap b) (root b) c (Some z) (Node l z r)" using sub_at_plug_ext [OF b] by simp
  obtain d m y where l: "l = plug d (Node m y Leaf)" and a: "after d = []" using last_split [OF two(1)] by blast
  note s = s0 [unfolded l]
  obtain b1 e ez where b1: "unlink_rb b (Some z) = Some (b1, root_ptr m, e)" "ext_at (heap b) y = Some e" "ext_at (heap b) z = Some ez"
     "sub_at (heap b1) (root b1) c (Some y) (Node (plug d m) y r)" "ext_at (heap b1) = (ext_at (heap b))(y \<mapsto> ez)"
     "kv_at (heap b1) = kv_at (heap b)" "tree_size b1 = tree_size b"
    using unlink_two_children [OF s two(2) a] by blast
  define cy where "cy = d @ InLeft z r # c"
  have py: "plug cy t = plug c (Node (plug d t) z r)" for t by (simp add: cy_def plug_append)
  have iy: "rb_inv (heap b) (plug cy (Node m y Leaf))" using i l py by simp
  have D: "distinct (inorder (plug c (Node (plug d (Node m y Leaf)) z r)))" using s by (simp add: sub_at_def)
  have d: "set_tree m \<inter> set_ctx cy = {}" "z \<notin> set_ctx c" "z \<notin> set_tree (Node (plug d m) y r)" "set_tree m \<subseteq> set_tree (Node (plug d m) y r)"
    "y \<notin> set_tree (plug d m)" "y \<notin> set_tree r" "y \<notin> set_ctx c" "y \<notin> set_tree m" "z \<notin> set_tree m" "y \<noteq> z"
    using D by (auto simp: cy_def around_append set_tree_plug inorder_plug set_before_after [symmetric])
  have al: "\<And>x. x \<in> set_tree m \<Longrightarrow> heap b x \<noteq> None" using sub_at_alloc [OF s] by (auto simp: set_tree_plug)
  have mm: "m = (if m \<noteq> Leaf then m else Leaf)" by simp
  note cc = cut_colors [OF iy disjI2 [OF refl] mm d(1) al]
  have eb: "e = BLACK \<or> e = RED" using node_color.exhaust by blast
  have "same_colors (heap b1) (heap b) (set_tree m)" using d(8) by (auto simp: same_colors_def b1(5))
  from colors_cong [OF this] have "m = Leaf \<or> red (heap b1) m \<and> e = BLACK" using cc(1) b1(2) eb by auto
  moreover have z1: "heap b1 z \<noteq> None" using sub_at_alloc [OF s, of z] kv_at_alloc [OF b1(6)] by simp
  moreover have "sub_at (heap b1) (root b1) c (root_ptr (Node (plug d m) y r)) (Node (plug d m) y r)" using b1(4) by simp
  ultimately obtain b' q where b': "erase_rb b (Some z) = Some (Inr (b', q))" "bst_rep b' (plug c (Node (plug d m) y r))"
     "heap b' = (paint (heap b1) m)(z := None)" "tree_size b' = tree_size b1 - 1"
    using erase_rb_finish [OF b1(1) _ z1 d(2-4)] by auto
  have ext': "ext_at (heap b') x = (if x = z then None else if x = y then Some ez else ext_at (paint (heap b) m) x)" for x
    using d(8,10) root_ptr_in [of m y] by (auto simp: b'(3) ext_at_free ext_at_paint b1(5))
  have "same_colors (heap b') (paint (heap b) m) (set_ctx c \<union> set_tree (plug d m) \<union> set_tree r)"
    using d(2,3,5-7) by (auto simp: same_colors_def ext')
  moreover have "ext_at (heap b') y = ext_at (paint (heap b) m) z"
    using d(9,10) root_ptr_in [of m z] b1(3) by (auto simp: ext' ext_at_paint)
  ultimately have "rb_inv (heap b') (plug c (Node (plug d m) y r)) = rb_inv (paint (heap b) m) (plug cy m)"
    unfolding py by (rule rb_inv_cong)
  then have "rb_inv (heap b') (plug c (Node (plug d m) y r)) \<longleftrightarrow> m \<noteq> Leaf \<or> ext_at (heap b) y = Some RED"
    using cc(2) by (simp add: cy_def)
  moreover have "black_leaf (heap b) y \<longleftrightarrow> e = BLACK \<and> m = Leaf"
    using black_leaf_at [OF sub_at_plug_ext b1(2), of cy m Leaf] b l py by simp
  moreover have "size (plug c (Node l z r)) > 1"
    using length_inorder [of "plug c (Node l z r)"] two(2) by (cases r) (auto simp: inorder_plug)
  moreover have "last (inorder l) = y" using a by (simp add: l inorder_plug)
  ultimately have "rb_erased b c l z r b' (plug c (Node (plug d m) y r))"
    using b' b1(2,6,7) two eb a by (auto simp: rb_erased_def cut_out_def inorder_plug kv_at_free l)
  then show ?thesis using b'(1) by blast
qed

lemma erase_rb_spec:
  "bst_rep b (plug c (Node l z r)) \<Longrightarrow> rb_inv (heap b) (plug c (Node l z r)) \<Longrightarrow>
   \<exists>b' q t'. erase_rb b (Some z) = Some (Inr (b', q)) \<and> rb_erased b c l z r b' t'"
  using erase_rb_one_child erase_rb_two_children by blast

subsection \<open>Properties\<close>

text \<open>C5: Erasing a node of a red-black tree takes exactly this node out of the listing, keeps every other
  entry, frees the node and decrements the size, whatever its place and the number of its children.\<close>
theorem rb_erase_removes_node:
  assumes "bst_rep b (plug c (Node l z r))" and "rb_inv (heap b) (plug c (Node l z r))"
  shows "\<exists>b' q t'. erase_rb b (Some z) = Some (Inr (b', q)) \<and> bst_rep b' t' \<and>
     inorder t' = before c @ inorder l @ inorder r @ after c \<and>
     entries (heap b') (inorder t') = entries (heap b) (before c @ inorder l) @ entries (heap b) (inorder r @ after c) \<and>
     heap b' z = None \<and> tree_size b' = tree_size b - 1"
proof -
  obtain b' q t' where b': "erase_rb b (Some z) = Some (Inr (b', q))" "rb_erased b c l z r b' t'"
    using erase_rb_spec [OF assms] by blast
  note e = b'(2) [unfolded rb_erased_def]
  have "z \<notin> set (inorder t')" using e assms(1) by (auto simp: bst_rep_def inorder_plug)
  then have "entries (heap b') (inorder t') = entries (heap b) (inorder t')"
    using e by (intro entries_cong) auto
  moreover have "kv_at (heap b') z = None" using e by simp
  then have "heap b' z = None" by (simp add: kv_at_def split: option.splits)
  ultimately show ?thesis using e b'(1) by (intro exI [of _ b'] exI [of _ q] exI [of _ t']) simp
qed

text \<open>Erasing the root of the sample, which has two children.\<close>
theorem rb_erase_removes_node_witness:
  "\<exists>b' q t'. erase_rb rb_sample (Some 0) = Some (Inr (b', q)) \<and> bst_rep b' t' \<and> inorder t' = [1, 2] \<and>
     entries (heap b') (inorder t') = [(3, 30), (9, 90)] \<and> heap b' 0 = None \<and> tree_size b' = 2"
proof -
  have "entries (heap rb_sample) [1] = [(3, 30)]" "entries (heap rb_sample) [2] = [(9, 90)]" "tree_size rb_sample = 3"
    by (simp_all add: rb_sample_def rb_heap_def entries_def List.map_filter_simps kv_at_def)
  then show ?thesis
    using rb_erase_removes_node [of rb_sample "[]" "Node Leaf 1 Leaf" 0 "Node Leaf 2 Leaf"] rb_sample(1,2)
    by (auto simp: rb_sample_tree_def)
qed

text \<open>C10: After an erasure the red-black invariant holds if and only if the node cut out of the tree (the
  erased one, or its predecessor when it has two children) was not a black leaf of a tree with more
  nodes: the repair loop is entered with a null pointer for such a leaf and leaves at once.\<close>
theorem rb_erase_invariant_iff:
  assumes "bst_rep b (plug c (Node l z r))" and "rb_inv (heap b) (plug c (Node l z r))"
  shows "\<exists>b' q t'. erase_rb b (Some z) = Some (Inr (b', q)) \<and> bst_rep b' t' \<and>
     (rb_inv (heap b') t' \<longleftrightarrow> \<not> (black_leaf (heap b) (cut_out l z r) \<and> size (plug c (Node l z r)) > 1))"
  using erase_rb_spec [OF assms] unfolding rb_erased_def by blast

text \<open>Three black nodes: without one of the leaves the invariant is lost.\<close>

definition black_heap :: "(int, int, node_color) heap" where
  "black_heap = (\<lambda>_. None)
     (0 \<mapsto> \<lparr>nd_key = 5, nd_val = 50, parent = None, left_subtree = Some 1, right_subtree = Some 2, ext = BLACK\<rparr>,
      1 \<mapsto> \<lparr>nd_key = 3, nd_val = 30, parent = Some 0, left_subtree = None, right_subtree = None, ext = BLACK\<rparr>,
      2 \<mapsto> \<lparr>nd_key = 9, nd_val = 90, parent = Some 0, left_subtree = None, right_subtree = None, ext = BLACK\<rparr>)"

definition black_sample :: "(int, int) rbt" where
  "black_sample = \<lparr>heap = black_heap, root = Some 0, tree_size = 3\<rparr>"

theorem rb_erase_invariant_iff_witness:
  "\<exists>b' q t'. erase_rb black_sample (Some 1) = Some (Inr (b', q)) \<and> bst_rep b' t' \<and> \<not> rb_inv (heap b') t'"
proof -
  have "bst_rep black_sample (plug [InLeft 0 (Node Leaf 2 Leaf)] (Node Leaf 1 Leaf))"
    "rb_inv (heap black_sample) (plug [InLeft 0 (Node Leaf 2 Leaf)] (Node Leaf 1 Leaf))"
    by (simp_all add: bst_rep_def black_sample_def black_heap_def rb_inv_def ext_at_def)
  from rb_erase_invariant_iff [OF this] show ?thesis
    by (auto simp: black_leaf_def cut_out_def black_sample_def black_heap_def)
qed

end
