(* ===== verification/RedBlackAny.thy ===== *)
theory RedBlackAny
  imports RedBlackErase
begin

text \<open>
  What the loops of the red-black tree keep whatever the colours are: erasing can leave a tree that breaks
  the red-black rules, and the next operations run on it. Such an operation may fail (a null dereference),
  but when it returns, the tree lists the same nodes in the same order, and no node outside the tree
  has been written.
\<close>

definition lists :: "('k, 'v) rbt \<Rightarrow> nat list \<Rightarrow> bool" where
  "lists b xs \<longleftrightarrow> (\<exists>t. bst_rep b t \<and> inorder t = xs)"

definition keeps :: "('k, 'v) rbt \<Rightarrow> nat list \<Rightarrow> ('k, 'v) rbt \<Rightarrow> bool" where
  "keeps b xs b' \<longleftrightarrow> lists b' xs \<and> kv_at (heap b') = kv_at (heap b) \<and> tree_size b' = tree_size b \<and>
     (\<forall>x. x \<notin> set xs \<longrightarrow> heap b' x = heap b x)"

definition node_ptrs :: "nat list \<Rightarrow> ptr set" where
  "node_ptrs xs = Some ` set xs"

lemma keeps_refl: "lists b xs \<Longrightarrow> keeps b xs b"
  by (simp add: keeps_def)

lemma keeps_trans: "keeps b xs b1 \<Longrightarrow> keeps b1 xs b2 \<Longrightarrow> keeps b xs b2"
  by (simp add: keeps_def)

lemma keeps_lists: "keeps b xs b' \<Longrightarrow> lists b' xs"
  by (simp add: keeps_def)

lemma lists_at:
  assumes "lists b xs" "a \<in> set xs"
  obtains c l r where "sub_at (heap b) (root b) c (Some a) (Node l a r)" "inorder (plug c (Node l a r)) = xs"
proof -
  obtain t where t: "bst_rep b t" "inorder t = xs" using assms(1) by (auto simp: lists_def)
  then obtain c l r where c: "t = plug c (Node l a r)" using assms(2) tree_split_at by (metis set_inorder)
  show ?thesis using that [of c l r] sub_at_plug_ext [OF t(1) [unfolded c]] t c by simp
qed

lemma sub_at_lists: "sub_at (heap b) (root b) c p t \<Longrightarrow> inorder (plug c t) = xs \<Longrightarrow> lists b xs"
  unfolding lists_def using sub_at_bst by blast

text \<open>Pointers stored in a node of the tree are null or lead to nodes of the tree.\<close>

lemma lists_ptrs:
  assumes "lists b xs" "p \<in> node_ptrs xs" "deref (heap b) p = Some n"
  shows "parent n \<in> insert None (node_ptrs xs)" "left_subtree n \<in> insert None (node_ptrs xs)"
    "right_subtree n \<in> insert None (node_ptrs xs)"
proof -
  obtain a where a: "p = Some a" "a \<in> set xs" using assms(2) by (auto simp: node_ptrs_def)
  obtain c l r where s: "sub_at (heap b) (root b) c (Some a) (Node l a r)" "inorder (plug c (Node l a r)) = xs"
    using lists_at [OF assms(1) a(2)] .
  have n: "parent n = ctx_parent c" "left_subtree n = root_ptr l" "right_subtree n = root_ptr r"
    using sub_atD [OF s(1)] a(1) assms(3) by (metis deref_Some option.inject)+
  have x: "set xs = set_ctx c \<union> set_tree (Node l a r)" using s(2) by (metis set_inorder set_tree_plug)
  have "root_ptr t \<in> insert None (node_ptrs xs)" if "set_tree t \<subseteq> set xs" for t
    using that root_ptr_in [of t] by (cases "root_ptr t") (auto simp: node_ptrs_def)
  then show "left_subtree n \<in> insert None (node_ptrs xs)" "right_subtree n \<in> insert None (node_ptrs xs)"
    using n x by auto
  show "parent n \<in> insert None (node_ptrs xs)"
    using n(1) x ctx_parent_in [of c] by (cases "c = []") (auto simp: node_ptrs_def)
qed

lemma lists_root: "lists b xs \<Longrightarrow> root b \<in> insert None (node_ptrs xs)"
proof -
  assume "lists b xs"
  then obtain t where t: "bst_rep b t" "inorder t = xs" by (auto simp: lists_def)
  then have "root b = root_ptr t" using rep_root_ptr by (auto simp: bst_rep_def)
  moreover have "set_tree t = set xs" using t(2) by auto
  ultimately show ?thesis using root_ptr_in [of t] by (cases "root_ptr t") (auto simp: node_ptrs_def)
qed

lemma keeps_ext:
  assumes "lists b xs" "set_ext (heap b) p e = Some h" "p \<in> node_ptrs xs"
  shows "keeps b xs (b\<lparr>heap := h\<rparr>)"
proof -
  obtain a where a: "p = Some a" "a \<in> set xs" using assms(3) by (auto simp: node_ptrs_def)
  then have h: "h = put_ext (heap b) a e" using assms(2) by (auto simp: ptr_defs put_ext_def split: option.splits)
  obtain t where "bst_rep b t" "inorder t = xs" using assms(1) by (auto simp: lists_def)
  then have "bst_rep (b\<lparr>heap := h\<rparr>) t" by (simp add: bst_rep_def h)
  then have "lists (b\<lparr>heap := h\<rparr>) xs" using \<open>inorder t = xs\<close> by (auto simp: lists_def)
  moreover have "h x = heap b x" if "x \<notin> set xs" for x
    using put_ext_other [of x a "heap b" e] that a(2) h by metis
  ultimately show ?thesis using h by (simp add: keeps_def)
qed

lemma set_ext_not_null: "set_ext h p e = Some h' \<Longrightarrow> p \<noteq> None"
  by (cases p) (simp_all add: ptr_defs)

lemma deref_not_null: "deref h p = Some n \<Longrightarrow> p \<in> insert None S \<Longrightarrow> p \<in> S"
  by (auto simp: ptr_defs)

context rotations
begin

lemma keeps_rotate:
  assumes l: "lists b xs" and p: "p \<in> node_ptrs xs"
    and rot: "rot = rl \<and> f = rotl \<or> rot = rr \<and> f = rotr" and r: "rotate_link rot b p = Some b'"
  shows "keeps b xs b'"
proof -
  obtain a where a: "p = Some a" "a \<in> set xs" using p by (auto simp: node_ptrs_def)
  obtain c t1 t2 where s: "sub_at (heap b) (root b) c (Some a) (Node t1 a t2)" "inorder (plug c (Node t1 a t2)) = xs"
    using lists_at [OF l a(2)] .
  have pf: "performs (heap b) (rot (heap b) (Some a)) (root b) c (f (Node t1 a t2))"
    using rl_performs [OF s(1)] rr_performs [OF s(1)] rot by auto
  have i: "inorder (f (Node t1 a t2)) = inorder (Node t1 a t2)" using rot by auto
  then obtain u y v where f: "f (Node t1 a t2) = Node u y v" by (cases "f (Node t1 a t2)") auto
  obtain b1 where b1: "rotate_link rot b (Some a) = Some b1" "sub_at (heap b1) (root b1) c (Some y) (Node u y v)"
    "kv_at (heap b1) = kv_at (heap b)" "tree_size b1 = tree_size b" "rot (heap b) (Some a) = Some (heap b1, Some y)"
    using rotate_link_spec [where rot = rot, OF s(1) pf [unfolded f]] by blast
  have "heap b1 x = heap b x" if "x \<notin> set xs" for x
  proof -
    have "x \<notin> set_tree (plug c (Node t1 a t2))" using that s(2) by (metis set_inorder)
    then show ?thesis using rl_frame [OF s(1)] rr_frame [OF s(1)] rot b1(5) by blast
  qed
  moreover have "inorder (plug c (Node u y v)) = xs" using s(2) i f by (metis inorder_plug)
  then have "lists b1 xs" using sub_at_lists [OF b1(2)] by blast
  ultimately show ?thesis using b1 r a(1) by (simp add: keeps_def)
qed

lemmas keeps_rl = keeps_rotate [of _ _ _ rl rotl, OF _ _ disjI1 [OF conjI [OF refl refl]]]
lemmas keeps_rr = keeps_rotate [of _ _ _ rr rotr, OF _ _ disjI2 [OF conjI [OF refl refl]]]

lemma keeps_paint_rotate:
  assumes "lists b xs" "par \<in> node_ptrs xs" "grand \<in> node_ptrs xs" "rot = rl \<or> rot = rr"
    "set_ext (heap b) par e1 = Some h1" "set_ext h1 grand e2 = Some h2" "rotate_link rot (b\<lparr>heap := h2\<rparr>) grand = Some b2"
  shows "keeps b xs b2"
proof -
  have k1: "keeps b xs (b\<lparr>heap := h1\<rparr>)" using keeps_ext [OF assms(1,5,2)] .
  have k2: "keeps (b\<lparr>heap := h1\<rparr>) xs (b\<lparr>heap := h2\<rparr>)"
    using keeps_ext [OF keeps_lists [OF k1], of grand e2 h2] assms(3,6) by simp
  have "keeps (b\<lparr>heap := h2\<rparr>) xs b2"
    using keeps_rotate [OF keeps_lists [OF k2] assms(3) _ assms(7)] assms(4) by blast
  then show ?thesis using k1 k2 keeps_trans by blast
qed

lemma keeps_recolor:
  assumes "lists b xs" "par \<in> node_ptrs xs" "uncle \<in> node_ptrs xs" "grand \<in> node_ptrs xs"
    "recolor (heap b) par uncle grand = Some h"
  shows "keeps b xs (b\<lparr>heap := h\<rparr>)"
proof -
  obtain h1 h2 where h: "set_ext (heap b) par BLACK = Some h1" "set_ext h1 uncle BLACK = Some h2" "set_ext h2 grand RED = Some h"
    using assms(5) by (auto simp: recolor_def bind_eq_Some_conv)
  have k1: "keeps b xs (b\<lparr>heap := h1\<rparr>)" using keeps_ext [OF assms(1) h(1) assms(2)] .
  have k2: "keeps (b\<lparr>heap := h1\<rparr>) xs (b\<lparr>heap := h2\<rparr>)"
    using keeps_ext [OF keeps_lists [OF k1], of uncle BLACK h2] assms(3) h(2) by simp
  have k3: "keeps (b\<lparr>heap := h2\<rparr>) xs (b\<lparr>heap := h\<rparr>)"
    using keeps_ext [OF keeps_lists [OF k2], of grand RED h] assms(4) h(3) by simp
  show ?thesis using keeps_trans [OF k1 keeps_trans [OF k2 k3]] .
qed

lemma is_red_not_null: "is_red h p = Some True \<Longrightarrow> p \<in> insert None S \<Longrightarrow> p \<in> S"
  by (auto simp: is_red_def)

text \<open>One half of the insertion loop, with \<open>f\<close> for the rest of the loop.\<close>

lemma keeps_insert_half:
  assumes l: "lists b xs" and z: "z \<in> node_ptrs xs" and par: "par \<in> node_ptrs xs" and grand: "grand \<in> node_ptrs xs"
    and uncle: "uncle \<in> insert None (node_ptrs xs)"
    and rots: "rot1 = rl \<and> rot2 = rr \<or> rot1 = rr \<and> rot2 = rl"
    and IH: "\<And>b z b'. lists b xs \<Longrightarrow> z \<in> node_ptrs xs \<Longrightarrow> f b z = Some b' \<Longrightarrow> keeps b xs b'"
    and r: "do {
        uncle_red \<leftarrow> is_red (heap b) uncle;
        (if uncle_red then do {
           h \<leftarrow> recolor (heap b) par uncle grand;
           f (b\<lparr>heap := h\<rparr>) grand
         } else do {
           (b, z, par) \<leftarrow>
             (if inner then do {
                b \<leftarrow> rotate_link rot1 b par;
                zn \<leftarrow> deref (heap b) par;
                Some (b, par, parent zn)
              } else Some (b, z, par));
           h \<leftarrow> set_ext (heap b) par BLACK;
           h \<leftarrow> set_ext h grand RED;
           b \<leftarrow> rotate_link rot2 (b\<lparr>heap := h\<rparr>) grand;
           f b z
         })
      } = Some b'"
  shows "keeps b xs b'"
proof -
  have rot2: "rot2 = rl \<or> rot2 = rr" and rot1: "rot1 = rl \<or> rot1 = rr" using rots by auto
  have last: "keeps b1 xs b'" if "lists b1 xs" "z1 \<in> node_ptrs xs" "par1 \<in> node_ptrs xs"
    "set_ext (heap b1) par1 BLACK = Some h1" "set_ext h1 grand RED = Some h2" "rotate_link rot2 (b1\<lparr>heap := h2\<rparr>) grand = Some b2"
    "f b2 z1 = Some b'" for b1 z1 par1 h1 h2 b2
    using keeps_paint_rotate [OF that(1,3) grand rot2 that(4-6)] IH [OF _ that(2,7)] keeps_lists keeps_trans by blast
  obtain ur where ur: "is_red (heap b) uncle = Some ur" using r by (auto simp: bind_eq_Some_conv)
  show ?thesis
  proof (cases ur)
    case True
    then have "uncle \<in> node_ptrs xs" using is_red_not_null [OF _ uncle] ur by simp
    then show ?thesis
      using r ur True keeps_recolor [OF l par _ grand] IH [OF _ grand] keeps_lists keeps_trans
      by (fastforce simp: bind_eq_Some_conv)
  next
    case False
    show ?thesis
    proof (cases inner)
      case True
      obtain b1 n where b1: "rotate_link rot1 b par = Some b1" "deref (heap b1) par = Some n"
        using r ur False True by (auto simp: bind_eq_Some_conv)
      have k: "keeps b xs b1" using keeps_rotate [OF l par _ b1(1)] rot1 by blast
      have "parent n \<in> insert None (node_ptrs xs)" using lists_ptrs(1) [OF keeps_lists [OF k] par b1(2)] .
      moreover have "parent n \<noteq> None" using r ur False True b1 by (auto simp: bind_eq_Some_conv dest: set_ext_not_null)
      ultimately have "parent n \<in> node_ptrs xs" by simp
      then show ?thesis
        using r ur False True b1 last [OF keeps_lists [OF k] par] keeps_trans [OF k] by (auto simp: bind_eq_Some_conv)
    next
      case nin: False
      then show ?thesis using r ur False last [OF l z par] by (auto simp: bind_eq_Some_conv)
    qed
  qed
qed

lemma fix_insert_keeps:
  "fix_insert rl rr b z = Some b' \<Longrightarrow> lists b xs \<Longrightarrow> z \<in> node_ptrs xs \<Longrightarrow> keeps b xs b'"
proof -
  have "l = rl \<longrightarrow> r = rr \<longrightarrow> lists b xs \<longrightarrow> z \<in> node_ptrs xs \<longrightarrow> keeps b xs b'" if "fix_insert l r b z = Some b'" for l r b z b'
    using that
  proof (rule fix_insert.raw_induct [where P = "\<lambda>l r b z b'. l = rl \<longrightarrow> r = rr \<longrightarrow> lists b xs \<longrightarrow> z \<in> node_ptrs xs \<longrightarrow> keeps b xs b'", rotated])
    fix f :: "('k, 'v, node_color) rotation \<Rightarrow> ('k, 'v, node_color) rotation \<Rightarrow> ('k, 'v) rbt \<Rightarrow> ptr \<Rightarrow> ('k, 'v) rbt option"
      and l r :: "('k, 'v, node_color) rotation" and b :: "('k, 'v) rbt" and z :: ptr and b' :: "('k, 'v) rbt"
    assume IH: "\<And>l r b z b'. f l r b z = Some b' \<Longrightarrow> l = rl \<longrightarrow> r = rr \<longrightarrow> lists b xs \<longrightarrow> z \<in> node_ptrs xs \<longrightarrow> keeps b xs b'"
    assume body: "(if z = root b then Some b
      else do {
        zn \<leftarrow> deref (heap b) z;
        let par = parent zn;
        pn \<leftarrow> deref (heap b) par;
        (if ext pn \<noteq> RED then Some b
         else do {
           let grand = parent pn;
           gn \<leftarrow> deref (heap b) grand;
           (if par = left_subtree gn then do {
              let uncle = right_subtree gn;
              uncle_red \<leftarrow> is_red (heap b) uncle;
              (if uncle_red then do {
                 h \<leftarrow> recolor (heap b) par uncle grand;
                 f l r (b\<lparr>heap := h\<rparr>) grand
               } else do {
                 (b, z, par) \<leftarrow>
                   (if z = right_subtree pn then do {
                      b \<leftarrow> rotate_link l b par;
                      zn \<leftarrow> deref (heap b) par;
                      Some (b, par, parent zn)
                    } else Some (b, z, par));
                 h \<leftarrow> set_ext (heap b) par BLACK;
                 h \<leftarrow> set_ext h grand RED;
                 b \<leftarrow> rotate_link r (b\<lparr>heap := h\<rparr>) grand;
                 f l r b z
               })
            } else do {
              let uncle = left_subtree gn;
              uncle_red \<leftarrow> is_red (heap b) uncle;
              (if uncle_red then do {
                 h \<leftarrow> recolor (heap b) par uncle grand;
                 f l r (b\<lparr>heap := h\<rparr>) grand
               } else do {
                 (b, z, par) \<leftarrow>
                   (if z = left_subtree pn then do {
                      b \<leftarrow> rotate_link r b par;
                      zn \<leftarrow> deref (heap b) par;
                      Some (b, par, parent zn)
                    } else Some (b, z, par));
                 h \<leftarrow> set_ext (heap b) par BLACK;
                 h \<leftarrow> set_ext h grand RED;
                 b \<leftarrow> rotate_link l (b\<lparr>heap := h\<rparr>) grand;
                 f l r b z
               })
            })
         })
      }) = Some b'"
    show "l = rl \<longrightarrow> r = rr \<longrightarrow> lists b xs \<longrightarrow> z \<in> node_ptrs xs \<longrightarrow> keeps b xs b'"
    proof (intro impI)
      assume l: "l = rl" and r: "r = rr" and b: "lists b xs" and z: "z \<in> node_ptrs xs"
      have IH': "keeps b xs b'" if "lists b xs" "z \<in> node_ptrs xs" "f rl rr b z = Some b'" for b z b'
        using IH [of rl rr b z b'] that by simp
      note body = body [unfolded l r]
      show "keeps b xs b'"
      proof (cases "z = root b")
        case True
        then show ?thesis using body keeps_refl [OF b] by simp
      next
        case False
        obtain zn where zn: "deref (heap b) z = Some zn" using body False by (auto simp: bind_eq_Some_conv)
        obtain pn where pn: "deref (heap b) (parent zn) = Some pn" using body False zn by (auto simp: Let_def bind_eq_Some_conv)
        have par: "parent zn \<in> node_ptrs xs" using lists_ptrs(1) [OF b z zn] deref_not_null [OF pn] by simp
        show ?thesis
        proof (cases "ext pn = RED")
          case red: True
          obtain gn where gn: "deref (heap b) (parent pn) = Some gn" using body False zn pn red by (auto simp: Let_def bind_eq_Some_conv)
          have grand: "parent pn \<in> node_ptrs xs" using lists_ptrs(1) [OF b par pn] deref_not_null [OF gn] by simp
          note half = keeps_insert_half [where f = "f rl rr", OF b z par grand _ _ IH']
          show ?thesis
          proof (cases "parent zn = left_subtree gn")
            case True
            then show ?thesis
              by (intro half [where inner = "z = right_subtree pn", OF lists_ptrs(3) [OF b grand gn] disjI1 [OF conjI [OF refl refl]]])
                (use body False zn pn gn red in \<open>simp_all add: Let_def\<close>)
          next
            case nl: False
            then show ?thesis
              by (intro half [where inner = "z = left_subtree pn", OF lists_ptrs(2) [OF b grand gn] disjI2 [OF conjI [OF refl refl]]])
                (use body False zn pn gn red in \<open>simp_all add: Let_def\<close>)
          qed
        qed (use body False zn pn keeps_refl [OF b] in \<open>simp add: Let_def\<close>)
      qed
    qed
  qed
  then show "fix_insert rl rr b z = Some b' \<Longrightarrow> lists b xs \<Longrightarrow> z \<in> node_ptrs xs \<Longrightarrow> keeps b xs b'" by blast
qed

lemma insert_repair_keeps:
  assumes "insert_repair rl rr b z = Some b'" "lists b xs" "z \<in> node_ptrs xs"
  shows "keeps b xs b'"
proof -
  obtain b1 h where b1: "fix_insert rl rr b z = Some b1" "set_ext (heap b1) (root b1) BLACK = Some h" "b' = b1\<lparr>heap := h\<rparr>"
    using assms(1) by (auto simp: insert_repair_def bind_eq_Some_conv)
  note k = fix_insert_keeps [OF b1(1) assms(2,3)]
  have "root b1 \<in> node_ptrs xs" using lists_root [OF keeps_lists [OF k]] set_ext_not_null [OF b1(2)] by simp
  then show ?thesis using keeps_trans [OF k keeps_ext [OF keeps_lists [OF k] b1(2)]] b1(3) by simp
qed

lemma keeps_paint2:
  assumes "lists b xs" "p \<in> insert None (node_ptrs xs)" "q \<in> insert None (node_ptrs xs)"
    "set_ext (heap b) p e1 = Some h1" "set_ext h1 q e2 = Some h2"
  shows "keeps b xs (b\<lparr>heap := h2\<rparr>)"
proof -
  have k1: "keeps b xs (b\<lparr>heap := h1\<rparr>)" using keeps_ext [OF assms(1,4)] set_ext_not_null [OF assms(4)] assms(2) by auto
  have "keeps (b\<lparr>heap := h1\<rparr>) xs (b\<lparr>heap := h2\<rparr>)"
    using keeps_ext [OF keeps_lists [OF k1], of q e2 h2] set_ext_not_null [OF assms(5)] assms(3,5) by auto
  then show ?thesis using k1 keeps_trans by blast
qed

lemma keeps_paint2_rotate:
  assumes "lists b xs" "p \<in> insert None (node_ptrs xs)" "q \<in> insert None (node_ptrs xs)" "n \<in> node_ptrs xs"
    "rot = rl \<or> rot = rr"
    "set_ext (heap b) p e1 = Some h1" "set_ext h1 q e2 = Some h2" "rotate_link rot (b\<lparr>heap := h2\<rparr>) n = Some b2"
  shows "keeps b xs b2"
  using keeps_paint2 [OF assms(1-3,6,7)] keeps_rotate [OF _ assms(4) _ assms(8)] assms(5) keeps_trans keeps_lists by metis

lemma keeps_ext_nn:
  assumes "lists b xs" "set_ext_nn (heap b) p e = Some h" "p \<in> insert None (node_ptrs xs)"
  shows "keeps b xs (b\<lparr>heap := h\<rparr>)"
  using assms keeps_refl [OF assms(1)] keeps_ext [OF assms(1), of p e h] by (cases p) (auto simp: set_ext_nn_def)

text \<open>The first case of the repair loop, a red sibling.\<close>

lemma keeps_red_sibling:
  assumes l: "lists b xs" and xp: "xp \<in> node_ptrs xs" and w: "w \<in> insert None (node_ptrs xs)" and rot: "rot = rl \<or> rot = rr"
    and side: "side = left_subtree \<or> side = right_subtree"
    and r: "(if cw = RED then do {
          h \<leftarrow> set_ext (heap b) w BLACK;
          h \<leftarrow> set_ext h xp RED;
          b \<leftarrow> rotate_link rot (b\<lparr>heap := h\<rparr>) xp;
          pn \<leftarrow> deref (heap b) xp;
          Some (b, side pn)
        } else Some (b, w)) = Some (b', w')"
  shows "keeps b xs b' \<and> w' \<in> insert None (node_ptrs xs)"
proof (cases "cw = RED")
  case True
  then obtain h1 h2 pn where a: "set_ext (heap b) w BLACK = Some h1" "set_ext h1 xp RED = Some h2"
    "rotate_link rot (b\<lparr>heap := h2\<rparr>) xp = Some b'" "deref (heap b') xp = Some pn" "w' = side pn"
    using r by (auto simp: bind_eq_Some_conv)
  have k: "keeps b xs b'" using keeps_paint2_rotate [OF l w _ xp rot a(1-3)] xp by simp
  then show ?thesis using lists_ptrs [OF keeps_lists [OF k] xp a(4)] a(5) side by auto
qed (use r w keeps_refl [OF l] in auto)

text \<open>The third case; the two halves of the code rotate at different nodes.\<close>

lemma keeps_inner_red:
  assumes l: "lists b xs" and xp: "xp \<in> node_ptrs xs" and w: "w \<in> insert None (node_ptrs xs)" and rot: "rot = rl \<or> rot = rr"
    and q: "q = xp \<or> q = w"
    and side: "side1 = left_subtree \<or> side1 = right_subtree" "side2 = left_subtree \<or> side2 = right_subtree"
    and r: "(if cond then do {
             wn \<leftarrow> deref (heap b) w;
             h \<leftarrow> set_ext (heap b) (side1 wn) BLACK;
             h \<leftarrow> set_ext h w RED;
             b \<leftarrow> rotate_link rot (b\<lparr>heap := h\<rparr>) q;
             pn \<leftarrow> deref (heap b) xp;
             Some (b, side2 pn)
           } else Some (b, w)) = Some (b', w')"
  shows "keeps b xs b' \<and> w' \<in> insert None (node_ptrs xs)"
proof (cases cond)
  case True
  then obtain wn h1 h2 pn where a: "deref (heap b) w = Some wn" "set_ext (heap b) (side1 wn) BLACK = Some h1" "set_ext h1 w RED = Some h2"
    "rotate_link rot (b\<lparr>heap := h2\<rparr>) q = Some b'" "deref (heap b') xp = Some pn" "w' = side2 pn"
    using r by (auto simp: bind_eq_Some_conv)
  have w': "w \<in> node_ptrs xs" using deref_not_null [OF a(1) w] .
  have "side1 wn \<in> insert None (node_ptrs xs)" using lists_ptrs [OF l w' a(1)] side by auto
  moreover have "q \<in> node_ptrs xs" using q xp w' by auto
  ultimately have k: "keeps b xs b'" using keeps_paint2_rotate [OF l _ w _ rot a(2-4)] by blast
  then show ?thesis using lists_ptrs [OF keeps_lists [OF k] xp a(5)] a(6) side by auto
qed (use r w keeps_refl [OF l] in auto)

text \<open>The fourth case; \<open>colour\<close> is the colouring of the sibling's outer child.\<close>

lemma keeps_last_case:
  assumes l: "lists b xs" and xp: "xp \<in> node_ptrs xs" and w: "w \<in> insert None (node_ptrs xs)" and rot: "rot = rl \<or> rot = rr"
    and side: "side = left_subtree \<or> side = right_subtree" and colour: "colour = set_ext \<or> colour = set_ext_nn"
    and r: "do {
        pn \<leftarrow> deref (heap b) xp;
        h \<leftarrow> set_ext (heap b) w (ext pn);
        h \<leftarrow> set_ext h xp BLACK;
        wn \<leftarrow> deref h w;
        h \<leftarrow> colour h (side wn) BLACK;
        b \<leftarrow> rotate_link rot (b\<lparr>heap := h\<rparr>) xp;
        Some (b, False)
      } = Some (b', again)"
  shows "keeps b xs b'"
proof -
  obtain pn :: "('k, 'v, node_color) node" and h1 h2 wn h3 where a:
    "set_ext (heap b) w (ext pn) = Some h1" "set_ext h1 xp BLACK = Some h2" "deref h2 w = Some wn"
    "colour h2 (side wn) BLACK = Some h3" "rotate_link rot (b\<lparr>heap := h3\<rparr>) xp = Some b'"
    using r by (auto simp: bind_eq_Some_conv)
  have k2: "keeps b xs (b\<lparr>heap := h2\<rparr>)" using keeps_paint2 [OF l w _ a(1,2)] xp by simp
  note l2 = keeps_lists [OF k2]
  have "side wn \<in> insert None (node_ptrs xs)"
    using lists_ptrs [OF l2 deref_not_null [OF a(3) w], of wn] a(3) side by auto
  then have k3: "keeps (b\<lparr>heap := h2\<rparr>) xs (b\<lparr>heap := h3\<rparr>)"
    using keeps_ext_nn [OF l2, of "side wn" BLACK h3] keeps_ext [OF l2, of "side wn" BLACK h3] a(4) colour set_ext_not_null [of h2 "side wn" BLACK h3]
    by auto
  show ?thesis
    using keeps_trans [OF k2 keeps_trans [OF k3 keeps_rotate [OF keeps_lists [OF k3] xp _ a(5)]]] rot by blast
qed

lemma repair_keeps:
  assumes l: "lists b xs" and xp: "xp \<in> node_ptrs xs" and w: "w \<in> insert None (node_ptrs xs)"
    and r: "repair_left rl rr b xp w = Some (b', again) \<or> repair_right rl rr b xp w = Some (b', again)"
  shows "keeps b xs b'"
  using r
proof
  assume r: "repair_left rl rr b xp w = Some (b', again)"
  obtain cw where cw: "color_of (heap b) w = Some cw" using r by (auto simp: repair_left_def bind_eq_Some_conv)
  obtain b1 w1 where b1: "(if cw = RED then do {
          h \<leftarrow> set_ext (heap b) w BLACK;
          h \<leftarrow> set_ext h xp RED;
          b \<leftarrow> rotate_link rl (b\<lparr>heap := h\<rparr>) xp;
          pn \<leftarrow> deref (heap b) xp;
          Some (b, right_subtree pn)
        } else Some (b, w)) = Some (b1, w1)"
    using r cw by (auto simp: repair_left_def bind_eq_Some_conv)
  have k1: "keeps b xs b1" "w1 \<in> insert None (node_ptrs xs)"
    using keeps_red_sibling [OF l xp w _ _ b1] by blast+
  note l1 = keeps_lists [OF k1(1)]
  obtain lb rb where lr: "child_is_black (heap b1) w1 False = Some lb" "child_is_black (heap b1) w1 True = Some rb"
    using r cw b1 by (auto simp: repair_left_def bind_eq_Some_conv)
  show ?thesis
  proof (cases "lb \<and> rb")
    case True
    then obtain h where "set_ext_nn (heap b1) w1 RED = Some h" "b' = b1\<lparr>heap := h\<rparr>"
      using r cw b1 lr by (auto simp: repair_left_def bind_eq_Some_conv)
    then show ?thesis using keeps_trans [OF k1(1) keeps_ext_nn [OF l1 _ k1(2)]] by blast
  next
    case False
    then obtain b2 w2 where b2: "(if \<not> lb \<and> rb then do {
             wn \<leftarrow> deref (heap b1) w1;
             h \<leftarrow> set_ext (heap b1) (left_subtree wn) BLACK;
             h \<leftarrow> set_ext h w1 RED;
             b \<leftarrow> rotate_link rr (b1\<lparr>heap := h\<rparr>) w1;
             pn \<leftarrow> deref (heap b) xp;
             Some (b, right_subtree pn)
           } else Some (b1, w1)) = Some (b2, w2)"
      using r cw b1 lr by (auto simp: repair_left_def bind_eq_Some_conv)
    have k2: "keeps b1 xs b2" "w2 \<in> insert None (node_ptrs xs)"
      using keeps_inner_red [OF l1 xp k1(2) _ _ _ _ b2] by blast+
    have "keeps b2 xs b'"
      by (rule keeps_last_case [where rot = rl and side = right_subtree and colour = set_ext_nn and again = again, OF keeps_lists [OF k2(1)] xp k2(2)])
        (use r cw b1 lr False b2 in \<open>simp_all add: repair_left_def\<close>)
    then show ?thesis using keeps_trans k1 k2 by blast
  qed
next
  assume r: "repair_right rl rr b xp w = Some (b', again)"
  obtain cw where cw: "color_of (heap b) w = Some cw" using r by (auto simp: repair_right_def bind_eq_Some_conv)
  obtain b1 w1 where b1: "(if cw = RED then do {
          h \<leftarrow> set_ext (heap b) w BLACK;
          h \<leftarrow> set_ext h xp RED;
          b \<leftarrow> rotate_link rr (b\<lparr>heap := h\<rparr>) xp;
          pn \<leftarrow> deref (heap b) xp;
          Some (b, left_subtree pn)
        } else Some (b, w)) = Some (b1, w1)"
    using r cw by (auto simp: repair_right_def bind_eq_Some_conv)
  have k1: "keeps b xs b1" "w1 \<in> insert None (node_ptrs xs)"
    using keeps_red_sibling [OF l xp w _ _ b1] by blast+
  note l1 = keeps_lists [OF k1(1)]
  obtain lb rb where lr: "child_is_black (heap b1) w1 False = Some lb" "child_is_black (heap b1) w1 True = Some rb"
    using r cw b1 by (auto simp: repair_right_def bind_eq_Some_conv)
  show ?thesis
  proof (cases "lb \<and> rb")
    case True
    then obtain h where "set_ext_nn (heap b1) w1 RED = Some h" "b' = b1\<lparr>heap := h\<rparr>"
      using r cw b1 lr by (auto simp: repair_right_def bind_eq_Some_conv)
    then show ?thesis using keeps_trans [OF k1(1) keeps_ext_nn [OF l1 _ k1(2)]] by blast
  next
    case False
    then obtain b2 w2 where b2: "(if \<not> rb \<and> lb then do {
             wn \<leftarrow> deref (heap b1) w1;
             h \<leftarrow> set_ext (heap b1) (right_subtree wn) BLACK;
             h \<leftarrow> set_ext h w1 RED;
             b \<leftarrow> rotate_link rl (b1\<lparr>heap := h\<rparr>) xp;
             pn \<leftarrow> deref (heap b) xp;
             Some (b, left_subtree pn)
           } else Some (b1, w1)) = Some (b2, w2)"
      using r cw b1 lr by (auto simp: repair_right_def bind_eq_Some_conv)
    have k2: "keeps b1 xs b2" "w2 \<in> insert None (node_ptrs xs)"
      using keeps_inner_red [OF l1 xp k1(2) _ _ _ _ b2] by blast+
    have "keeps b2 xs b'"
      by (rule keeps_last_case [where rot = rr and side = left_subtree and colour = set_ext and again = again, OF keeps_lists [OF k2(1)] xp k2(2)])
        (use r cw b1 lr False b2 in \<open>simp_all add: repair_right_def\<close>)
    then show ?thesis using keeps_trans k1 k2 by blast
  qed
qed

lemma get_sibling_ptr:
  assumes "lists b xs" "x \<in> node_ptrs xs" "get_sibling (heap b) x = Some w"
  shows "w \<in> insert None (node_ptrs xs)"
proof -
  obtain xn pn where a: "deref (heap b) x = Some xn" "deref (heap b) (parent xn) = Some pn" "w = left_subtree pn \<or> w = right_subtree pn"
    using assms(3) by (auto simp: get_sibling_def bind_eq_Some_conv)
  have "parent xn \<in> node_ptrs xs" using lists_ptrs(1) [OF assms(1,2) a(1)] deref_not_null [OF a(2)] by simp
  from lists_ptrs(2,3) [OF assms(1) this a(2)] a(3) show ?thesis by auto
qed

lemma fix_erase_keeps:
  "fix_erase rl rr b x = Some (b', x') \<Longrightarrow> lists b xs \<Longrightarrow> x \<in> insert None (node_ptrs xs) \<Longrightarrow>
     keeps b xs b' \<and> x' \<in> insert None (node_ptrs xs)"
proof -
  let ?P = "\<lambda>l r b x y. l = rl \<longrightarrow> r = rr \<longrightarrow> lists b xs \<longrightarrow> x \<in> insert None (node_ptrs xs) \<longrightarrow>
     keeps b xs (fst y) \<and> snd y \<in> insert None (node_ptrs xs)"
  have "?P l r b x y" if "fix_erase l r b x = Some y" for l r b x y
    using that
  proof (rule fix_erase.raw_induct [where P = ?P and xa = "(((l, r), b), x)" and y = y, unfolded prod.case, rotated])
    fix f :: "('k, 'v, node_color) rotation \<Rightarrow> ('k, 'v, node_color) rotation \<Rightarrow> ('k, 'v) rbt \<Rightarrow> ptr \<Rightarrow> (('k, 'v) rbt \<times> ptr) option"
      and l r :: "('k, 'v, node_color) rotation" and b :: "('k, 'v) rbt" and x :: ptr and y :: "('k, 'v) rbt \<times> ptr"
    assume IH: "\<And>l r b x y. f l r b x = Some y \<Longrightarrow> ?P l r b x y"
    assume body: "(if x = root b then Some (b, x)
      else do {
        col \<leftarrow> color_of (heap b) x;
        (if col \<noteq> BLACK then Some (b, x)
         else do {
           xp \<leftarrow> (if x = nullptr then Some nullptr else do { xn \<leftarrow> deref (heap b) x; Some (parent xn) });
           (if xp = nullptr then do {
              h \<leftarrow> set_ext_nn (heap b) x BLACK;
              Some (b\<lparr>heap := h\<rparr>, x)
            } else do {
              w \<leftarrow> get_sibling (heap b) x;
              (if w = nullptr then f l r b xp
               else do {
                 pn \<leftarrow> deref (heap b) xp;
                 (b, again) \<leftarrow> (if x = left_subtree pn then repair_left l r b xp w else repair_right l r b xp w);
                 (if again then f l r b xp else Some (b, x))
               })
            })
         })
      }) = Some y"
    show "?P l r b x y"
    proof (intro impI)
      assume l: "l = rl" and r: "r = rr" and b: "lists b xs" and x: "x \<in> insert None (node_ptrs xs)"
      note body = body [unfolded l r]
      note same = keeps_refl [OF b]
      show "keeps b xs (fst y) \<and> snd y \<in> insert None (node_ptrs xs)"
      proof (cases "x = root b")
        case True
        then show ?thesis using body same x by auto
      next
        case nroot: False
        obtain col where col: "color_of (heap b) x = Some col" using body nroot by (auto simp: bind_eq_Some_conv)
        show ?thesis
        proof (cases "col = BLACK")
          case False
          then show ?thesis using body nroot col same x by auto
        next
          case black: True
          obtain xp where xp: "(if x = nullptr then Some nullptr else do { xn \<leftarrow> deref (heap b) x; Some (parent xn) }) = Some xp"
            using body nroot col black by (auto simp: bind_eq_Some_conv)
          have xpn: "xp \<in> insert None (node_ptrs xs)"
          proof (cases "x = nullptr")
            case False
            then obtain xn where "deref (heap b) x = Some xn" "xp = parent xn" using xp by (auto simp: bind_eq_Some_conv)
            then show ?thesis using lists_ptrs(1) [OF b, of x xn] False x by auto
          qed (use xp in auto)
          show ?thesis
          proof (cases "xp = nullptr")
            case True
            then obtain h where "set_ext_nn (heap b) x BLACK = Some h" "y = (b\<lparr>heap := h\<rparr>, x)"
              using body nroot col black xp by (auto simp: bind_eq_Some_conv)
            then show ?thesis using keeps_ext_nn [OF b _ x, of BLACK h] x by auto
          next
            case xpv: False
            have xv: "x \<in> node_ptrs xs" "xp \<in> node_ptrs xs" using xp xpv x xpn by (auto split: if_splits)
            obtain w where w: "get_sibling (heap b) x = Some w"
              using body nroot col black xp xpv by (auto simp: bind_eq_Some_conv)
            have up: "keeps b1 xs (fst y) \<and> snd y \<in> insert None (node_ptrs xs)" if "lists b1 xs" "f rl rr b1 xp = Some y" for b1
              using IH [OF that(2)] that(1) xpn by blast
            show ?thesis
            proof (cases "w = nullptr")
              case True
              then show ?thesis using body nroot col black xp xpv w up [OF b] by auto
            next
              case wv: False
              have wn: "w \<in> insert None (node_ptrs xs)" using get_sibling_ptr [OF b xv(1) w] .
              obtain pn where pn: "deref (heap b) xp = Some pn"
                using body nroot col black xp xpv w wv by (auto simp: bind_eq_Some_conv)
              obtain b1 again where b1: "(if x = left_subtree pn then repair_left rl rr b xp w else repair_right rl rr b xp w) = Some (b1, again)"
                using body nroot col black xp xpv w wv pn by (auto simp: bind_eq_Some_conv)
              have k: "keeps b xs b1" using repair_keeps [OF b xv(2) wn, of b1 again] b1 by (auto split: if_splits)
              have "(if again then f rl rr b1 xp else Some (b1, x)) = Some y"
                using body nroot col black xp xpv w wv pn b1 by simp
              then show ?thesis using up [OF keeps_lists [OF k]] k x keeps_trans by (cases again) auto
            qed
          qed
        qed
      qed
    qed
  qed
  from this [of rl rr b x "(b', x')"]
  show "fix_erase rl rr b x = Some (b', x') \<Longrightarrow> lists b xs \<Longrightarrow> x \<in> insert None (node_ptrs xs) \<Longrightarrow>
     keeps b xs b' \<and> x' \<in> insert None (node_ptrs xs)" by simp
qed

end

subsection \<open>Insertion returns when the root is black\<close>

lemma red_last: "c \<noteq> [] \<Longrightarrow> red h (plug c t) \<longleftrightarrow> top_red h [last c]"
proof (induction c t rule: plug.induct)
  case (2 a r c t)
  then show ?case by (cases "c = []") simp_all
next
  case (3 l a c t)
  then show ?case by (cases "c = []") simp_all
qed simp

lemma red_plug: "c \<noteq> [] \<Longrightarrow> red h (plug c t) = red h (plug c u)"
  by (simp add: red_last)

lemma top_red_same: "same_colors h' h (set_ctx c) \<Longrightarrow> c \<noteq> [] \<Longrightarrow> top_red h' [last c] = top_red h [last c]"
proof (induction c)
  case (Cons k c)
  then show ?case by (cases "c = []"; cases k) auto
qed simp

lemma red_plug_colors:
  "c \<noteq> [] \<Longrightarrow> same_colors h' h (set_ctx c) \<Longrightarrow> red h' (plug c t) = red h (plug c u)"
  by (simp add: red_last top_red_same)

context rotations
begin

lemma returns_right:
  assumes s: "sub_at (heap b) (root b) c (Some g) (Node (Node t x u) g v)" and t: "t \<noteq> Leaf"
  shows "do {
      h \<leftarrow> set_ext (heap b) (Some x) BLACK;
      h \<leftarrow> set_ext h (Some g) RED;
      b \<leftarrow> rotate_link rr (b\<lparr>heap := h\<rparr>) (Some g);
      fix_insert rl rr b (root_ptr t) } \<noteq> None"
proof -
  define h where "h = put_ext (put_ext (heap b) x BLACK) g RED"
  have al: "heap b x \<noteq> None" "heap b g \<noteq> None" using sub_at_alloc [OF s] by simp_all
  have h: "set_ext (heap b) (Some x) BLACK = Some (put_ext (heap b) x BLACK)" "set_ext (put_ext (heap b) x BLACK) (Some g) RED = Some h"
    using al by (simp_all add: h_def set_ext_alloc del: set_ext_put not_None_eq)
  have s': "sub_at (heap (b\<lparr>heap := h\<rparr>)) (root (b\<lparr>heap := h\<rparr>)) c (Some g) (Node (Node t x u) g v)" using s by (simp add: h_def)
  have "performs (heap (b\<lparr>heap := h\<rparr>)) (rr (heap (b\<lparr>heap := h\<rparr>)) (Some g)) (root (b\<lparr>heap := h\<rparr>)) c (Node t x (Node u g v))"
    using rr_performs [OF s'] by simp
  from rotate_link_spec [where rot = rr, OF s' this] obtain b1 where b1: "rotate_link rr (b\<lparr>heap := h\<rparr>) (Some g) = Some b1"
    "sub_at (heap b1) (root b1) c (Some x) (Node t x (Node u g v))" "ext_at (heap b1) = ext_at h" by auto
  have "g \<noteq> x" using sub_at_disjoint [OF s] by auto
  then have "ext_at (heap b1) x = Some BLACK" using al by (simp add: b1(3) h_def)
  then have "fix_insert rl rr b1 (root_ptr t) = Some b1"
    using fix_insert_end [of b1 "InLeft x (Node u g v) # c" t] sub_at_leftI [OF b1(2)] t by simp
  then show ?thesis using h b1(1) by simp
qed

lemma returns_left:
  assumes s: "sub_at (heap b) (root b) c (Some g) (Node v g (Node u x t))" and t: "t \<noteq> Leaf"
  shows "do {
      h \<leftarrow> set_ext (heap b) (Some x) BLACK;
      h \<leftarrow> set_ext h (Some g) RED;
      b \<leftarrow> rotate_link rl (b\<lparr>heap := h\<rparr>) (Some g);
      fix_insert rl rr b (root_ptr t) } \<noteq> None"
proof -
  define h where "h = put_ext (put_ext (heap b) x BLACK) g RED"
  have al: "heap b x \<noteq> None" "heap b g \<noteq> None" using sub_at_alloc [OF s] by simp_all
  have h: "set_ext (heap b) (Some x) BLACK = Some (put_ext (heap b) x BLACK)" "set_ext (put_ext (heap b) x BLACK) (Some g) RED = Some h"
    using al by (simp_all add: h_def set_ext_alloc del: set_ext_put not_None_eq)
  have s': "sub_at (heap (b\<lparr>heap := h\<rparr>)) (root (b\<lparr>heap := h\<rparr>)) c (Some g) (Node v g (Node u x t))" using s by (simp add: h_def)
  have "performs (heap (b\<lparr>heap := h\<rparr>)) (rl (heap (b\<lparr>heap := h\<rparr>)) (Some g)) (root (b\<lparr>heap := h\<rparr>)) c (Node (Node v g u) x t)"
    using rl_performs [OF s'] by simp
  from rotate_link_spec [where rot = rl, OF s' this] obtain b1 where b1: "rotate_link rl (b\<lparr>heap := h\<rparr>) (Some g) = Some b1"
    "sub_at (heap b1) (root b1) c (Some x) (Node (Node v g u) x t)" "ext_at (heap b1) = ext_at h" by auto
  have "g \<noteq> x" using sub_at_disjoint [OF s] by auto
  then have "ext_at (heap b1) x = Some BLACK" using al by (simp add: b1(3) h_def)
  then have "fix_insert rl rr b1 (root_ptr t) = Some b1"
    using fix_insert_end [of b1 "InRight (Node v g u) x # c" t] sub_at_rightI [OF b1(2)] t by simp
  then show ?thesis using h b1(1) by simp
qed

text \<open>One iteration: the repair ends, or goes on two levels up after a recolouring.\<close>

lemma iteration_left:
  assumes s: "sub_at (heap b) (root b) (k # InLeft g v # c) (root_ptr t) t" and t: "t \<noteq> Leaf"
    and y: "top_red (heap b) [k]"
  shows "fix_insert rl rr b (root_ptr t) \<noteq> None \<or> (\<exists>b1. fix_insert rl rr b (root_ptr t) = fix_insert rl rr b1 (Some g) \<and>
     sub_at (heap b1) (root b1) c (Some g) (Node (plug [k] t) g v) \<and> same_colors (heap b1) (heap b) (set_ctx c))"
proof -
  obtain x where x: "ctx_parent [k] = Some x" by (cases k) auto
  obtain P where P: "P = plug [k] t" "root_ptr P = Some x" using x by (cases k) auto
  have sP: "sub_at (heap b) (root b) (InLeft g v # c) (Some x) P"
    using s P x sub_at_upL sub_at_upR by (cases k) auto
  have sG: "sub_at (heap b) (root b) c (Some g) (Node P g v)" using sub_at_upL [OF sP] .
  obtain pl pr where P': "P = Node pl x pr" using P(2) by (cases P) auto
  obtain xn where xn: "heap b x = Some xn" "parent xn = Some g" "right_subtree xn = root_ptr pr"
    using sub_atD [OF sP [unfolded P']] by auto
  obtain gn where gn: "heap b g = Some gn" "left_subtree gn = Some x" "right_subtree gn = root_ptr v"
    using sub_atD [OF sG] P(2) by metis
  have ex: "ext xn = RED" using y x xn(1) by (cases k) (auto simp: ext_at_def)
  have cp: "ctx_parent (k # InLeft g v # c) = Some x" using x by (cases k) auto
  note f = fix_insert_iter [where rl = rl and rr = rr, OF conjI [OF s t] _ cp xn(1) ex xn(2) gn(1)]
  have d: "g \<notin> set_ctx c" "x \<notin> set_ctx c" "x \<noteq> g" "set_tree v \<inter> set_ctx c = {}"
    using sub_at_disjoint [OF sG] P' by auto
  have ir: "is_red (heap b) (root_ptr v) = Some (red (heap b) v)" using is_red_tree [OF sub_at_rightI [OF sG]] .
  show ?thesis
  proof (cases "red (heap b) v")
    case True
    then obtain vl w vr where v: "v = Node vl w vr" by (cases v) auto
    have al: "heap b x \<noteq> None" "heap b g \<noteq> None" "heap b w \<noteq> None" using sub_at_alloc [OF sG] P' v by auto
    define h where "h = put_ext (put_ext (put_ext (heap b) x BLACK) w BLACK) g RED"
    have "recolor (heap b) (Some x) (Some w) (Some g) = Some h"
      using al by (simp add: recolor_def h_def set_ext_alloc del: set_ext_put not_None_eq)
    moreover have "same_colors h (heap b) (set_ctx c)"
      using d v al by (auto simp: same_colors_def h_def)
    ultimately show ?thesis
      using f gn ir True v sG P by (intro disjI2 exI [of _ "b\<lparr>heap := h\<rparr>"]) (simp add: h_def)
  next
    case False
    show ?thesis
    proof (cases k)
      case (InLeft x' u)
      then have k: "k = InLeft x u" "P = Node t x u" using x P by auto
      have "root_ptr t \<noteq> root_ptr u" using sub_at_disjoint [OF sG] k(2) t root_ptr_in [of t] root_ptr_in [of u]
        by (cases "root_ptr t") (auto simp: disjoint_iff)
      then show ?thesis using f gn ir False xn(3) P' k returns_right [OF sG [unfolded k(2)] t] by auto
    next
      case (InRight u x')
      then have k: "k = InRight u x" "P = Node u x t" using x P by auto
      obtain tl z tr where t': "t = Node tl z tr" using t by (cases t) auto
      have "performs (heap b) (rl (heap b) (Some x)) (root b) (InLeft g v # c) (Node (Node u x tl) z tr)"
        using rl_performs [OF sP [unfolded k(2)]] t' by simp
      from rotate_link_spec [where rot = rl, OF sP this] obtain b1 where b1: "rotate_link rl b (Some x) = Some b1"
        "sub_at (heap b1) (root b1) (InLeft g v # c) (Some z) (Node (Node u x tl) z tr)" by blast
      obtain x1 where x1: "heap b1 x = Some x1" "parent x1 = Some z"
        using sub_atD [OF sub_at_leftI [OF b1(2)]] by (metis ctx_parent.simps(2))
      note r = returns_right [OF sub_at_upL [OF b1(2)]]
      show ?thesis using f gn ir False xn(3) P' k b1(1) x1 r by auto
    qed
  qed
qed

lemma iteration_right:
  assumes s: "sub_at (heap b) (root b) (k # InRight v g # c) (root_ptr t) t" and t: "t \<noteq> Leaf"
    and y: "top_red (heap b) [k]"
  shows "fix_insert rl rr b (root_ptr t) \<noteq> None \<or> (\<exists>b1. fix_insert rl rr b (root_ptr t) = fix_insert rl rr b1 (Some g) \<and>
     sub_at (heap b1) (root b1) c (Some g) (Node v g (plug [k] t)) \<and> same_colors (heap b1) (heap b) (set_ctx c))"
proof -
  obtain x where x: "ctx_parent [k] = Some x" by (cases k) auto
  obtain P where P: "P = plug [k] t" "root_ptr P = Some x" using x by (cases k) auto
  have sP: "sub_at (heap b) (root b) (InRight v g # c) (Some x) P"
    using s P x sub_at_upL sub_at_upR by (cases k) auto
  have sG: "sub_at (heap b) (root b) c (Some g) (Node v g P)" using sub_at_upR [OF sP] .
  obtain pl pr where P': "P = Node pl x pr" using P(2) by (cases P) auto
  obtain xn where xn: "heap b x = Some xn" "parent xn = Some g" "left_subtree xn = root_ptr pl"
    using sub_atD [OF sP [unfolded P']] by auto
  obtain gn where gn: "heap b g = Some gn" "right_subtree gn = Some x" "left_subtree gn = root_ptr v"
    using sub_atD [OF sG] P(2) by metis
  have ex: "ext xn = RED" using y x xn(1) by (cases k) (auto simp: ext_at_def)
  have cp: "ctx_parent (k # InRight v g # c) = Some x" using x by (cases k) auto
  note f = fix_insert_iter [where rl = rl and rr = rr, OF conjI [OF s t] _ cp xn(1) ex xn(2) gn(1)]
  have d: "g \<notin> set_ctx c" "x \<notin> set_ctx c" "x \<noteq> g" "set_tree v \<inter> set_ctx c = {}"
    using sub_at_disjoint [OF sG] P' by auto
  have vx: "Some x \<noteq> root_ptr v" using sub_at_disjoint [OF sG] P' root_ptr_in [of v x] by auto
  have ir: "is_red (heap b) (root_ptr v) = Some (red (heap b) v)" using is_red_tree [OF sub_at_leftI [OF sG]] .
  show ?thesis
  proof (cases "red (heap b) v")
    case True
    then obtain vl w vr where v: "v = Node vl w vr" by (cases v) auto
    have al: "heap b x \<noteq> None" "heap b g \<noteq> None" "heap b w \<noteq> None" using sub_at_alloc [OF sG] P' v by auto
    define h where "h = put_ext (put_ext (put_ext (heap b) x BLACK) w BLACK) g RED"
    have "recolor (heap b) (Some x) (Some w) (Some g) = Some h"
      using al by (simp add: recolor_def h_def set_ext_alloc del: set_ext_put not_None_eq)
    moreover have "same_colors h (heap b) (set_ctx c)"
      using d v al by (auto simp: same_colors_def h_def)
    ultimately show ?thesis
      using f gn ir True v sG P vx by (intro disjI2 exI [of _ "b\<lparr>heap := h\<rparr>"]) (simp add: h_def)
  next
    case False
    show ?thesis
    proof (cases k)
      case (InRight u x')
      then have k: "k = InRight u x" "P = Node u x t" using x P by auto
      have "root_ptr t \<noteq> root_ptr u" using sub_at_disjoint [OF sG] k(2) t root_ptr_in [of t] root_ptr_in [of u]
        by (cases "root_ptr t") (auto simp: disjoint_iff)
      then show ?thesis using f gn ir False xn(3) P' k vx returns_left [OF sG [unfolded k(2)] t] by auto
    next
      case (InLeft x' u)
      then have k: "k = InLeft x u" "P = Node t x u" using x P by auto
      obtain tl z tr where t': "t = Node tl z tr" using t by (cases t) auto
      have "performs (heap b) (rr (heap b) (Some x)) (root b) (InRight v g # c) (Node tl z (Node tr x u))"
        using rr_performs [OF sP [unfolded k(2)]] t' by simp
      from rotate_link_spec [where rot = rr, OF sP this] obtain b1 where b1: "rotate_link rr b (Some x) = Some b1"
        "sub_at (heap b1) (root b1) (InRight v g # c) (Some z) (Node tl z (Node tr x u))" by blast
      obtain x1 where x1: "heap b1 x = Some x1" "parent x1 = Some z"
        using sub_atD [OF sub_at_rightI [OF b1(2)]] by (metis ctx_parent.simps(3))
      note r = returns_left [OF sub_at_upR [OF b1(2)]]
      show ?thesis using f gn ir False xn(3) P' k b1(1) x1 r vx by auto
    qed
  qed
qed

lemma fix_insert_returns:
  "sub_at (heap b) (root b) c (root_ptr t) t \<Longrightarrow> t \<noteq> Leaf \<Longrightarrow> c = [] \<or> \<not> red (heap b) (plug c t) \<Longrightarrow>
     fix_insert rl rr b (root_ptr t) \<noteq> None"
proof (induction "length c" arbitrary: b c t rule: less_induct)
  case less
  show ?case
  proof (cases "c = [] \<or> \<not> top_red (heap b) c")
    case True
    then show ?thesis using fix_insert_end [OF less.prems(1,2)] by simp
  next
    case False
    then obtain k c1 where c1: "c = k # c1" by (cases c) auto
    have y: "top_red (heap b) [k]" using False c1 top_red_crumb by metis
    have "c1 \<noteq> []" using less.prems(3) y c1 red_last [of c "heap b" t] by auto
    then obtain k2 c2 where c2: "c1 = k2 # c2" by (cases c1) auto
    have r: "\<not> top_red (heap b) [last c]" using less.prems(3) False red_last [of c "heap b" t] by auto
    have IH: "fix_insert rl rr b1 (Some g) \<noteq> None"
      if "sub_at (heap b1) (root b1) c2 (Some g) u" "same_colors (heap b1) (heap b) (set_ctx c2)" for b1 g u
    proof (rule less.hyps [of c2 b1 u, unfolded sub_at_ptr [OF that(1), symmetric]])
      show "length c2 < length c" using c1 c2 by simp
      show "sub_at (heap b1) (root b1) c2 (Some g) u" using that(1) .
      show "u \<noteq> Leaf" using sub_at_ptr [OF that(1)] by auto
      show "c2 = [] \<or> \<not> red (heap b1) (plug c2 u)"
        using r c1 c2 red_last [of c2 "heap b1" u] top_red_same [OF that(2)] by auto
    qed
    show ?thesis
    proof (cases k2)
      case (InLeft g v)
      from iteration_left [OF less.prems(1) [unfolded c1 c2 InLeft] less.prems(2) y] show ?thesis using IH by metis
    next
      case (InRight v g)
      from iteration_right [OF less.prems(1) [unfolded c1 c2 InRight] less.prems(2) y] show ?thesis using IH by metis
    qed
  qed
qed

lemma insert_repair_returns:
  assumes "sub_at (heap b) (root b) c (Some z) t" "c = [] \<or> \<not> red (heap b) (plug c t)"
  shows "insert_repair rl rr b (Some z) \<noteq> None"
proof -
  have t: "t \<noteq> Leaf" "root_ptr t = Some z" using sub_at_ptr [OF assms(1)] by auto
  obtain b1 where b1: "fix_insert rl rr b (Some z) = Some b1" using fix_insert_returns [of b c t] assms t by auto
  have l: "lists b (inorder (plug c t))" using sub_at_lists [OF assms(1) refl] .
  have "z \<in> set (inorder (plug c t))" using root_ptr_in [OF t(2)] by (simp add: set_tree_plug)
  then have k: "lists b1 (inorder (plug c t))" using fix_insert_keeps [OF b1 l] keeps_lists by (simp add: node_ptrs_def)
  then obtain u where u: "bst_rep b1 u" "inorder u = inorder (plug c t)" by (auto simp: lists_def)
  then have "u \<noteq> Leaf" using \<open>z \<in> _\<close> by (cases u) auto
  then obtain l x r where x: "u = Node l x r" by (cases u) auto
  have "root b1 = Some x" "heap b1 x \<noteq> None" using u(1) x by (auto simp: bst_rep_def split: option.splits)
  then show ?thesis using b1 by (simp add: insert_repair_def set_ext_alloc del: set_ext_put not_None_eq)
qed

end

lemma bst_rep_unique: "bst_rep b t \<Longrightarrow> bst_rep b u \<Longrightarrow> t = u"
  using rep_unique by (auto simp: bst_rep_def)

lemma insert_repair_black:
  assumes "insert_repair rl rr b z = Some b'" "bst_rep b' t"
  shows "\<not> red (heap b') t"
proof -
  obtain b1 h where b1: "set_ext (heap b1) (root b1) BLACK = Some h" "b' = b1\<lparr>heap := h\<rparr>"
    using assms(1) by (auto simp: insert_repair_def bind_eq_Some_conv)
  then obtain x where x: "root b1 = Some x" "heap b1 x \<noteq> None" by (cases "root b1") (auto simp: ptr_defs split: option.splits)
  then have "h = put_ext (heap b1) x BLACK" using b1(1) by (simp add: set_ext_alloc del: not_None_eq)
  moreover have "root_ptr t = Some x" using rep_root_ptr assms(2) b1(2) x(1) by (fastforce simp: bst_rep_def)
  ultimately show ?thesis using b1(2) x by (cases t) (auto simp: ext_at_put)
qed

subsection \<open>Taking a node out\<close>

text \<open>\<open>b'\<close> lists \<open>xs\<close> in place of \<open>zs\<close> and differs from \<open>b\<close> in the nodes of \<open>zs\<close> only.\<close>

definition relists :: "('k, 'v) rbt \<Rightarrow> nat list \<Rightarrow> ('k, 'v) rbt \<Rightarrow> nat list \<Rightarrow> bool" where
  "relists b zs b' xs \<longleftrightarrow> lists b' xs \<and> kv_at (heap b') = kv_at (heap b) \<and> tree_size b' = tree_size b \<and>
     (\<forall>x. x \<notin> set zs \<longrightarrow> heap b' x = heap b x)"

lemma relists_keeps: "relists b zs b1 xs \<Longrightarrow> keeps b1 xs b2 \<Longrightarrow> set xs \<subseteq> set zs \<Longrightarrow> relists b zs b2 xs"
  by (auto simp: relists_def keeps_def)

lemma lists_split:
  assumes "lists b (ys @ z # zs)"
  obtains c l r where "sub_at (heap b) (root b) c (Some z) (Node l z r)" "ys = before c @ inorder l" "zs = inorder r @ after c"
proof -
  obtain c l r where s: "sub_at (heap b) (root b) c (Some z) (Node l z r)" "inorder (plug c (Node l z r)) = ys @ z # zs"
    using lists_at [OF assms, of z] by auto
  have "distinct (inorder (plug c (Node l z r)))" using s(1) by (simp add: sub_at_def)
  then have "distinct ((before c @ inorder l) @ z # (inorder r @ after c))" by (simp add: inorder_plug)
  moreover have "(before c @ inorder l) @ z # (inorder r @ after c) = ys @ z # zs" using s(2) by (simp add: inorder_plug)
  ultimately show ?thesis using distinct_split_unique that [OF s(1)] by metis
qed

text \<open>The node or null that took the place is the root of a tree \<open>s\<close>; under the invariant of the colours it is red or null.\<close>

lemma unlink_rb_relists:
  assumes "lists b (ys @ z # zs)"
  shows "\<exists>b1 s oc t1. unlink_rb b (Some z) = Some (b1, root_ptr s, oc) \<and> relists b (ys @ z # zs) b1 (ys @ zs) \<and>
     set_tree s \<subseteq> set (ys @ zs) \<and> bst_rep b1 t1 \<and>
     (\<forall>t. bst_rep b t \<longrightarrow> rb_inv (heap b) t \<longrightarrow>
        (s = Leaf \<or> red (heap b1) s \<and> oc = BLACK) \<and> \<not> red (paint (heap b1) s) t1)"
proof -
  obtain c l r where s: "sub_at (heap b) (root b) c (Some z) (Node l z r)" "ys = before c @ inorder l" "zs = inorder r @ after c"
    using lists_split [OF assms] .
  have x: "set (ys @ z # zs) = set_tree (plug c (Node l z r))"
    unfolding s(2,3) set_inorder [symmetric] inorder_plug by auto
  have same: "t = plug c (Node l z r)" if "bst_rep b t" for t
    using that sub_at_bst [OF s(1)] rep_unique by (auto simp: bst_rep_def)
  have black: "e = BLACK" if "ext_at (heap b) y = Some e" "ext_at (heap b) y \<noteq> Some RED" for e y
    using that node_color.exhaust by auto
  show ?thesis
  proof (cases "l = Leaf \<or> r = Leaf")
    case True
    define m where "m = (if l \<noteq> Leaf then l else r)"
    obtain b1 e where b1: "unlink_rb b (Some z) = Some (b1, root_ptr m, e)" "sub_at (heap b1) (root b1) c (root_ptr m) m"
      "data_at (heap b1) = data_at (heap b)" "tree_size b1 = tree_size b"
      "\<forall>x. x \<notin> set_tree (plug c (Node l z r)) \<longrightarrow> heap b1 x = heap b x" "ext_at (heap b) z = Some e"
      using unlink_one_child [OF s(1) True m_def] by blast
    have d: "set_tree m \<inter> set_ctx c = {}" using sub_at_disjoint [OF s(1)] by (auto simp: m_def)
    have al: "\<And>x. x \<in> set_tree m \<Longrightarrow> heap b x \<noteq> None" using sub_at_alloc [OF s(1)] by (auto simp: m_def split: if_splits)
    have col: "m = Leaf \<or> red (heap b1) m \<and> e = BLACK" if "rb_inv (heap b) (plug c (Node l z r))"
      using cut_colors(1) [OF that True m_def d al] same_ext(1) [OF data_at_ext [OF b1(3)]] black [OF b1(6)] by auto
    have rt: "bst_rep b1 (plug c m)" using sub_at_bst [OF b1(2)] .
    have rk: "\<not> red (paint (heap b1) m) (plug c m)" if "rb_inv (heap b) (plug c (Node l z r))"
    proof (cases "c = []")
      case True
      then show ?thesis by (cases m) (auto simp: ext_at_paint)
    next
      case c: False
      have "same_colors (paint (heap b1) m) (heap b) (set_ctx c)"
        using d root_ptr_in [of m] data_at_ext [OF b1(3)] by (auto simp: same_colors_def ext_at_paint disjoint_iff)
      then show ?thesis using red_plug_colors [OF c] that unfolding rb_inv_def by metis
    qed
    have "inorder (plug c m) = ys @ zs" using True s(2,3) by (auto simp: inorder_plug m_def)
    then have "lists b1 (ys @ zs)" using sub_at_lists [OF b1(2)] by blast
    moreover have "set_tree m \<subseteq> set (ys @ zs)" using s(2,3) by (auto simp: m_def)
    ultimately have "relists b (ys @ z # zs) b1 (ys @ zs)" "set_tree m \<subseteq> set (ys @ zs)"
      unfolding relists_def x using b1(4,5) data_at_kv_all [OF b1(3)] by blast+
    then show ?thesis
      by (intro exI [of _ b1] exI [of _ m] exI [of _ e] exI [of _ "plug c m"] conjI allI impI b1(1) rt) (use col rk same in blast)+
  next
    case False
    obtain d m y where l: "l = plug d (Node m y Leaf)" "after d = []" using last_split False by blast
    obtain b1 e where b1: "unlink_rb b (Some z) = Some (b1, root_ptr m, e)"
      "sub_at (heap b1) (root b1) c (Some y) (Node (plug d m) y r)" "kv_at (heap b1) = kv_at (heap b)" "tree_size b1 = tree_size b"
      "\<forall>x. x \<notin> set_tree (plug c (Node l z r)) \<longrightarrow> heap b1 x = heap b x"
      "ext_at (heap b) y = Some e" "\<exists>ez. ext_at (heap b) z = Some ez \<and> ext_at (heap b1) = (ext_at (heap b))(y \<mapsto> ez)"
      using unlink_two_children [OF s(1) [unfolded l(1)] _ l(2)] False l(1) by blast
    define cy where "cy = d @ InLeft z r # c"
    have py: "plug cy (Node m y Leaf) = plug c (Node l z r)" by (simp add: cy_def plug_append l(1))
    have D: "distinct (inorder (plug cy (Node m y Leaf)))" using s(1) py by (simp add: sub_at_def)
    then have d: "set_tree m \<inter> set_ctx cy = {}" "y \<notin> set_tree m" by (auto simp: inorder_plug set_before_after [symmetric])
    have al: "\<And>x. x \<in> set_tree m \<Longrightarrow> heap b x \<noteq> None" using sub_at_alloc [OF s(1)] l(1) by (auto simp: set_tree_plug)
    have "same_colors (heap b1) (heap b) (set_tree m)" using d(2) b1(7) by (auto simp: same_colors_def)
    then have col: "m = Leaf \<or> red (heap b1) m \<and> e = BLACK" if "rb_inv (heap b) (plug c (Node l z r))"
      using cut_colors(1) [OF that [folded py] disjI2 [OF refl] _ d(1) al] colors_cong black [OF b1(6)] by (cases "m = Leaf") auto
    have rt: "bst_rep b1 (plug c (Node (plug d m) y r))" using sub_at_bst [OF b1(2)] .
    obtain ez where ez: "ext_at (heap b) z = Some ez" "ext_at (heap b1) = (ext_at (heap b))(y \<mapsto> ez)" using b1(7) by blast
    have "set_tree (Node (plug d m) y r) \<inter> set_ctx c = {}" using sub_at_disjoint [OF b1(2)] by blast
    then have dc: "set_tree m \<inter> set_ctx c = {}" "y \<notin> set_ctx c" by (auto simp: set_tree_plug)
    have rk: "\<not> red (paint (heap b1) m) (plug c (Node (plug d m) y r))" if "rb_inv (heap b) (plug c (Node l z r))"
    proof (cases "c = []")
      case True
      then have "ez \<noteq> RED" using that ez(1) by (simp add: rb_inv_def)
      then show ?thesis using True ez(2) d(2) root_ptr_in [of m y] by (auto simp: ext_at_paint)
    next
      case c: False
      have "same_colors (paint (heap b1) m) (heap b) (set_ctx c)"
        using dc root_ptr_in [of m] by (auto simp: same_colors_def ext_at_paint ez(2) disjoint_iff)
      then show ?thesis using red_plug_colors [OF c] that unfolding rb_inv_def by metis
    qed
    have "inorder (plug c (Node (plug d m) y r)) = ys @ zs" using s(2,3) l by (auto simp: inorder_plug)
    then have "lists b1 (ys @ zs)" using sub_at_lists [OF b1(2)] by blast
    moreover have "set_tree m \<subseteq> set (ys @ zs)" using s(2,3) l by (auto simp: set_tree_plug)
    ultimately have "relists b (ys @ z # zs) b1 (ys @ zs)" "set_tree m \<subseteq> set (ys @ zs)"
      unfolding relists_def x using b1(3-5) by blast+
    then show ?thesis
      by (intro exI [of _ b1] exI [of _ m] exI [of _ e] exI [of _ "plug c (Node (plug d m) y r)"] conjI allI impI b1(1) rt)
        (use col rk same in blast)+
  qed
qed

end
