(* ===== verification/AllocCommon.thy ===== *)
theory AllocCommon
  imports Prelude
begin

text \<open>
  What the allocators share (allocator/include/allocator_with_fit_mode.h, allocator_test_utils.h):
  the fit mode, the description of a block, the arithmetic of size_t written out with its wrap-around,
  and the exceptions. Addresses are numbers; a block header is a structure stored at its address, so an
  allocator's memory is a partial map from addresses to headers, and reading a header where none was
  written is undefined (None). The logging calls change no state and are left out.
\<close>

datatype fit_mode = First_fit | The_best_fit | The_worst_fit

record block_info =
  block_size :: nat
  is_block_occupied :: bool

datatype alloc_error = Bad_alloc | Logic_error string

text \<open>Sums, differences and products of size_t.\<close>

definition size_add :: "nat \<Rightarrow> nat \<Rightarrow> nat" where
  "size_add x y = (x + y) mod 2 ^ 64"

definition size_sub :: "nat \<Rightarrow> nat \<Rightarrow> nat" where
  "size_sub x y = (x + 2 ^ 64 - y) mod 2 ^ 64"

definition size_mul :: "nat \<Rightarrow> nat \<Rightarrow> nat" where
  "size_mul x y = (x * y) mod 2 ^ 64"

lemma size_add_exact [simp]: "x + y < 2 ^ 64 \<Longrightarrow> size_add x y = x + y"
  by (simp add: size_add_def)

lemma size_sub_exact [simp]: "y \<le> x \<Longrightarrow> x < 2 ^ 64 \<Longrightarrow> size_sub x y = x - y"
proof -
  assume a: "y \<le> x" "x < 2 ^ 64"
  then have "x + 2 ^ 64 - y = (x - y) + 2 ^ 64" by simp
  also have "\<dots> mod 2 ^ 64 = (x - y) mod 2 ^ 64" by (simp only: mod_add_self2)
  finally show ?thesis using a by (simp add: size_sub_def)
qed

lemma size_mul_exact [simp]: "x * y < 2 ^ 64 \<Longrightarrow> size_mul x y = x * y"
  by (simp add: size_mul_def)

text \<open>\<open>1 << n\<close> of type int, converted to size_t: 32 bits or more are undefined, bit 31 is the sign.\<close>

definition int_shift :: "nat \<Rightarrow> nat option" where
  "int_shift n = (if n < 31 then Some (2 ^ n) else if n = 31 then Some (2 ^ 64 - 2 ^ 31) else None)"

lemma int_shift_small [simp]: "n < 31 \<Longrightarrow> int_shift n = Some (2 ^ n)"
  by (simp add: int_shift_def)

subsection \<open>Loops over the blocks\<close>

text \<open>A loop over a list of positions, with a flag that leaves it.\<close>

fun scan :: "('x \<Rightarrow> 'a \<Rightarrow> 'a \<times> bool) \<Rightarrow> 'x list \<Rightarrow> 'a \<Rightarrow> 'a \<times> bool" where
  "scan body [] acc = (acc, False)"
| "scan body (x # xs) acc = (case body x acc of (acc, stop) \<Rightarrow> if stop then (acc, True) else scan body xs acc)"

lemma scan_append:
  "scan body (xs @ ys) acc = (case scan body xs acc of (acc, stop) \<Rightarrow> if stop then (acc, True) else scan body ys acc)"
  by (induction body xs acc rule: scan.induct) (auto split: prod.splits)

lemma scan_cong: "(\<And>x acc. x \<in> set xs \<Longrightarrow> f x acc = g x acc) \<Longrightarrow> scan f xs acc = scan g xs acc"
  by (induction xs arbitrary: acc) (auto split: prod.splits)

text \<open>The three searches: the first candidate (\<open>List.find\<close>), a least one, a greatest one.\<close>

definition is_best :: "('x \<Rightarrow> bool) \<Rightarrow> ('x \<Rightarrow> nat) \<Rightarrow> 'x list \<Rightarrow> 'x option \<Rightarrow> bool" where
  "is_best P f xs r \<longleftrightarrow> (case r of None \<Rightarrow> \<forall>x \<in> set xs. \<not> P x
     | Some x \<Rightarrow> P x \<and> x \<in> set xs \<and> (\<forall>y \<in> set xs. P y \<longrightarrow> f x \<le> f y))"

definition is_worst :: "('x \<Rightarrow> bool) \<Rightarrow> ('x \<Rightarrow> nat) \<Rightarrow> 'x list \<Rightarrow> 'x option \<Rightarrow> bool" where
  "is_worst P f xs r \<longleftrightarrow> (case r of None \<Rightarrow> \<forall>x \<in> set xs. \<not> P x
     | Some x \<Rightarrow> P x \<and> x \<in> set xs \<and> (\<forall>y \<in> set xs. P y \<longrightarrow> f y \<le> f x))"

lemma scan_first: "fst (scan (\<lambda>x r. if P x then (Some x, True) else (r, False)) xs None) = List.find P xs"
  by (induction xs) simp_all

lemma scan_best:
  "\<exists>r. fst (scan (\<lambda>x r. (if P x \<and> (case r of None \<Rightarrow> True | Some b \<Rightarrow> f x < f b) then Some x else r, False)) xs None) = r \<and>
     is_best P f xs r"
proof -
  define body where "body = (\<lambda>x r. (if P x \<and> (case r of None \<Rightarrow> True | Some b \<Rightarrow> f x < f b) then Some x else r, False))"
  have "is_best P f (ys @ xs) (fst (scan body xs r))" if "is_best P f ys r" for ys r
    using that
  proof (induction xs arbitrary: ys r)
    case (Cons x xs)
    have "is_best P f (ys @ [x]) (fst (body x r))"
      using Cons.prems by (auto simp: is_best_def body_def split: option.splits)
    from Cons.IH [OF this] show ?case by (simp add: body_def)
  qed simp
  from this [of "[]" None] show ?thesis unfolding body_def by (simp add: is_best_def)
qed

lemma scan_worst:
  "\<exists>r. fst (scan (\<lambda>x r. (if P x \<and> (case r of None \<Rightarrow> True | Some b \<Rightarrow> f b < f x) then Some x else r, False)) xs None) = r \<and>
     is_worst P f xs r"
proof -
  define body where "body = (\<lambda>x r. (if P x \<and> (case r of None \<Rightarrow> True | Some b \<Rightarrow> f b < f x) then Some x else r, False))"
  have "is_worst P f (ys @ xs) (fst (scan body xs r))" if "is_worst P f ys r" for ys r
    using that
  proof (induction xs arbitrary: ys r)
    case (Cons x xs)
    have "is_worst P f (ys @ [x]) (fst (body x r))"
      using Cons.prems by (auto simp: is_worst_def body_def split: option.splits)
    from Cons.IH [OF this] show ?case by (simp add: body_def)
  qed simp
  from this [of "[]" None] show ?thesis unfolding body_def by (simp add: is_worst_def)
qed

subsection \<open>Programs that allocate and deallocate\<close>

text \<open>A client allocates, catching the exception, and gives back pointers it holds; \<open>live\<close> are these
  pointers with the sizes it asked for. A request to give back what it does not hold is skipped.\<close>

datatype request = Allocate nat | Give_back nat

fun serve :: "('s \<Rightarrow> nat \<Rightarrow> (alloc_error + 's \<times> nat) option) \<Rightarrow> ('s \<Rightarrow> nat \<Rightarrow> (alloc_error + 's) option) \<Rightarrow>
    's \<Rightarrow> (nat \<times> nat) list \<Rightarrow> request list \<Rightarrow> ('s \<times> (nat \<times> nat) list) option" where
  "serve allocate deallocate s live [] = Some (s, live)"
| "serve allocate deallocate s live (Allocate n # rs) = do {
     r \<leftarrow> allocate s n;
     (case r of Inl _ \<Rightarrow> serve allocate deallocate s live rs
      | Inr (s, p) \<Rightarrow> serve allocate deallocate s ((p, n) # live) rs)
   }"
| "serve allocate deallocate s live (Give_back i # rs) =
     (if i < length live then do {
        r \<leftarrow> deallocate s (fst (live ! i));
        (case r of Inl _ \<Rightarrow> None
         | Inr s \<Rightarrow> serve allocate deallocate s (take i live @ drop (Suc i) live) rs)
      } else serve allocate deallocate s live rs)"

definition apart :: "nat \<times> nat \<Rightarrow> nat \<times> nat \<Rightarrow> bool" where
  "apart x y \<longleftrightarrow> fst x + snd x \<le> fst y \<or> fst y + snd y \<le> fst x"

text \<open>What a client relies on: \<open>rep s b\<close> is the allocator's invariant with its abstract contents,
  \<open>payloads\<close> the areas handed out. Requests for which a provider keeps its promise are \<open>usable\<close>.\<close>

locale memory_resource =
  fixes rep :: "'s \<Rightarrow> 'b \<Rightarrow> bool"
    and allocate :: "'s \<Rightarrow> nat \<Rightarrow> (alloc_error + 's \<times> nat) option"
    and deallocate :: "'s \<Rightarrow> nat \<Rightarrow> (alloc_error + 's) option"
    and payloads :: "'s \<Rightarrow> 'b \<Rightarrow> (nat \<times> nat) set"
    and usable :: "nat \<Rightarrow> bool"
  assumes apart_payloads: "rep s b \<Longrightarrow> x \<in> payloads s b \<Longrightarrow> y \<in> payloads s b \<Longrightarrow> x \<noteq> y \<Longrightarrow> apart x y \<and> fst x \<noteq> fst y"
    and allocated: "rep s b \<Longrightarrow> usable n \<Longrightarrow> allocate s n = Some (Inl Bad_alloc) \<or>
      (\<exists>s' p b' m. allocate s n = Some (Inr (s', p)) \<and> rep s' b' \<and> n \<le> m \<and>
        (p, m) \<notin> payloads s b \<and> payloads s' b' = insert (p, m) (payloads s b))"
    and deallocated: "rep s b \<Longrightarrow> (p, m) \<in> payloads s b \<Longrightarrow>
      \<exists>s' b'. deallocate s p = Some (Inr s') \<and> rep s' b' \<and> payloads s' b' = payloads s b - {(p, m)}"
begin

definition holds :: "'s \<Rightarrow> 'b \<Rightarrow> (nat \<times> nat) list \<Rightarrow> bool" where
  "holds s b live \<longleftrightarrow> distinct (map fst live) \<and> (\<forall>(p, n) \<in> set live. \<exists>m. n \<le> m \<and> (p, m) \<in> payloads s b) \<and>
     fst ` payloads s b \<subseteq> fst ` set live"

lemma holdsD: "holds s b live \<Longrightarrow> (p, n) \<in> set live \<Longrightarrow> \<exists>m. n \<le> m \<and> (p, m) \<in> payloads s b"
  by (auto simp: holds_def)

lemma holds_apart:
  assumes "rep s b" "holds s b live" "x \<in> set live" "y \<in> set live" "x \<noteq> y"
  shows "apart x y"
proof -
  obtain p n where x: "x = (p, n)" by (cases x)
  obtain q c where y: "y = (q, c)" by (cases y)
  obtain m where m: "n \<le> m" "(p, m) \<in> payloads s b" using holdsD [OF assms(2)] assms(3) x by blast
  obtain k where k: "c \<le> k" "(q, k) \<in> payloads s b" using holdsD [OF assms(2)] assms(4) y by blast
  have "distinct (map fst live)" using assms(2) by (simp add: holds_def)
  then have "p \<noteq> q" using assms(3-5) x y eq_key_imp_eq_value [of live p n c] by blast
  then have "apart (p, m) (q, k)" using apart_payloads [OF assms(1) m(2) k(2)] by simp
  then show ?thesis using m(1) k(1) x y unfolding apart_def by (simp, linarith)
qed

lemma holds_allocate:
  assumes "rep s' b'" "holds s b live" "n \<le> m" "(p, m) \<notin> payloads s b" "payloads s' b' = insert (p, m) (payloads s b)"
  shows "holds s' b' ((p, n) # live)"
proof -
  have "fst (q, k) \<noteq> fst (p, m)" if "(q, k) \<in> payloads s b" for q k
    using apart_payloads [OF assms(1), of "(q, k)" "(p, m)"] assms(4,5) that by auto
  then have "p \<notin> fst ` set live" using assms(2) unfolding holds_def by (fastforce split: prod.splits)
  then show ?thesis using assms(2,3,5) by (auto simp: holds_def image_iff)
qed

lemma holds_deallocate:
  assumes "rep s b" "holds s b live" "i < length live" "live ! i = (p, n)" "(p, m) \<in> payloads s b"
    "payloads s' b' = payloads s b - {(p, m)}"
  shows "holds s' b' (take i live @ drop (Suc i) live)"
proof -
  let ?l = "take i live @ drop (Suc i) live"
  have l: "live = take i live @ (p, n) # drop (Suc i) live" using assms(3,4) by (metis id_take_nth_drop)
  have d: "distinct (map fst (take i live @ (p, n) # drop (Suc i) live))" using assms(2) l by (metis holds_def)
  then have "distinct (map fst ?l)" "p \<notin> fst ` set ?l" by auto
  moreover have sub: "set live = insert (p, n) (set ?l)" by (subst l) auto
  moreover have "fst ` (payloads s b - {(p, m)}) \<subseteq> fst ` set ?l"
  proof
    fix q assume "q \<in> fst ` (payloads s b - {(p, m)})"
    then obtain x where k: "x \<in> payloads s b" "x \<noteq> (p, m)" "q = fst x" by auto
    then have "q \<noteq> p" using apart_payloads [OF assms(1) k(1) assms(5) k(2)] by simp
    moreover have "q \<in> fst ` set live" using assms(2) k(1,3) unfolding holds_def by blast
    ultimately show "q \<in> fst ` set ?l" using sub by auto
  qed
  moreover have "\<exists>k. c \<le> k \<and> (q, k) \<in> payloads s b - {(p, m)}" if "(q, c) \<in> set ?l" for q c
  proof -
    have "(q, c) \<in> set live" "q \<noteq> p" using that sub \<open>p \<notin> fst ` set ?l\<close> by force+
    then show ?thesis using holdsD [OF assms(2)] by blast
  qed
  ultimately show ?thesis using assms(6) by (auto simp: holds_def)
qed

text \<open>Every program runs to its end, and the areas it holds have the size it asked for and do not overlap.\<close>

lemma programs_run:
  "rep s b \<Longrightarrow> holds s b live \<Longrightarrow> (\<forall>n. Allocate n \<in> set rs \<longrightarrow> usable n) \<Longrightarrow>
     \<exists>s' live' b'. serve allocate deallocate s live rs = Some (s', live') \<and> rep s' b' \<and> holds s' b' live'"
proof (induction rs arbitrary: s b live)
  case (Cons r rs)
  show ?case
  proof (cases r)
    case (Allocate n)
    then consider "allocate s n = Some (Inl Bad_alloc)"
      | s' p b' m where "allocate s n = Some (Inr (s', p))" "rep s' b'" "n \<le> m" "(p, m) \<notin> payloads s b"
          "payloads s' b' = insert (p, m) (payloads s b)"
      using allocated [of s b n] Cons.prems by auto
    then show ?thesis
    proof cases
      case 1
      then show ?thesis using Cons Allocate by simp
    next
      case 2
      then show ?thesis using Cons.IH [OF 2(2) holds_allocate [OF 2(2) Cons.prems(2) 2(3-5)]] Cons.prems(3) Allocate by simp
    qed
  next
    case (Give_back i)
    show ?thesis
    proof (cases "i < length live")
      case True
      obtain p n where pn: "live ! i = (p, n)" by (cases "live ! i")
      obtain m where m: "(p, m) \<in> payloads s b" using holdsD [OF Cons.prems(2), of p n] True pn nth_mem [of i live] by auto
      obtain s' b' where d: "deallocate s p = Some (Inr s')" "rep s' b'" "payloads s' b' = payloads s b - {(p, m)}"
        using deallocated [OF Cons.prems(1) m] by blast
      show ?thesis
        using Cons.IH [OF d(2) holds_deallocate [OF Cons.prems(1,2) True pn m d(3)]] Cons.prems(3) Give_back True pn d(1) by simp
    next
      case False
      then show ?thesis using Cons Give_back by simp
    qed
  qed
qed (simp, blast)

lemma programs_are_separated:
  assumes "rep s b" "payloads s b = {}" "\<forall>n. Allocate n \<in> set rs \<longrightarrow> usable n"
  shows "\<exists>s' live b'. serve allocate deallocate s [] rs = Some (s', live) \<and> rep s' b' \<and> distinct (map fst live) \<and>
    (\<forall>x \<in> set live. \<forall>y \<in> set live. x \<noteq> y \<longrightarrow> apart x y) \<and> (\<forall>(p, n) \<in> set live. \<exists>m. n \<le> m \<and> (p, m) \<in> payloads s' b')"
proof -
  have "holds s b []" using assms(2) by (simp add: holds_def)
  from programs_run [OF assms(1) this assms(3)] obtain s' live b' where
    r: "serve allocate deallocate s [] rs = Some (s', live)" "rep s' b'" "holds s' b' live" by blast
  then show ?thesis using holds_apart [OF r(2,3)] by (auto simp: holds_def)
qed

end

end
