(* ===== verification/RbAlloc.thy ===== *)
theory RbAlloc
  imports RedBlackAny AllocCommon "HOL-Library.Code_Target_Nat"
begin

text \<open>
  The allocator that keeps its free blocks in a red-black tree ordered by size
  (allocator/allocator_red_black_tree). All blocks are linked in the order of their addresses; the free ones are
  nodes of the tree too. A header is a node of the heap of \<open>BstHeap\<close>: its value holds the flag and
  the links of the list, its pointers and its colour are the fields of the tree, and in an occupied block
  the parent is the trusted memory. The loops of the tree are those of the red-black tree container, with the
  rotations of this file. Headers are apart when every request is for 16 bytes or more, since a free
  header is 16 bytes longer than an occupied one.
\<close>

subsection \<open>Memory\<close>

text \<open>\<open>sizeof(block_metadata)\<close>, \<open>sizeof(free_block_metadata)\<close> (both packed) and \<open>sizeof(allocator_metadata)\<close>.\<close>

definition block_meta :: nat where "block_meta = 25"
definition free_meta :: nat where "free_meta = 41"
definition alloc_meta :: nat where "alloc_meta = 80"

record block_links =
  occupied :: bool
  back_link :: ptr
  forward_link :: ptr

type_synonym rb_tree = "(unit, block_links, node_color) bst"
type_synonym rb_heap = "(unit, block_links, node_color) heap"

record rb_memory =
  blocks :: rb_tree
  trusted :: nat
  space_size :: nat
  fit :: fit_mode

text \<open>A block is a node whose value holds the flag and the two list links; the fields \<open>tree_size\<close> and
  \<open>nd_key\<close> of the tree are not used.\<close>

definition first_block :: "rb_memory \<Rightarrow> nat" where
  "first_block m = trusted m + alloc_meta"

definition make :: "nat \<Rightarrow> fit_mode \<Rightarrow> nat \<Rightarrow> alloc_error + rb_memory" where
  "make space mode at =
     (if space = 0 then Inl (Logic_error ''incorrect space requested'')
      else let first = at + alloc_meta;
               node = \<lparr>nd_key = (), nd_val = \<lparr>occupied = False, back_link = nullptr, forward_link = nullptr\<rparr>,
                       parent = nullptr, left_subtree = nullptr, right_subtree = nullptr, ext = BLACK\<rparr> in
        Inr \<lparr>blocks = \<lparr>heap = (\<lambda>_. None)(first \<mapsto> node), root = Some first, tree_size = 0\<rparr>,
             trusted = at, space_size = space, fit = mode\<rparr>)"

definition set_fit_mode :: "rb_memory \<Rightarrow> fit_mode \<Rightarrow> rb_memory" where
  "set_fit_mode m mode = m\<lparr>fit := mode\<rparr>"

text \<open>\<open>get_size\<close>, and the writes of the list fields.\<close>

definition get_size :: "rb_memory \<Rightarrow> rb_heap \<Rightarrow> ptr \<Rightarrow> nat option" where
  "get_size m h p = do {
     n \<leftarrow> deref h p;
     a \<leftarrow> p;
     (case forward_link (nd_val n) of
        Some f \<Rightarrow> Some (size_sub (size_sub f a) block_meta)
      | None \<Rightarrow> Some (size_sub (size_sub (size_add (size_add (trusted m) alloc_meta) (space_size m)) a) block_meta))
   }"

definition set_links :: "rb_heap \<Rightarrow> ptr \<Rightarrow> (block_links \<Rightarrow> block_links) \<Rightarrow> rb_heap option" where
  [ptr_defs]: "set_links h p f = write_node h p (\<lambda>n. n\<lparr>nd_val := f (nd_val n)\<rparr>)"

subsection \<open>Searches\<close>

partial_function (option) get_first_free_block :: "rb_memory \<Rightarrow> nat \<Rightarrow> ptr \<Rightarrow> ptr option" where
  "get_first_free_block m requested block =
     (if block = nullptr then Some nullptr
      else do {
        block_size \<leftarrow> get_size m (heap (blocks m)) block;
        (if block_size \<ge> requested then Some block
         else do {
           n \<leftarrow> deref (heap (blocks m)) block;
           get_first_free_block m requested (right_subtree n)
         })
      })"

partial_function (option) get_best_free_block :: "rb_memory \<Rightarrow> nat \<Rightarrow> ptr \<Rightarrow> ptr \<Rightarrow> ptr option" where
  "get_best_free_block m requested block best =
     (if block = nullptr then Some best
      else do {
        block_size \<leftarrow> get_size m (heap (blocks m)) block;
        n \<leftarrow> deref (heap (blocks m)) block;
        let best = (if block_size \<ge> requested then block else best);
        (if block_size < requested then get_best_free_block m requested (right_subtree n) best
         else if block_size > requested then get_best_free_block m requested (left_subtree n) best
         else Some best)
      })"

partial_function (option) get_worst_free_block :: "rb_memory \<Rightarrow> nat \<Rightarrow> ptr \<Rightarrow> ptr \<Rightarrow> ptr option" where
  "get_worst_free_block m requested block worst =
     (if block = nullptr then Some worst
      else do {
        block_size \<leftarrow> get_size m (heap (blocks m)) block;
        n \<leftarrow> deref (heap (blocks m)) block;
        get_worst_free_block m requested (right_subtree n) (if block_size \<ge> requested then block else worst)
      })"

subsection \<open>The tree of the free blocks\<close>

definition rb_small_left_rotation :: "('k, 'v, 'e) rotation" where
  "rb_small_left_rotation h subtree_root =
     (if subtree_root = nullptr then Some (h, subtree_root)
      else do {
        an \<leftarrow> deref h subtree_root;
        (if right_subtree an = nullptr then Some (h, subtree_root)
         else do {
           let a = subtree_root;
           let a_r = right_subtree an;
           rn \<leftarrow> deref h a_r;
           let a_r_l = left_subtree rn;
           h \<leftarrow> replace_child h (parent an) a a_r;
           h \<leftarrow> set_parent h a_r (parent an);
           h \<leftarrow> set_left h a_r a;
           h \<leftarrow> set_parent h a a_r;
           h \<leftarrow> set_right h a a_r_l;
           h \<leftarrow> set_parent_nn h a_r_l a;
           Some (h, a_r)
         })
      })"

definition rb_small_right_rotation :: "('k, 'v, 'e) rotation" where
  "rb_small_right_rotation h subtree_root =
     (if subtree_root = nullptr then Some (h, subtree_root)
      else do {
        an \<leftarrow> deref h subtree_root;
        (if left_subtree an = nullptr then Some (h, subtree_root)
         else do {
           let a = subtree_root;
           let a_l = left_subtree an;
           ln \<leftarrow> deref h a_l;
           let a_l_r = right_subtree ln;
           h \<leftarrow> replace_child h (parent an) a a_l;
           h \<leftarrow> set_parent h a_l (parent an);
           h \<leftarrow> set_right h a_l a;
           h \<leftarrow> set_parent h a a_l;
           h \<leftarrow> set_left h a a_l_r;
           h \<leftarrow> set_parent_nn h a_l_r a;
           Some (h, a_l)
         })
      })"

text \<open>The place of a block of size \<open>sz\<close>: below \<open>par\<close>, after the blocks that are not larger.\<close>

partial_function (option) find_place :: "rb_memory \<Rightarrow> rb_heap \<Rightarrow> nat \<Rightarrow> ptr \<Rightarrow> ptr \<Rightarrow> ptr option" where
  "find_place m h sz par node =
     (if node = nullptr then Some par
      else do {
        node_size \<leftarrow> get_size m h node;
        n \<leftarrow> deref h node;
        (if sz < node_size then find_place m h sz node (left_subtree n)
         else find_place m h sz node (right_subtree n))
      })"

definition link_block :: "rb_memory \<Rightarrow> rb_tree \<Rightarrow> ptr \<Rightarrow> ptr \<Rightarrow> rb_tree option" where
  "link_block m b z par = do {
     h \<leftarrow> set_parent (heap b) z par;
     (if par = nullptr then Some (b\<lparr>heap := h, root := z\<rparr>)
      else do {
        sz \<leftarrow> get_size m h z;
        sp \<leftarrow> get_size m h par;
        h \<leftarrow> (if sz < sp then set_left h par z else set_right h par z);
        Some (b\<lparr>heap := h\<rparr>)
      })
   }"

definition rb_tree_insert :: "rb_memory \<Rightarrow> ptr \<Rightarrow> rb_memory option" where
  "rb_tree_insert m z = do {
     h \<leftarrow> set_left (heap (blocks m)) z nullptr;
     h \<leftarrow> set_right h z nullptr;
     h \<leftarrow> set_ext h z RED;
     sz \<leftarrow> get_size m h z;
     par \<leftarrow> find_place m h sz nullptr (root (blocks m));
     b \<leftarrow> link_block m ((blocks m)\<lparr>heap := h\<rparr>) z par;
     b \<leftarrow> insert_repair rb_small_left_rotation rb_small_right_rotation b z;
     Some (m\<lparr>blocks := b\<rparr>)
   }"

definition rb_tree_remove :: "rb_memory \<Rightarrow> ptr \<Rightarrow> rb_memory option" where
  "rb_tree_remove m z = do {
     (b, x, oc) \<leftarrow> unlink_rb (blocks m) z;
     b \<leftarrow> (if oc = BLACK then do {
             (b, x) \<leftarrow> fix_erase rb_small_left_rotation rb_small_right_rotation b x;
             h \<leftarrow> set_ext_nn (heap b) x BLACK;
             Some (b\<lparr>heap := h\<rparr>)
           } else Some b);
     Some (m\<lparr>blocks := b\<rparr>)
   }"

subsection \<open>Allocation and deallocation\<close>

definition get_free_block :: "rb_memory \<Rightarrow> nat \<Rightarrow> ptr option" where
  "get_free_block m requested = (case fit m of
     First_fit \<Rightarrow> get_first_free_block m requested (root (blocks m))
   | The_best_fit \<Rightarrow> get_best_free_block m requested (root (blocks m)) nullptr
   | The_worst_fit \<Rightarrow> get_worst_free_block m requested (root (blocks m)) nullptr)"

definition upd_heap :: "rb_memory \<Rightarrow> rb_heap \<Rightarrow> rb_memory" where
  "upd_heap m h = m\<lparr>blocks := (blocks m)\<lparr>heap := h\<rparr>\<rparr>"

text \<open>The rest of a taken block becomes a free block behind it.\<close>

definition split_block :: "rb_memory \<Rightarrow> nat \<Rightarrow> nat \<Rightarrow> rb_memory option" where
  "split_block m taken required_size = do {
     let new_block = size_add taken required_size;
     n \<leftarrow> heap (blocks m) taken;
     let fwd = forward_link (nd_val n);
     let h = (heap (blocks m))(new_block \<mapsto>
       \<lparr>nd_key = (), nd_val = \<lparr>occupied = False, back_link = Some taken, forward_link = fwd\<rparr>,
        parent = nullptr, left_subtree = nullptr, right_subtree = nullptr, ext = RED\<rparr>);
     h \<leftarrow> set_links h (Some taken) (\<lambda>l. l\<lparr>forward_link := Some new_block\<rparr>);
     h \<leftarrow> (if fwd = nullptr then Some h else set_links h fwd (\<lambda>l. l\<lparr>back_link := Some new_block\<rparr>));
     rb_tree_insert (upd_heap m h) (Some new_block)
   }"

definition allocate :: "rb_memory \<Rightarrow> nat \<Rightarrow> (alloc_error + rb_memory \<times> nat) option" where
  "allocate m requested = do {
     block \<leftarrow> get_free_block m requested;
     (case block of
        None \<Rightarrow> Some (Inl Bad_alloc)
      | Some taken \<Rightarrow> do {
          m \<leftarrow> rb_tree_remove m (Some taken);
          h \<leftarrow> set_links (heap (blocks m)) (Some taken) (\<lambda>l. l\<lparr>occupied := True\<rparr>);
          h \<leftarrow> set_parent h (Some taken) (Some (trusted m));
          let m = upd_heap m h;
          let required_size = size_add requested block_meta;
          taken_size \<leftarrow> get_size m h (Some taken);
          m \<leftarrow> (if taken_size \<ge> size_add required_size free_meta then split_block m taken required_size else Some m);
          Some (Inr (m, size_add taken block_meta))
        })
   }"

text \<open>\<open>first\<close> takes over the following block \<open>second\<close> in the list.\<close>

definition absorb :: "rb_memory \<Rightarrow> nat \<Rightarrow> nat \<Rightarrow> rb_memory option" where
  "absorb m first second = do {
     n \<leftarrow> heap (blocks m) second;
     let fwd = forward_link (nd_val n);
     h \<leftarrow> set_links (heap (blocks m)) (Some first) (\<lambda>l. l\<lparr>forward_link := fwd\<rparr>);
     h \<leftarrow> (if fwd = nullptr then Some h else set_links h fwd (\<lambda>l. l\<lparr>back_link := Some first\<rparr>));
     Some (upd_heap m h)
   }"

definition is_free :: "rb_heap \<Rightarrow> ptr \<Rightarrow> bool option" where
  "is_free h p = (if p = nullptr then Some False else do { n \<leftarrow> deref h p; Some (\<not> occupied (nd_val n)) })"

definition deallocate :: "rb_memory \<Rightarrow> nat \<Rightarrow> (alloc_error + rb_memory) option" where
  "deallocate m at = do {
     let block = size_sub at block_meta;
     n \<leftarrow> heap (blocks m) block;
     (if parent n \<noteq> Some (trusted m) then Some (Inl (Logic_error ''foreign block''))
      else do {
        h \<leftarrow> set_links (heap (blocks m)) (Some block) (\<lambda>l. l\<lparr>occupied := False\<rparr>);
        let m = upd_heap m h;
        back_free \<leftarrow> is_free h (back_link (nd_val n));
        (m, block) \<leftarrow>
          (if back_free then do {
             prev \<leftarrow> back_link (nd_val n);
             m \<leftarrow> rb_tree_remove m (Some prev);
             m \<leftarrow> absorb m prev block;
             Some (m, prev)
           } else Some (m, block));
        n \<leftarrow> heap (blocks m) block;
        forward_free \<leftarrow> is_free (heap (blocks m)) (forward_link (nd_val n));
        m \<leftarrow> (if forward_free then do {
               fwd \<leftarrow> forward_link (nd_val n);
               m \<leftarrow> rb_tree_remove m (Some fwd);
               absorb m block fwd
             } else Some m);
        m \<leftarrow> rb_tree_insert m (Some block);
        Some (Inr m)
      })
   }"

subsection \<open>The iterator and the reports\<close>

text \<open>An iterator is the pointer to a block; the end is null.\<close>

definition begin_blocks :: "rb_memory \<Rightarrow> ptr" where "begin_blocks m = Some (first_block m)"
definition end_blocks :: "rb_memory \<Rightarrow> ptr" where "end_blocks m = nullptr"

definition iter_next :: "rb_memory \<Rightarrow> ptr \<Rightarrow> ptr option" where
  "iter_next m it = (if it = nullptr then Some it else do { n \<leftarrow> deref (heap (blocks m)) it; Some (forward_link (nd_val n)) })"

definition iter_size :: "rb_memory \<Rightarrow> ptr \<Rightarrow> nat option" where
  "iter_size m it = (if it = nullptr then Some (2 ^ 64 - 1) else get_size m (heap (blocks m)) it)"

definition iter_occupied :: "rb_memory \<Rightarrow> ptr \<Rightarrow> bool option" where
  "iter_occupied m it = do { n \<leftarrow> deref (heap (blocks m)) it; Some (occupied (nd_val n)) }"

partial_function (option) blocks_from :: "rb_memory \<Rightarrow> ptr \<Rightarrow> block_info list \<Rightarrow> block_info list option" where
  "blocks_from m it infos =
     (if it = end_blocks m then Some infos
      else do {
        sz \<leftarrow> iter_size m it;
        occ \<leftarrow> iter_occupied m it;
        nxt \<leftarrow> iter_next m it;
        blocks_from m nxt (infos @ [\<lparr>block_size = sz, is_block_occupied = occ\<rparr>])
      })"

definition get_blocks_info :: "rb_memory \<Rightarrow> block_info list option" where
  "get_blocks_info m = blocks_from m (begin_blocks m) []"

partial_function (option) free_from :: "rb_memory \<Rightarrow> ptr \<Rightarrow> nat \<Rightarrow> nat option" where
  "free_from m it available =
     (if it = end_blocks m then Some available
      else do {
        occ \<leftarrow> iter_occupied m it;
        sz \<leftarrow> iter_size m it;
        nxt \<leftarrow> iter_next m it;
        free_from m nxt (if \<not> occ then size_add available sz else available)
      })"

definition available_memory :: "rb_memory \<Rightarrow> nat option" where
  "available_memory m = free_from m (begin_blocks m) 0"

text \<open>Code equations, so that a program can be evaluated.\<close>

lemma size_sub_code [code]:
  "size_sub x y = (if y \<le> x \<and> x < 18446744073709551616 then x - y
     else (x + 18446744073709551616 - y) mod 18446744073709551616)"
  using size_sub_exact [of y x] by (auto simp: size_sub_def)

lemma size_add_code [code]:
  "size_add x y = (if x + y < 18446744073709551616 then x + y else (x + y) mod 18446744073709551616)"
  by (auto simp: size_add_def)

declare get_first_free_block.simps [code] get_best_free_block.simps [code] get_worst_free_block.simps [code]
  find_place.simps [code] blocks_from.simps [code] free_from.simps [code]
  fix_insert.simps [code] fix_erase.simps [code] go_right.simps [code]

subsection \<open>The rotations\<close>

lemma rb_small_left_node:
  assumes s: "sub_at h rt c p (Node b a (Node d x e))"
  shows "performs h (rb_small_left_rotation h p) rt c (Node (Node b a d) x e)"
proof -
  from s obtain an xn where an: "p = Some a" "h a = Some an" "parent an = ctx_parent c"
      "rep h (Some a) (left_subtree an) b" "right_subtree an = Some x"
    and xn: "h x = Some xn" "parent xn = Some a"
      "rep h (Some x) (left_subtree xn) d" "rep h (Some x) (right_subtree xn) e"
    by (auto simp: sub_at_def split: option.splits)
  from s have s': "sub_at h rt c (Some a) (Node b a (Node d x e))"
    using an(1) by simp
  from replace_child_sub [OF this, of "Some x"] obtain h1
    where h1: "replace_child h (ctx_parent c) (Some a) (Some x) = Some h1"
      "rep_ctx h1 (new_root c rt (Some x)) c (Some x)" "data_at h1 = data_at h"
      and eq: "\<And>y. y \<in> set_tree (Node b a (Node d x e)) \<Longrightarrow> h1 y = h y"
    by auto
  note dc = sub_at_disjoint [OF s]
  have ax: "a \<noteq> x" "a \<notin> set_tree b" "a \<notin> set_tree d" "a \<notin> set_tree e"
      "x \<notin> set_tree b" "x \<notin> set_tree d" "x \<notin> set_tree e" "a \<notin> set_ctx c" "x \<notin> set_ctx c"
    and st: "set_tree b \<inter> set_tree d = {}" "set_tree d \<inter> set_tree b = {}" "set_tree d \<inter> set_tree e = {}"
      "set_tree d \<inter> set_ctx c = {}" "distinct (inorder d)"
    using dc by auto
  have h1ax: "h1 a = Some an" "h1 x = Some xn"
    using an xn eq by auto
  have r1: "rep h1 (Some a) (left_subtree an) b" "rep h1 (Some x) (left_subtree xn) d"
      "rep h1 (Some x) (right_subtree xn) e"
    using an(4) xn(3,4) eq by (auto simp: rep_cong [of _ h1 h])
  have ne: "left_subtree xn \<noteq> Some a" "left_subtree xn \<noteq> Some x"
    using r1 ax by (cases d; auto)+
  note nin = r1 [THEN ptr_notin] and vs = r1 [THEN rep_valid]
  note same = rep_repar_same [where par = "Some x" and t = d]
  have "distinct (inorder (plug c (Node (Node b a d) x e)))"
    using s by (simp add: sub_at_def inorder_plug)
  then show ?thesis
    using an xn
    by (simp add: performs_def sub_at_def rb_small_left_rotation_def h1 h1ax ax ax(1) [THEN not_sym] ne
        vs nin st r1 same Let_def)
qed

lemma rb_small_right_node:
  assumes s: "sub_at h rt c p (Node (Node e x d) a b)"
  shows "performs h (rb_small_right_rotation h p) rt c (Node e x (Node d a b))"
proof -
  from s obtain an xn where an: "p = Some a" "h a = Some an" "parent an = ctx_parent c"
      "rep h (Some a) (right_subtree an) b" "left_subtree an = Some x"
    and xn: "h x = Some xn" "parent xn = Some a"
      "rep h (Some x) (right_subtree xn) d" "rep h (Some x) (left_subtree xn) e"
    by (auto simp: sub_at_def split: option.splits)
  from s have s': "sub_at h rt c (Some a) (Node (Node e x d) a b)"
    using an(1) by simp
  from replace_child_sub [OF this, of "Some x"] obtain h1
    where h1: "replace_child h (ctx_parent c) (Some a) (Some x) = Some h1"
      "rep_ctx h1 (new_root c rt (Some x)) c (Some x)" "data_at h1 = data_at h"
      and eq: "\<And>y. y \<in> set_tree (Node (Node e x d) a b) \<Longrightarrow> h1 y = h y"
    by auto
  note dc = sub_at_disjoint [OF s]
  have ax: "a \<noteq> x" "a \<notin> set_tree b" "a \<notin> set_tree d" "a \<notin> set_tree e"
      "x \<notin> set_tree b" "x \<notin> set_tree d" "x \<notin> set_tree e" "a \<notin> set_ctx c" "x \<notin> set_ctx c"
    and st: "set_tree b \<inter> set_tree d = {}" "set_tree d \<inter> set_tree b = {}" "set_tree d \<inter> set_tree e = {}"
      "set_tree d \<inter> set_ctx c = {}" "distinct (inorder d)"
    using dc by auto
  have h1ax: "h1 a = Some an" "h1 x = Some xn"
    using an xn eq by auto
  have r1: "rep h1 (Some a) (right_subtree an) b" "rep h1 (Some x) (right_subtree xn) d"
      "rep h1 (Some x) (left_subtree xn) e"
    using an(4) xn(3,4) eq by (auto simp: rep_cong [of _ h1 h])
  have ne: "right_subtree xn \<noteq> Some a" "right_subtree xn \<noteq> Some x"
    using r1 ax by (cases d; auto)+
  note nin = r1 [THEN ptr_notin] and vs = r1 [THEN rep_valid]
  note same = rep_repar_same [where par = "Some x" and t = d]
  have "distinct (inorder (plug c (Node e x (Node d a b))))"
    using s by (simp add: sub_at_def inorder_plug)
  then show ?thesis
    using an xn
    by (simp add: performs_def sub_at_def rb_small_right_rotation_def h1 h1ax ax ax(1) [THEN not_sym] ne
        vs nin st r1 same Let_def)
qed


lemma rb_small_left_performs:
  assumes s: "sub_at h rt c p t"
  shows "performs h (rb_small_left_rotation h p) rt c (rotl t)"
proof (cases t)
  case Leaf
  then show ?thesis using s sub_at_ptr [OF s] by (simp add: performs_def rb_small_left_rotation_def new_root_def sub_at_def)
next
  case (Node l a u)
  obtain n where "p = Some a" "h a = Some n" "right_subtree n = root_ptr u" using sub_atD [OF s [unfolded Node]] .
  then show ?thesis
    using rb_small_left_node [of h rt c p l a] s Node
    by (cases u) (auto simp: performs_def rb_small_left_rotation_def new_root_def sub_at_def)
qed

lemma rb_small_right_performs:
  assumes s: "sub_at h rt c p t"
  shows "performs h (rb_small_right_rotation h p) rt c (rotr t)"
proof (cases t)
  case Leaf
  then show ?thesis using s sub_at_ptr [OF s] by (simp add: performs_def rb_small_right_rotation_def new_root_def sub_at_def)
next
  case (Node u a l)
  obtain n where "p = Some a" "h a = Some n" "left_subtree n = root_ptr u" using sub_atD [OF s [unfolded Node]] .
  then show ?thesis
    using rb_small_right_node [of h rt c p _ _ _ a l] s Node
    by (cases u) (auto simp: performs_def rb_small_right_rotation_def new_root_def sub_at_def)
qed

lemma rb_small_left_frame:
  assumes s: "sub_at h rt c p t" and r: "rb_small_left_rotation h p = Some (h', v)" and x: "x \<notin> set_tree (plug c t)"
  shows "h' x = h x"
proof (cases t)
  case Leaf
  then show ?thesis using r sub_at_ptr [OF s] by (simp add: rb_small_left_rotation_def)
next
  case t: (Node l a u)
  obtain n where n: "p = Some a" "h a = Some n" "parent n = ctx_parent c" "left_subtree n = root_ptr l" "right_subtree n = root_ptr u"
    using sub_atD [OF s [unfolded t]] .
  have f: "ctx_parent c \<noteq> Some x" "a \<noteq> x" "root_ptr l \<noteq> Some x" "root_ptr u \<noteq> Some x"
    using x t by (auto simp: set_tree_plug dest: root_ptr_in ctx_parent_frame)
  show ?thesis
  proof (cases u)
    case Leaf
    then show ?thesis using r n by (simp add: rb_small_left_rotation_def)
  next
    case (Node d y e)
    obtain m where m: "h y = Some m" "left_subtree m = root_ptr d" "right_subtree m = root_ptr e"
      using sub_atD [OF sub_at_rightI [OF s [unfolded t], unfolded Node]] by auto
    have g: "y \<noteq> x" "root_ptr d \<noteq> Some x" "root_ptr e \<noteq> Some x"
      using x t Node by (auto simp: set_tree_plug dest: root_ptr_in)
    show ?thesis
      using r n m f g Node by (auto simp: rb_small_left_rotation_def Let_def bind_eq_Some_conv dest!: write_frame [where x = x])
  qed
qed

lemma rb_small_right_frame:
  assumes s: "sub_at h rt c p t" and r: "rb_small_right_rotation h p = Some (h', v)" and x: "x \<notin> set_tree (plug c t)"
  shows "h' x = h x"
proof (cases t)
  case Leaf
  then show ?thesis using r sub_at_ptr [OF s] by (simp add: rb_small_right_rotation_def)
next
  case t: (Node u a l)
  obtain n where n: "p = Some a" "h a = Some n" "parent n = ctx_parent c" "left_subtree n = root_ptr u" "right_subtree n = root_ptr l"
    using sub_atD [OF s [unfolded t]] .
  have f: "ctx_parent c \<noteq> Some x" "a \<noteq> x" "root_ptr l \<noteq> Some x" "root_ptr u \<noteq> Some x"
    using x t by (auto simp: set_tree_plug dest: root_ptr_in ctx_parent_frame)
  show ?thesis
  proof (cases u)
    case Leaf
    then show ?thesis using r n by (simp add: rb_small_right_rotation_def)
  next
    case (Node d y e)
    obtain m where m: "h y = Some m" "left_subtree m = root_ptr d" "right_subtree m = root_ptr e"
      using sub_atD [OF sub_at_leftI [OF s [unfolded t], unfolded Node]] by auto
    have g: "y \<noteq> x" "root_ptr d \<noteq> Some x" "root_ptr e \<noteq> Some x"
      using x t Node by (auto simp: set_tree_plug dest: root_ptr_in)
    show ?thesis
      using r n m f g Node by (auto simp: rb_small_right_rotation_def Let_def bind_eq_Some_conv dest!: write_frame [where x = x])
  qed
qed

interpretation rba: rotations rb_small_left_rotation rb_small_right_rotation
  by unfold_locales (erule rb_small_left_performs rb_small_right_performs rb_small_left_frame rb_small_right_frame; assumption)+

subsection \<open>Sizes\<close>

lemma get_size_blocks [simp]: "get_size (m\<lparr>blocks := b\<rparr>) = get_size m"
  by (simp add: get_size_def fun_eq_iff cong: option.case_cong)

lemma get_size_kv: "kv_at h' = kv_at h \<Longrightarrow> get_size m h' p = get_size m h p"
proof (cases p)
  case (Some a)
  assume "kv_at h' = kv_at h"
  then have "kv_at h' a = kv_at h a" by simp
  then show ?thesis using Some by (auto simp: get_size_def kv_at_def split: option.splits)
qed (simp add: get_size_def ptr_defs)

lemma get_size_at: "kv_at h a = Some (k, l) \<Longrightarrow> get_size m h (Some a) = Some (case forward_link l of
    Some f \<Rightarrow> size_sub (size_sub f a) block_meta
  | None \<Rightarrow> size_sub (size_sub (size_add (size_add (trusted m) alloc_meta) (space_size m)) a) block_meta)"
  by (auto simp: get_size_def kv_at_def split: option.splits)

subsection \<open>The place of a block in the tree\<close>

fun place :: "(nat \<Rightarrow> nat) \<Rightarrow> nat \<Rightarrow> nat tree \<Rightarrow> ctx" where
  "place f s Leaf = []"
| "place f s (Node l a r) = (if s < f a then place f s l @ [InLeft a r] else place f s r @ [InRight l a])"

lemma plug_place: "plug (place f s t) Leaf = t"
  by (induction t) (simp_all add: plug_append)

lemma place_sorted:
  "sorted (map f (inorder t)) \<Longrightarrow> before (place f s t) = filter (\<lambda>x. f x \<le> s) (inorder t) \<and>
     after (place f s t) = filter (\<lambda>x. s < f x) (inorder t)"
proof (induction t)
  case (Node l a r)
  note so = Node.prems [simplified, unfolded sorted_append, simplified]
  have l: "s < f a \<Longrightarrow> filter (\<lambda>x. f x \<le> s) (inorder r) = [] \<and> filter (\<lambda>x. s < f x) (inorder r) = inorder r"
    using so by (force simp: filter_empty_conv filter_id_conv)
  have g: "\<not> s < f a \<Longrightarrow> filter (\<lambda>x. f x \<le> s) (inorder l) = inorder l \<and> filter (\<lambda>x. s < f x) (inorder l) = []"
    using so by (force simp: filter_empty_conv filter_id_conv)
  show ?case using Node.IH so l g by (auto simp: around_append)
qed simp

fun hole :: "ctx \<Rightarrow> ptr \<Rightarrow> ptr" where
  "hole [] q = q"
| "hole (k # c) q = ctx_parent (k # c)"

lemma hole_append: "hole (c @ d) q = hole c (hole d q)"
  by (cases c; cases d) (simp_all, metis around_append(4) list.distinct(1) append_Cons)+

lemma find_place_spec:
  "rep h q p t \<Longrightarrow> \<forall>x \<in> set_tree t. get_size m h (Some x) = Some (f x) \<Longrightarrow>
     find_place m h s par p = Some (hole (place f s t) par)"
proof (induction t arbitrary: q p par)
  case Leaf
  then show ?case by (subst find_place.simps) simp
next
  case (Node l a r)
  then obtain n where "p = Some a" "h a = Some n" "rep h (Some a) (left_subtree n) l" "rep h (Some a) (right_subtree n) r"
    by (auto split: option.splits)
  then show ?case using Node by (subst find_place.simps) (simp add: hole_append)
qed

lemma place_sides:
  "place f s t = InLeft x r # c \<Longrightarrow> s < f x" "place f s t = InRight l x # c \<Longrightarrow> \<not> s < f x"
proof (induction t arbitrary: c)
  case (Node l0 a r0)
  { case 1 then show ?case using Node by (cases "place f s l0"; cases "place f s r0") (auto split: if_splits) }
  { case 2 then show ?case using Node by (cases "place f s l0"; cases "place f s r0") (auto split: if_splits) }
qed simp_all

subsection \<open>Insertion into the tree of the free blocks\<close>

text \<open>The new node hangs in the tree, before the colours are repaired.\<close>

lemma link_block_spec:
  assumes t: "bst_rep b t" and z: "z \<notin> set_tree t" and zn: "kv_at (heap b) z = Some ((), l)"
    and f: "\<forall>x \<in> insert z (set_tree t). get_size m (heap b) (Some x) = Some (f x)"
    and h: "h = (heap b)(z \<mapsto> node_ctor q () l RED)" and c: "c = place f (f z) t"
  shows "\<exists>b1. link_block m (b\<lparr>heap := h\<rparr>) (Some z) (ctx_parent c) = Some b1 \<and> bst_rep b1 (plug c (Node Leaf z Leaf)) \<and>
     data_at (heap b1) = (data_at (heap b))(z \<mapsto> ((), l, RED)) \<and> tree_size b1 = tree_size b \<and>
     (\<forall>x. x \<notin> insert z (set_tree t) \<longrightarrow> heap b1 x = heap b x)"
proof -
  define h1 where "h1 = (heap b)(z \<mapsto> node_ctor (ctx_parent c) () l RED)"
  have h1: "set_parent h (Some z) (ctx_parent c) = Some h1" by (simp add: h h1_def node_ctor_def)
  define b0 where "b0 = b\<lparr>heap := (heap b)(z := None)\<rparr>"
  have pc: "plug c Leaf = t" using plug_place c by simp
  have b0: "bst_rep b0 (plug c Leaf)" using t z pc by (simp add: bst_rep_def b0_def)
  have z0: "heap b0 z = None" by (simp add: b0_def)
  have h1': "h1 = (heap b0)(z \<mapsto> node_ctor (ctx_parent c) () l RED)" by (simp add: h1_def b0_def)
  have kv: "kv_at h1 = kv_at (heap b)" using zn by (auto simp: h1_def kv_at_def node_ctor_def)
  have dd: "(data_at (heap b0))(z \<mapsto> ((), l, RED)) = (data_at (heap b))(z \<mapsto> ((), l, RED))" by (auto simp: b0_def data_at_def)
  have dis: "distinct (inorder (plug c (Node Leaf z Leaf)))" using b0 z pc
    by (auto simp: bst_rep_def inorder_plug simp del: set_inorder) (auto simp: set_tree_plug set_before_after [symmetric])
  have sz: "get_size m h1 (Some x) = Some (f x)" if "x \<in> insert z (set_tree t)" for x
    unfolding get_size_kv [OF kv] using f that by blast
  show ?thesis
  proof (cases c)
    case Nil
    define b1 where "b1 = b\<lparr>heap := h1, root := Some z\<rparr>"
    have "bst_rep b1 (plug c (Node Leaf z Leaf))" using Nil by (simp add: bst_rep_def b1_def h1_def node_ctor_def)
    moreover have "data_at h1 = (data_at (heap b))(z \<mapsto> ((), l, RED))" by (auto simp: h1_def data_at_def node_ctor_def)
    ultimately show ?thesis using Nil h1 by (intro exI [of _ b1]) (simp add: link_block_def b1_def h1_def)
  next
    case (Cons k c')
    show ?thesis
    proof (cases k)
      case (InLeft x r)
      have h1x: "h1 = (heap b0)(z \<mapsto> node_ctor (Some x) () l RED)" using h1' Cons InLeft by simp
      obtain h2 where h2: "set_left h1 (Some x) (Some z) = Some h2" "rep h2 nullptr (root b0) (plug c (Node Leaf z Leaf))"
        "data_at h2 = (data_at (heap b0))(z \<mapsto> ((), l, RED))"
        using link_left [OF b0 [unfolded Cons InLeft] z0 h1x] Cons InLeft by blast
      have x: "x \<in> set_tree t" "f z < f x" using pc Cons InLeft c place_sides(1) [of f "f z" t x r c'] by (auto simp: set_tree_plug)
      define b1 where "b1 = b\<lparr>heap := h2\<rparr>"
      have "link_block m (b\<lparr>heap := h\<rparr>) (Some z) (ctx_parent c) = Some b1"
        using h1 h2(1) sz [of z] sz [of x] x Cons InLeft by (simp add: link_block_def b1_def)
      moreover have "heap b1 y = heap b y" if "y \<notin> insert z (set_tree t)" for y
        using write_frame(1) [OF h2(1), of y] x(1) that by (auto simp: b1_def h1_def)
      ultimately show ?thesis using h2 dis dd by (intro exI [of _ b1]) (simp add: b1_def bst_rep_def b0_def)
    next
      case (InRight l' x)
      have h1x: "h1 = (heap b0)(z \<mapsto> node_ctor (Some x) () l RED)" using h1' Cons InRight by simp
      obtain h2 where h2: "set_right h1 (Some x) (Some z) = Some h2" "rep h2 nullptr (root b0) (plug c (Node Leaf z Leaf))"
        "data_at h2 = (data_at (heap b0))(z \<mapsto> ((), l, RED))"
        using link_right [OF b0 [unfolded Cons InRight] z0 h1x] Cons InRight by blast
      have x: "x \<in> set_tree t" "\<not> f z < f x" using pc Cons InRight c place_sides(2) [of f "f z" t l' x c'] by (auto simp: set_tree_plug)
      define b1 where "b1 = b\<lparr>heap := h2\<rparr>"
      have "link_block m (b\<lparr>heap := h\<rparr>) (Some z) (ctx_parent c) = Some b1"
        using h1 h2(1) sz [of z] sz [of x] x Cons InRight by (simp add: link_block_def b1_def)
      moreover have "heap b1 y = heap b y" if "y \<notin> insert z (set_tree t)" for y
        using write_frame(2) [OF h2(1), of y] x(1) that by (auto simp: b1_def h1_def)
      ultimately show ?thesis using h2 dis dd by (intro exI [of _ b1]) (simp add: b1_def bst_rep_def b0_def)
    qed
  qed
qed

text \<open>\<open>m'\<close> differs from \<open>m\<close> in the tree nodes \<open>S\<close> only and has the same flags and links everywhere.\<close>

definition same_blocks :: "rb_memory \<Rightarrow> rb_memory \<Rightarrow> nat set \<Rightarrow> bool" where
  "same_blocks m m' S \<longleftrightarrow> (\<exists>b'. m' = m\<lparr>blocks := b'\<rparr>) \<and> kv_at (heap (blocks m')) = kv_at (heap (blocks m)) \<and>
     (\<forall>x. x \<notin> S \<longrightarrow> heap (blocks m') x = heap (blocks m) x)"

lemma same_colors_data:
  "data_at h' = (data_at h)(z \<mapsto> d) \<Longrightarrow> z \<notin> S \<Longrightarrow> same_colors h' h S"
proof -
  assume a: "data_at h' = (data_at h)(z \<mapsto> d)" "z \<notin> S"
  have "ext_at h' x = ext_at h x" if "x \<in> S" for x
  proof -
    have "x \<noteq> z" using a(2) that by auto
    then have "data_at h' x = data_at h x" using a(1) by simp
    then show ?thesis by (auto simp: data_at_def ext_at_def split: option.splits)
  qed
  then show ?thesis by (simp add: same_colors_def)
qed

lemma rb_tree_insert_spec:
  assumes t: "bst_rep (blocks m) t" and z: "z \<notin> set_tree t" and al: "kv_at (heap (blocks m)) z = Some ((), l)"
    and f: "\<forall>x \<in> insert z (set_tree t). get_size m (heap (blocks m)) (Some x) = Some (f x)"
    and so: "sorted (map f (inorder t))"
  shows "rb_tree_insert m (Some z) = Some m' \<Longrightarrow> same_blocks m m' (insert z (set_tree t)) \<and>
       (\<exists>t'. bst_rep (blocks m') t' \<and> \<not> red (heap (blocks m')) t' \<and>
         inorder t' = filter (\<lambda>x. f x \<le> f z) (inorder t) @ z # filter (\<lambda>x. f z < f x) (inorder t))"
    and "\<not> red (heap (blocks m)) t \<Longrightarrow> rb_tree_insert m (Some z) \<noteq> None"
    and "rb_inv (heap (blocks m)) t \<Longrightarrow> rb_tree_insert m (Some z) = Some m' \<Longrightarrow> bst_rep (blocks m') t' \<Longrightarrow> rb_inv (heap (blocks m')) t'"
proof -
  define b where "b = blocks m"
  define c where "c = place f (f z) t"
  obtain n where n: "heap b z = Some n" "nd_val n = l" using al by (auto simp: b_def kv_at_def split: option.splits)
  define q where "q = parent n"
  define h where "h = (heap b)(z \<mapsto> node_ctor q () l RED)"
  have h: "do { h \<leftarrow> set_left (heap b) (Some z) nullptr; h \<leftarrow> set_right h (Some z) nullptr; set_ext h (Some z) RED } = Some h"
    using n by (simp add: h_def node_ctor_def q_def put_ext_def) (cases n; simp)
  have kvh: "kv_at h = kv_at (heap b)" using al by (auto simp: h_def kv_at_def node_ctor_def b_def)
  have sz: "get_size m h (Some x) = Some (f x)" if "x \<in> insert z (set_tree t)" for x
    unfolding get_size_kv [OF kvh] using f that by (auto simp: b_def)
  have rt: "rep h nullptr (root b) t" using t z by (simp add: bst_rep_def h_def b_def)
  have "hole c nullptr = ctx_parent c" by (cases c) simp_all
  then have fp: "find_place m h (f z) nullptr (root b) = Some (ctx_parent c)"
    using find_place_spec [OF rt, of m f "f z" nullptr] sz by (auto simp: c_def)
  obtain b1 where b1: "link_block m (b\<lparr>heap := h\<rparr>) (Some z) (ctx_parent c) = Some b1" "bst_rep b1 (plug c (Node Leaf z Leaf))"
    "data_at (heap b1) = (data_at (heap b))(z \<mapsto> ((), l, RED))" "\<forall>x. x \<notin> insert z (set_tree t) \<longrightarrow> heap b1 x = heap b x"
    using link_block_spec [OF t [folded b_def] z al [folded b_def] f [folded b_def] h_def c_def] by blast
  have e: "rb_tree_insert m (Some z) =
      do { b \<leftarrow> insert_repair rb_small_left_rotation rb_small_right_rotation b1 (Some z); Some (m\<lparr>blocks := b\<rparr>) }"
    using h fp b1(1) sz [of z] unfolding rb_tree_insert_def b_def [symmetric] by (auto simp: bind_eq_Some_conv)
  have s1: "sub_at (heap b1) (root b1) c (Some z) (Node Leaf z Leaf)" using sub_at_plug_ext [OF b1(2)] by simp
  have ord: "inorder (plug c (Node Leaf z Leaf)) =
      filter (\<lambda>x. f x \<le> f z) (inorder t) @ z # filter (\<lambda>x. f z < f x) (inorder t)"
    using place_sorted [OF so, of "f z"] by (simp add: inorder_plug c_def)
  have kv1: "kv_at (heap b1) = kv_at (heap b)"
  proof
    fix x
    have "data_at (heap b1) x = (if x = z then Some ((), l, RED) else data_at (heap b) x)" using b1(3) by simp
    then show "kv_at (heap b1) x = kv_at (heap b) x" using al by (auto simp: kv_at_data b_def)
  qed
  have ctx: "set_ctx c = set_tree t" using plug_place [of f "f z" t] set_tree_plug [of c Leaf] by (simp add: c_def)
  have col: "same_colors (heap b1) (heap b) (set_ctx c)" using same_colors_data [OF b1(3)] z ctx by simp
  show "rb_tree_insert m (Some z) \<noteq> None" if "\<not> red (heap (blocks m)) t"
  proof -
    have "c = [] \<or> \<not> red (heap b1) (plug c (Node Leaf z Leaf))"
      using red_plug_colors [OF _ col, of "Node Leaf z Leaf" Leaf] that plug_place [of f "f z" t] by (auto simp: c_def b_def)
    then show ?thesis using rba.insert_repair_returns [OF s1] e by auto
  qed
  show "same_blocks m m' (insert z (set_tree t)) \<and> (\<exists>t'. bst_rep (blocks m') t' \<and> \<not> red (heap (blocks m')) t' \<and>
         inorder t' = filter (\<lambda>x. f x \<le> f z) (inorder t) @ z # filter (\<lambda>x. f z < f x) (inorder t))"
    if ins: "rb_tree_insert m (Some z) = Some m'"
  proof -
    obtain b2 where b2: "insert_repair rb_small_left_rotation rb_small_right_rotation b1 (Some z) = Some b2" "m' = m\<lparr>blocks := b2\<rparr>"
      using ins e by (auto simp: bind_eq_Some_conv)
    have k: "keeps b1 (inorder (plug c (Node Leaf z Leaf))) b2"
      using rba.insert_repair_keeps [OF b2(1) sub_at_lists [OF s1 refl]] by (simp add: node_ptrs_def set_tree_plug)
    then obtain t' where t': "bst_rep b2 t'" "inorder t' = inorder (plug c (Node Leaf z Leaf))" by (auto simp: keeps_def lists_def)
    have "\<not> red (heap b2) t'" using insert_repair_black [OF b2(1) t'(1)] .
    moreover have "heap b2 x = heap b x" if "x \<notin> insert z (set_tree t)" for x
      using k b1(4) that ctx by (simp add: keeps_def set_tree_plug)
    ultimately show ?thesis using b2(2) t' k kv1 ord by (auto simp: same_blocks_def keeps_def b_def)
  qed
  show "rb_inv (heap (blocks m')) t'"
    if inv: "rb_inv (heap (blocks m)) t" and ins: "rb_tree_insert m (Some z) = Some m'" and t': "bst_rep (blocks m') t'"
  proof -
    have i: "rb_inv (heap b) (plug c Leaf)" using inv plug_place [of f "f z" t] by (simp add: c_def b_def)
    obtain b2 t2 where b2: "insert_repair rb_small_left_rotation rb_small_right_rotation b1 (Some z) = Some b2" "bst_rep b2 t2" "rb_inv (heap b2) t2"
      using rba.insert_repair_spec [OF i b1(2,3)] by blast
    have "blocks m' = b2" using ins e b2(1) by auto
    then show ?thesis using b2 t' bst_rep_unique by metis
  qed
qed

subsection \<open>Removal from the tree of the free blocks\<close>

lemma rb_tree_remove_spec:
  assumes t: "bst_rep (blocks m) t" and i: "inorder t = xs @ z # ys"
  shows "rb_tree_remove m (Some z) = Some m' \<Longrightarrow> same_blocks m m' (set_tree t) \<and>
       (\<exists>t'. bst_rep (blocks m') t' \<and> inorder t' = xs @ ys)"
    and "rb_inv (heap (blocks m)) t \<Longrightarrow> \<exists>m' t'. rb_tree_remove m (Some z) = Some m' \<and> bst_rep (blocks m') t' \<and> \<not> red (heap (blocks m')) t'"
proof -
  define b where "b = blocks m"
  have l: "lists b (xs @ z # ys)" using t i by (auto simp: lists_def b_def)
  obtain b1 s oc t1 where b1: "unlink_rb b (Some z) = Some (b1, root_ptr s, oc)" "relists b (xs @ z # ys) b1 (xs @ ys)"
    "set_tree s \<subseteq> set (xs @ ys)" "bst_rep b1 t1"
    and col: "\<And>t. bst_rep b t \<Longrightarrow> rb_inv (heap b) t \<Longrightarrow> (s = Leaf \<or> red (heap b1) s \<and> oc = BLACK) \<and> \<not> red (paint (heap b1) s) t1"
    using unlink_rb_relists [OF l] by blast
  have l1: "lists b1 (xs @ ys)" using b1(2) by (simp add: relists_def)
  have x: "root_ptr s \<in> insert None (node_ptrs (xs @ ys))" using b1(3) root_ptr_in [of s] by (cases "root_ptr s") (auto simp: node_ptrs_def)
  have st: "set (xs @ z # ys) = set_tree t" using i by (metis set_inorder)
  have same: "same_blocks m (m\<lparr>blocks := b2\<rparr>) (set_tree t) \<and> (\<exists>t'. bst_rep b2 t' \<and> inorder t' = xs @ ys)"
    if "keeps b1 (xs @ ys) b2" for b2
  proof -
    have "relists b (xs @ z # ys) b2 (xs @ ys)" using relists_keeps [OF b1(2) that] by auto
    then show ?thesis using st by (auto simp: same_blocks_def relists_def lists_def b_def)
  qed
  show "same_blocks m m' (set_tree t) \<and> (\<exists>t'. bst_rep (blocks m') t' \<and> inorder t' = xs @ ys)"
    if r: "rb_tree_remove m (Some z) = Some m'"
  proof (cases "oc = BLACK")
    case True
    then obtain b2 x' h where b2: "fix_erase rb_small_left_rotation rb_small_right_rotation b1 (root_ptr s) = Some (b2, x')"
      "set_ext_nn (heap b2) x' BLACK = Some h" "m' = m\<lparr>blocks := b2\<lparr>heap := h\<rparr>\<rparr>"
      using r b1(1) by (auto simp: rb_tree_remove_def b_def bind_eq_Some_conv)
    note k = rba.fix_erase_keeps [OF b2(1) l1 x]
    have "keeps b2 (xs @ ys) (b2\<lparr>heap := h\<rparr>)" using rba.keeps_ext_nn [OF keeps_lists [OF k [THEN conjunct1]] b2(2)] k by blast
    then show ?thesis using same keeps_trans [OF k [THEN conjunct1]] b2(3) by fastforce
  next
    case False
    then have "m' = m\<lparr>blocks := b1\<rparr>" using r b1(1) by (auto simp: rb_tree_remove_def b_def bind_eq_Some_conv)
    then show ?thesis using same [OF keeps_refl [OF l1]] by simp
  qed
  show "\<exists>m' t'. rb_tree_remove m (Some z) = Some m' \<and> bst_rep (blocks m') t' \<and> \<not> red (heap (blocks m')) t'"
    if inv: "rb_inv (heap (blocks m)) t"
  proof -
    note c = col [OF t [folded b_def] inv [folded b_def]]
    obtain xs1 where "bst_rep b1 t1" "inorder t1 = xs @ ys" using l1 b1(4) bst_rep_unique by (metis lists_def)
    then have al: "y \<in> set_tree s \<Longrightarrow> heap b1 y \<noteq> None" for y
      using b1(3) rep_alloc unfolding bst_rep_def by (metis set_inorder subsetD)
    have r: "bst_rep (b1\<lparr>heap := paint (heap b1) s\<rparr>) t1"
      using b1(4) by (simp add: bst_rep_def paint_def split: option.split)
    show ?thesis
    proof (cases "oc = BLACK")
      case True
      have "fix_erase rb_small_left_rotation rb_small_right_rotation b1 (root_ptr s) = Some (b1, root_ptr s)"
        using fix_erase_stop [of s b1] c by blast
      moreover have "set_ext_nn (heap b1) (root_ptr s) BLACK = Some (paint (heap b1) s)" using set_ext_nn_paint al by blast
      ultimately have "rb_tree_remove m (Some z) = Some (m\<lparr>blocks := b1\<lparr>heap := paint (heap b1) s\<rparr>\<rparr>)"
        using b1(1) True by (simp add: rb_tree_remove_def b_def)
      then show ?thesis using r c by (intro exI [of _ "m\<lparr>blocks := b1\<lparr>heap := paint (heap b1) s\<rparr>\<rparr>"] exI [of _ t1]) simp
    next
      case False
      then have "s = Leaf" using c by blast
      then show ?thesis using False b1(1,4) c
        by (intro exI [of _ "m\<lparr>blocks := b1\<rparr>"] exI [of _ t1]) (simp add: rb_tree_remove_def b_def paint_def)
    qed
  qed
qed

subsection \<open>The searches\<close>

text \<open>What each fit mode promises of the block it finds among the free blocks \<open>xs\<close>, sizes given by \<open>f\<close>. The first
  fit of this allocator is the first one met on the way to the largest block.\<close>

definition fits :: "fit_mode \<Rightarrow> nat \<Rightarrow> (nat \<Rightarrow> nat) \<Rightarrow> nat list \<Rightarrow> ptr \<Rightarrow> bool" where
  "fits mode n f xs r \<longleftrightarrow> (case mode of
     First_fit \<Rightarrow> (case r of None \<Rightarrow> \<forall>x \<in> set xs. f x < n | Some x \<Rightarrow> x \<in> set xs \<and> n \<le> f x)
   | The_best_fit \<Rightarrow> is_best (\<lambda>x. n \<le> f x) f xs r
   | The_worst_fit \<Rightarrow> is_worst (\<lambda>x. n \<le> f x) f xs r)"

lemma fits_None: "fits mode n f xs None \<longleftrightarrow> (\<forall>x \<in> set xs. f x < n)"
  by (cases mode) (auto simp: fits_def is_best_def is_worst_def not_le)

lemma fits_Some: "fits mode n f xs (Some x) \<Longrightarrow> x \<in> set xs \<and> n \<le> f x"
  by (cases mode) (auto simp: fits_def is_best_def is_worst_def)

lemma sorted_node:
  assumes "sorted (map f (inorder (Node l a r)))"
  shows "sorted (map f (inorder l))" "sorted (map f (inorder r))" "x \<in> set_tree l \<Longrightarrow> f x \<le> f a" "x \<in> set_tree r \<Longrightarrow> f a \<le> f x"
  using assms by (auto simp: sorted_append)

lemma first_spec:
  "rep (heap (blocks m)) q p t \<Longrightarrow> \<forall>x \<in> set_tree t. get_size m (heap (blocks m)) (Some x) = Some (f x) \<Longrightarrow> sorted (map f (inorder t)) \<Longrightarrow>
     \<exists>r. get_first_free_block m n p = Some r \<and> fits First_fit n f (inorder t) r"
proof (induction t arbitrary: q p)
  case Leaf
  then show ?case by (subst get_first_free_block.simps) (simp add: fits_def)
next
  case (Node l a r)
  then obtain an where an: "p = Some a" "heap (blocks m) a = Some an" "rep (heap (blocks m)) (Some a) (right_subtree an) r"
    by (auto split: option.splits)
  note so = sorted_node [OF Node.prems(3)]
  obtain x where "get_first_free_block m n (right_subtree an) = Some x" "fits First_fit n f (inorder r) x"
    using Node.IH(2) [OF an(3) _ so(2)] Node.prems(2) by auto
  then show ?case using an Node.prems(2) so(3) by (subst get_first_free_block.simps) (fastforce simp: fits_def split: option.splits)
qed

lemma best_spec:
  "rep (heap (blocks m)) q p t \<Longrightarrow> \<forall>x \<in> set_tree t. get_size m (heap (blocks m)) (Some x) = Some (f x) \<Longrightarrow> sorted (map f (inorder t)) \<Longrightarrow>
     \<exists>r. get_best_free_block m n p best = Some r \<and> (if \<forall>x \<in> set_tree t. f x < n then r = best else r \<noteq> None \<and> fits The_best_fit n f (inorder t) r)"
proof (induction t arbitrary: q p best)
  case Leaf
  then show ?case by (subst get_best_free_block.simps) simp
next
  case (Node l a r)
  then obtain an where an: "p = Some a" "heap (blocks m) a = Some an" "rep (heap (blocks m)) (Some a) (left_subtree an) l"
    "rep (heap (blocks m)) (Some a) (right_subtree an) r"
    by (auto split: option.splits)
  note so = sorted_node [OF Node.prems(3)]
  have sz: "get_size m (heap (blocks m)) (Some a) = Some (f a)" using Node.prems(2) by simp
  note u = get_best_free_block.simps [of m n "Some a" best]
  consider "f a < n" | "n < f a" | "f a = n" by linarith
  then show ?case
  proof cases
    case 1
    obtain x where x: "get_best_free_block m n (right_subtree an) best = Some x"
      "if \<forall>x \<in> set_tree r. f x < n then x = best else x \<noteq> None \<and> fits The_best_fit n f (inorder r) x"
      using Node.IH(2) [OF an(4) _ so(2), of best] Node.prems(2) by auto
    have "\<forall>x \<in> set_tree l. f x < n" using so(3) 1 by (meson le_less_trans)
    then show ?thesis using x u an sz 1 by (auto simp: fits_def is_best_def split: if_splits) (meson not_le)+
  next
    case 2
    obtain x where x: "get_best_free_block m n (left_subtree an) (Some a) = Some x"
      "if \<forall>x \<in> set_tree l. f x < n then x = Some a else x \<noteq> None \<and> fits The_best_fit n f (inorder l) x"
      using Node.IH(1) [OF an(3) _ so(1), of "Some a"] Node.prems(2) by auto
    show ?thesis
    proof (cases "\<forall>x \<in> set_tree l. f x < n")
      case True
      then have "x = Some a" using x(2) by simp
      then show ?thesis using x(1) u an sz 2 so(4) True by (auto simp: fits_def is_best_def)
    next
      case False
      then obtain y where y: "x = Some y" "y \<in> set_tree l" "n \<le> f y" "\<forall>z \<in> set_tree l. n \<le> f z \<longrightarrow> f y \<le> f z"
        using x(2) [unfolded if_not_P [OF False]] by (auto simp: fits_def is_best_def)
      have "f y \<le> f z" if "z = a \<or> z \<in> set_tree r" for z using so(3) [OF y(2)] so(4) [of z] that by auto
      then show ?thesis using x(1) u an sz 2 y False by (auto simp: fits_def is_best_def)
    qed
  next
    case 3
    have "fits The_best_fit n f (inorder (Node l a r)) (Some a)" using 3 by (simp add: fits_def is_best_def)
    then show ?thesis using u an sz 3 by auto
  qed
qed

lemma worst_spec:
  "rep (heap (blocks m)) q p t \<Longrightarrow> \<forall>x \<in> set_tree t. get_size m (heap (blocks m)) (Some x) = Some (f x) \<Longrightarrow> sorted (map f (inorder t)) \<Longrightarrow>
     \<exists>r. get_worst_free_block m n p worst = Some r \<and> (if \<forall>x \<in> set_tree t. f x < n then r = worst else r \<noteq> None \<and> fits The_worst_fit n f (inorder t) r)"
proof (induction t arbitrary: q p worst)
  case Leaf
  then show ?case by (subst get_worst_free_block.simps) simp
next
  case (Node l a r)
  then obtain an where an: "p = Some a" "heap (blocks m) a = Some an" "rep (heap (blocks m)) (Some a) (right_subtree an) r"
    by (auto split: option.splits)
  note so = sorted_node [OF Node.prems(3)]
  have sz: "get_size m (heap (blocks m)) (Some a) = Some (f a)" using Node.prems(2) by simp
  define acc where "acc = (if n \<le> f a then Some a else worst)"
  obtain x where x: "get_worst_free_block m n (right_subtree an) acc = Some x"
      "if \<forall>x \<in> set_tree r. f x < n then x = acc else x \<noteq> None \<and> fits The_worst_fit n f (inorder r) x"
    using Node.IH(2) [OF an(3) _ so(2), of acc] Node.prems(2) by auto
  have e: "get_worst_free_block m n p worst = Some x"
    using an sz x(1) by (subst get_worst_free_block.simps) (auto simp: acc_def split: if_splits)
  show ?case
  proof (cases "\<forall>x \<in> set_tree r. f x < n")
    case True
    show ?thesis
    proof (cases "n \<le> f a")
      case a: True
      then have "x = Some a" using x(2) True by (simp add: acc_def)
      moreover have "f z \<le> f a" if "z \<in> set_tree l \<or> z \<in> set_tree r" for z
        using that so(3) True a by (meson less_le_trans less_imp_le)
      ultimately show ?thesis using e a by (auto simp: fits_def is_worst_def)
    next
      case False
      have "\<forall>z \<in> set_tree l. f z < n" using so(3) False by (meson le_less_trans not_le)
      then have "\<forall>z \<in> set_tree (Node l a r). f z < n" using True False by auto
      moreover have "x = worst" using x(2) True False by (simp add: acc_def)
      ultimately show ?thesis using e by simp
    qed
  next
    case False
    then obtain y where y: "x = Some y" "y \<in> set_tree r" "n \<le> f y" "\<forall>z \<in> set_tree r. n \<le> f z \<longrightarrow> f z \<le> f y"
      using x(2) [unfolded if_not_P [OF False]] by (auto simp: fits_def is_worst_def)
    have "f z \<le> f y" if "z = a \<or> z \<in> set_tree l" for z using so(4) [OF y(2)] so(3) [of z] that by auto
    then show ?thesis using e y False by (auto simp: fits_def is_worst_def)
  qed
qed

lemma get_free_block_spec:
  assumes "bst_rep (blocks m) t" "\<forall>x \<in> set_tree t. get_size m (heap (blocks m)) (Some x) = Some (f x)" "sorted (map f (inorder t))"
  shows "\<exists>r. get_free_block m n = Some r \<and> fits (fit m) n f (inorder t) r"
proof -
  have r: "rep (heap (blocks m)) nullptr (root (blocks m)) t" using assms(1) by (simp add: bst_rep_def)
  show ?thesis
  proof (cases "fit m")
    case First_fit
    then show ?thesis using first_spec [OF r assms(2,3)] by (simp add: get_free_block_def)
  next
    case The_best_fit
    obtain x where "get_best_free_block m n (root (blocks m)) nullptr = Some x"
       "if \<forall>x \<in> set_tree t. f x < n then x = nullptr else x \<noteq> None \<and> fits The_best_fit n f (inorder t) x"
      using best_spec [OF r assms(2,3)] by blast
    then show ?thesis using The_best_fit fits_None by (auto simp: get_free_block_def split: if_splits)
  next
    case The_worst_fit
    obtain x where "get_worst_free_block m n (root (blocks m)) nullptr = Some x"
       "if \<forall>x \<in> set_tree t. f x < n then x = nullptr else x \<noteq> None \<and> fits The_worst_fit n f (inorder t) x"
      using worst_spec [OF r assms(2,3)] by blast
    then show ?thesis using The_worst_fit fits_None by (auto simp: get_free_block_def split: if_splits)
  qed
qed

end
