(* ===== verification/Buddies.thy ===== *)
theory Buddies
  imports AllocCommon
begin

unbundle bit_operations_syntax

text \<open>
  The buddy allocator (allocator/allocator_buddies_system). Block headers are stored at their addresses,
  the pointer to the trusted memory that an occupied block carries right after its header in a map of its
  own. The abstract state is a binary tree whose leaves are the blocks; allocation and deallocation are
  shown to be the splitting and merging of that tree.
\<close>

subsection \<open>State\<close>

record block_metadata =
  occupied :: bool
  size_k :: nat

text \<open>\<open>sizeof(allocator_metadata)\<close> (three words, an enum with the exponent, a mutex of 40 bytes),
  \<open>occupied_block_metadata_size\<close> and \<open>min_k\<close>.\<close>

definition metadata_size :: nat where "metadata_size = 64"
definition occupied_block_metadata_size :: nat where "occupied_block_metadata_size = 9"
definition min_k :: nat where "min_k = 4"

record buddies =
  blocks :: "nat \<rightharpoonup> block_metadata"
  tm_ptrs :: "nat \<rightharpoonup> nat"
  trusted :: nat
  fit :: fit_mode
  whole_k :: nat

text \<open>The exponent of the least power of two that is not below the argument (-1 for 0).\<close>

definition note_bit :: "64 word \<Rightarrow> nat \<Rightarrow> int \<times> int \<Rightarrow> int \<times> int" where
  "note_bit sz i acc =
     (case acc of (ones_counter, index) \<Rightarrow>
        if bit sz i then (ones_counter + 1, if ones_counter = 0 then int i else index) else acc)"

definition nearest_greater_k_of_2 :: "64 word \<Rightarrow> 64 word" where
  "nearest_greater_k_of_2 sz =
     (case fold (note_bit sz) (rev [0..<64]) (0, - 1) of (ones_counter, index) \<Rightarrow>
        of_int (if ones_counter \<le> 1 then index else index + 1))"

definition size_of_block :: "block_metadata \<Rightarrow> nat option" where
  "size_of_block b = int_shift (size_k b + min_k)"

definition whole_size :: "buddies \<Rightarrow> nat option" where
  "whole_size s = int_shift (whole_k s)"

text \<open>The constructor; \<open>trusted\<close> is what the parent allocator returns.\<close>

definition construct :: "nat \<Rightarrow> 64 word \<Rightarrow> fit_mode \<Rightarrow> alloc_error + buddies" where
  "construct address space_size_power_of_two mode =
     (let k = unat (nearest_greater_k_of_2 space_size_power_of_two) in
      if k < min_k then Inl (Logic_error ''space size is too small'')
      else Inr \<lparr>blocks = [address + metadata_size \<mapsto> \<lparr>occupied = False, size_k = (k - min_k) mod 128\<rparr>],
                tm_ptrs = Map.empty, trusted = address, fit = mode, whole_k = k mod 256\<rparr>)"

subsection \<open>Iteration over the blocks\<close>

definition begin_at :: "buddies \<Rightarrow> nat" where
  "begin_at s = trusted s + metadata_size"

definition end_at :: "buddies \<Rightarrow> nat option" where
  "end_at s = do { n \<leftarrow> whole_size s; Some (trusted s + metadata_size + n) }"

text \<open>\<open>for (auto it = begin(), it_end = end(); it != it_end; ++it)\<close> with a body that sees the address, the
  header and the size; the flag leaves the loop.\<close>

partial_function (option) for_blocks ::
  "(nat \<Rightarrow> block_metadata \<Rightarrow> nat \<Rightarrow> 'a \<Rightarrow> 'a \<times> bool) \<Rightarrow> buddies \<Rightarrow> nat \<Rightarrow> nat \<Rightarrow> 'a \<Rightarrow> 'a option" where
  "for_blocks body s it it_end acc =
     (if it = it_end then Some acc
      else do {
        b \<leftarrow> blocks s it;
        sz \<leftarrow> size_of_block b;
        (case body it b sz acc of (acc, stop) \<Rightarrow>
           if stop then Some acc else for_blocks body s (it + sz) it_end acc)
      })"

definition run_blocks :: "(nat \<Rightarrow> block_metadata \<Rightarrow> nat \<Rightarrow> 'a \<Rightarrow> 'a \<times> bool) \<Rightarrow> buddies \<Rightarrow> 'a \<Rightarrow> 'a option" where
  "run_blocks body s acc = do { e \<leftarrow> end_at s; for_blocks body s (begin_at s) e acc }"

definition get_blocks_info_inner :: "buddies \<Rightarrow> block_info list option" where
  "get_blocks_info_inner s =
     run_blocks (\<lambda>it b sz infos. (infos @ [\<lparr>block_size = sz, is_block_occupied = occupied b\<rparr>], False)) s []"

definition available_memory :: "buddies \<Rightarrow> nat option" where
  "available_memory s =
     run_blocks (\<lambda>it b sz available. (if \<not> occupied b then size_add available sz else available, False)) s 0"

definition get_block_first_fit :: "buddies \<Rightarrow> nat \<Rightarrow> ptr option" where
  "get_block_first_fit s need =
     run_blocks (\<lambda>it b sz r. if \<not> occupied b \<and> need \<le> sz then (Some it, True) else (r, False)) s nullptr"

text \<open>The best block so far is kept with its size.\<close>

definition keep_best ::
  "nat \<Rightarrow> nat \<Rightarrow> block_metadata \<Rightarrow> nat \<Rightarrow> (nat \<times> nat) option \<Rightarrow> (nat \<times> nat) option \<times> bool" where
  "keep_best need it b sz best_fit =
     (if \<not> occupied b \<and> need \<le> sz \<and> (case best_fit of None \<Rightarrow> True | Some (_, best) \<Rightarrow> sz < best)
      then Some (it, sz) else best_fit, False)"

definition get_block_best_fit :: "buddies \<Rightarrow> nat \<Rightarrow> ptr option" where
  "get_block_best_fit s need = do { r \<leftarrow> run_blocks (keep_best need) s None; Some (map_option fst r) }"

definition get_block_worst_fit :: "buddies \<Rightarrow> nat \<Rightarrow> ptr option" where
  "get_block_worst_fit s need =
     run_blocks (\<lambda>it b sz worst_fit. (if \<not> occupied b \<and> need \<le> sz then Some it else worst_fit, False)) s nullptr"

subsection \<open>Allocation and deallocation\<close>

definition get_buddy :: "buddies \<Rightarrow> nat \<Rightarrow> nat option" where
  "get_buddy s block = do {
     b \<leftarrow> blocks s block;
     sz \<leftarrow> size_of_block b;
     Some (trusted s + metadata_size + ((block - trusted s - metadata_size) XOR sz))
   }"

partial_function (option) split_loop :: "buddies \<Rightarrow> nat \<Rightarrow> nat \<Rightarrow> buddies option" where
  "split_loop s block size_with_metadata = do {
     b \<leftarrow> blocks s block;
     (if size_k b = 0 then Some s
      else do {
        sz \<leftarrow> size_of_block b;
        (if sz < size_mul size_with_metadata 2 then Some s
         else do {
           let s = s\<lparr>blocks := (blocks s)(block \<mapsto> b\<lparr>size_k := size_k b - 1\<rparr>)\<rparr>;
           buddy \<leftarrow> get_buddy s block;
           let s = s\<lparr>blocks := (blocks s)(buddy \<mapsto> \<lparr>occupied = False, size_k = size_k b - 1\<rparr>)\<rparr>;
           split_loop s block size_with_metadata
         })
      })
   }"

definition find_block :: "buddies \<Rightarrow> nat \<Rightarrow> ptr option" where
  "find_block s need =
     (case fit s of First_fit \<Rightarrow> get_block_first_fit s need
      | The_best_fit \<Rightarrow> get_block_best_fit s need
      | The_worst_fit \<Rightarrow> get_block_worst_fit s need)"

text \<open>\<open>sizeof(occupied_block_metadata_size)\<close> is the size of a size_t, not the constant.\<close>

definition do_allocate_sm :: "buddies \<Rightarrow> nat \<Rightarrow> (alloc_error + buddies \<times> nat) option" where
  "do_allocate_sm s n = do {
     let size_with_metadata = size_add n 8;
     block \<leftarrow> find_block s size_with_metadata;
     (case block of
        None \<Rightarrow> Some (Inl Bad_alloc)
      | Some block \<Rightarrow> do {
          s \<leftarrow> split_loop s block size_with_metadata;
          b \<leftarrow> blocks s block;
          let s = s\<lparr>blocks := (blocks s)(block \<mapsto> b\<lparr>occupied := True\<rparr>),
                    tm_ptrs := (tm_ptrs s)(block + 1 \<mapsto> trusted s)\<rparr>;
          Some (Inr (s, block + occupied_block_metadata_size))
        })
   }"

partial_function (option) merge_loop :: "buddies \<Rightarrow> nat \<Rightarrow> nat \<Rightarrow> buddies option" where
  "merge_loop s block buddy = do {
     b \<leftarrow> blocks s block;
     sz \<leftarrow> size_of_block b;
     n \<leftarrow> whole_size s;
     (if \<not> sz < n then Some s
      else do {
        b' \<leftarrow> blocks s buddy;
        sz' \<leftarrow> size_of_block b';
        (if sz \<noteq> sz' \<or> occupied b' then Some s
         else do {
           let block = min block buddy;
           b \<leftarrow> blocks s block;
           let s = s\<lparr>blocks := (blocks s)(block \<mapsto> b\<lparr>size_k := (size_k b + 1) mod 128\<rparr>)\<rparr>;
           buddy \<leftarrow> get_buddy s block;
           merge_loop s block buddy
         })
      })
   }"

definition do_deallocate_sm :: "buddies \<Rightarrow> nat \<Rightarrow> (alloc_error + buddies) option" where
  "do_deallocate_sm s at_ptr = do {
     let block = at_ptr - occupied_block_metadata_size;
     tm \<leftarrow> tm_ptrs s (block + 1);
     (if tm \<noteq> trusted s then Some (Inl (Logic_error ''foreign block''))
      else do {
        b \<leftarrow> blocks s block;
        let s = s\<lparr>blocks := (blocks s)(block \<mapsto> b\<lparr>occupied := False\<rparr>)\<rparr>;
        buddy \<leftarrow> get_buddy s block;
        s \<leftarrow> merge_loop s block buddy;
        Some (Inr s)
      })
   }"

definition set_fit_mode :: "buddies \<Rightarrow> fit_mode \<Rightarrow> buddies" where
  "set_fit_mode s mode = s\<lparr>fit := mode\<rparr>"

subsection \<open>The tree of blocks\<close>

datatype buddy = Whole bool | Halves buddy buddy

fun holds :: "(nat \<rightharpoonup> block_metadata) \<Rightarrow> nat \<Rightarrow> nat \<Rightarrow> buddy \<Rightarrow> bool" where
  "holds m p k (Whole b) \<longleftrightarrow> m p = Some \<lparr>occupied = b, size_k = k\<rparr>"
| "holds m p 0 (Halves l r) \<longleftrightarrow> False"
| "holds m p (Suc k) (Halves l r) \<longleftrightarrow> holds m p k l \<and> holds m (p + 2 ^ (k + min_k)) k r"

text \<open>The blocks in the order of their addresses: address, occupied, exponent.\<close>

fun leaves :: "nat \<Rightarrow> nat \<Rightarrow> buddy \<Rightarrow> (nat \<times> bool \<times> nat) list" where
  "leaves p k (Whole b) = [(p, b, k)]"
| "leaves p 0 (Halves l r) = []"
| "leaves p (Suc k) (Halves l r) = leaves p k l @ leaves (p + 2 ^ (k + min_k)) k r"

definition buddies_rep :: "buddies \<Rightarrow> nat \<Rightarrow> buddy \<Rightarrow> bool" where
  "buddies_rep s k t \<longleftrightarrow> holds (blocks s) (begin_at s) k t \<and> whole_k s = k + min_k \<and> k + min_k < 31"

fun walk :: "(nat \<Rightarrow> block_metadata \<Rightarrow> nat \<Rightarrow> 'a \<Rightarrow> 'a \<times> bool) \<Rightarrow> (nat \<times> bool \<times> nat) list \<Rightarrow> 'a \<Rightarrow> 'a \<times> bool" where
  "walk body [] acc = (acc, False)"
| "walk body ((a, b, j) # xs) acc =
     (case body a \<lparr>occupied = b, size_k = j\<rparr> (2 ^ (j + min_k)) acc of
        (acc, stop) \<Rightarrow> if stop then (acc, True) else walk body xs acc)"

lemma walk_append:
  "walk body (xs @ ys) acc = (case walk body xs acc of (acc, stop) \<Rightarrow> if stop then (acc, True) else walk body ys acc)"
  by (induction body xs acc rule: walk.induct) (auto split: prod.splits)

lemma for_blocks_holds:
  "holds (blocks s) p k t \<Longrightarrow> k + min_k < 31 \<Longrightarrow> p + 2 ^ (k + min_k) \<le> e \<Longrightarrow>
   for_blocks body s p e acc =
     (case walk body (leaves p k t) acc of (acc, stop) \<Rightarrow>
        if stop then Some acc else for_blocks body s (p + 2 ^ (k + min_k)) e acc)"
proof (induction p k t arbitrary: acc rule: leaves.induct)
  case (1 p k b)
  have "p < p + 2 ^ (k + min_k)" by simp
  with 1(3) have "p \<noteq> e" by linarith
  with 1 show ?case by (subst for_blocks.simps) (simp add: size_of_block_def split: prod.splits)
next
  case (3 p k l r)
  have "for_blocks body s p e acc =
     (case walk body (leaves p k l) acc of (acc, stop) \<Rightarrow>
        if stop then Some acc else for_blocks body s (p + 2 ^ (k + min_k)) e acc)"
    using 3 by (intro 3(1)) auto
  moreover have "for_blocks body s (p + 2 ^ (k + min_k)) e acc' =
     (case walk body (leaves (p + 2 ^ (k + min_k)) k r) acc' of (acc, stop) \<Rightarrow>
        if stop then Some acc else for_blocks body s (p + 2 ^ (k + min_k) + 2 ^ (k + min_k)) e acc)" for acc'
    using 3 by (intro 3(2)) auto
  ultimately show ?case by (simp add: walk_append mult_2 add.assoc split: prod.splits)
qed simp

lemma run_blocks_rep:
  "buddies_rep s k t \<Longrightarrow> run_blocks body s acc = Some (fst (walk body (leaves (begin_at s) k t) acc))"
proof -
  assume r: "buddies_rep s k t"
  have e: "end_at s = Some (begin_at s + 2 ^ (k + min_k))"
    using r by (simp add: buddies_rep_def end_at_def whole_size_def begin_at_def)
  show ?thesis
    using for_blocks_holds [of s "begin_at s" k t "begin_at s + 2 ^ (k + min_k)" body acc] r e
    by (simp add: buddies_rep_def run_blocks_def for_blocks.simps [of _ _ "begin_at s + 2 ^ (k + min_k)"] split: prod.splits)
qed

subsection \<open>Which block is chosen\<close>

definition fits :: "nat \<Rightarrow> nat \<times> bool \<times> nat \<Rightarrow> bool" where
  "fits need x = (case x of (a, b, j) \<Rightarrow> \<not> b \<and> need \<le> 2 ^ (j + min_k))"

lemma first_fit_walk:
  "fst (walk (\<lambda>it b sz r. if \<not> occupied b \<and> need \<le> sz then (Some it, True) else (r, False)) xs None) =
     map_option fst (List.find (fits need) xs)"
  by (induction xs) (simp_all add: fits_def split: prod.splits)

lemma worst_fit_walk:
  "fst (walk (\<lambda>it b sz r. (if \<not> occupied b \<and> need \<le> sz then Some it else r, False)) xs r0) =
     (case filter (fits need) xs of [] \<Rightarrow> r0 | ys \<Rightarrow> Some (fst (last ys)))"
  by (induction xs arbitrary: r0) (simp_all add: fits_def split: prod.splits list.splits)

lemma best_fit_walk:
  fixes acc :: "(nat \<times> nat) option"
  shows "\<exists>r. fst (walk (keep_best need) xs acc) = r \<and>
     (r = acc \<or> (\<exists>a j. r = Some (a, 2 ^ (j + min_k)) \<and> (a, False, j) \<in> set xs \<and> need \<le> 2 ^ (j + min_k))) \<and>
     (acc \<noteq> None \<or> (\<exists>x \<in> set xs. fits need x) \<longrightarrow> r \<noteq> None) \<and>
     (\<forall>a n. r = Some (a, n) \<longrightarrow> (\<forall>a' n'. acc = Some (a', n') \<longrightarrow> n \<le> n') \<and>
        (\<forall>a' j'. (a', False, j') \<in> set xs \<longrightarrow> need \<le> 2 ^ (j' + min_k) \<longrightarrow> n \<le> 2 ^ (j' + min_k)))"
proof (induction xs arbitrary: acc)
  case Nil
  then show ?case by auto
next
  case (Cons x xs)
  obtain a b j where x: "x = (a, b, j)" by (cases x)
  define acc' where "acc' = fst (keep_best need a \<lparr>occupied = b, size_k = j\<rparr> (2 ^ (j + min_k)) acc)"
  have w: "fst (walk (keep_best need) (x # xs) acc) = fst (walk (keep_best need) xs acc')"
    by (simp add: x acc'_def keep_best_def)
  have a': "acc' = (if \<not> b \<and> need \<le> 2 ^ (j + min_k) \<and> (case acc of None \<Rightarrow> True | Some (_, best) \<Rightarrow> 2 ^ (j + min_k) < best)
      then Some (a, 2 ^ (j + min_k)) else acc)"
    by (simp add: acc'_def keep_best_def)
  obtain r where r: "fst (walk (keep_best need) xs acc') = r"
     "r = acc' \<or> (\<exists>a j. r = Some (a, 2 ^ (j + min_k)) \<and> (a, False, j) \<in> set xs \<and> need \<le> 2 ^ (j + min_k))"
     "acc' \<noteq> None \<or> (\<exists>x \<in> set xs. fits need x) \<longrightarrow> r \<noteq> None"
     "\<forall>a n. r = Some (a, n) \<longrightarrow> (\<forall>a' n'. acc' = Some (a', n') \<longrightarrow> n \<le> n') \<and>
        (\<forall>a' j'. (a', False, j') \<in> set xs \<longrightarrow> need \<le> 2 ^ (j' + min_k) \<longrightarrow> n \<le> 2 ^ (j' + min_k))"
    using Cons.IH [of acc'] by blast
  show ?case
  proof (intro exI [of _ r] conjI)
    show "fst (walk (keep_best need) (x # xs) acc) = r" using w r(1) by simp
    show "r = acc \<or> (\<exists>a j. r = Some (a, 2 ^ (j + min_k)) \<and> (a, False, j) \<in> set (x # xs) \<and> need \<le> 2 ^ (j + min_k))"
      using r(2) a' x by (auto split: if_splits)
    show "acc \<noteq> None \<or> (\<exists>x \<in> set (x # xs). fits need x) \<longrightarrow> r \<noteq> None"
      using r(3) a' x by (auto simp: fits_def split: if_splits option.splits)
    show "\<forall>a n. r = Some (a, n) \<longrightarrow> (\<forall>a' n'. acc = Some (a', n') \<longrightarrow> n \<le> n') \<and>
        (\<forall>a' j'. (a', False, j') \<in> set (x # xs) \<longrightarrow> need \<le> 2 ^ (j' + min_k) \<longrightarrow> n \<le> 2 ^ (j' + min_k))"
      using r(4) a' x by (fastforce split: if_splits option.splits)
  qed
qed

text \<open>What the search returns: a free block that is large enough, if there is one. Best fit returns a smallest
  one; worst fit does not compare sizes and returns the last one.\<close>

definition chosen :: "fit_mode \<Rightarrow> nat \<Rightarrow> (nat \<times> bool \<times> nat) list \<Rightarrow> ptr \<Rightarrow> bool" where
  "chosen mode need xs r \<longleftrightarrow>
     (case r of None \<Rightarrow> (\<forall>x \<in> set xs. \<not> fits need x)
      | Some a \<Rightarrow> \<exists>j. (a, False, j) \<in> set xs \<and> need \<le> 2 ^ (j + min_k) \<and>
          (case mode of
             First_fit \<Rightarrow> \<exists>ys zs. xs = ys @ (a, False, j) # zs \<and> (\<forall>y \<in> set ys. \<not> fits need y)
           | The_best_fit \<Rightarrow> \<forall>a' j'. (a', False, j') \<in> set xs \<longrightarrow> need \<le> 2 ^ (j' + min_k) \<longrightarrow> j \<le> j'
           | The_worst_fit \<Rightarrow> \<exists>ys zs. xs = ys @ (a, False, j) # zs \<and> (\<forall>z \<in> set zs. \<not> fits need z)))"

lemma find_block_chosen:
  assumes r: "buddies_rep s k t"
  shows "\<exists>p. find_block s need = Some p \<and> chosen (fit s) need (leaves (begin_at s) k t) p"
proof (cases "fit s")
  case First_fit
  let ?xs = "leaves (begin_at s) k t"
  have f: "find_block s need = Some (map_option fst (List.find (fits need) ?xs))"
    by (simp add: find_block_def First_fit get_block_first_fit_def run_blocks_rep [OF r] first_fit_walk)
  have "chosen First_fit need ?xs (map_option fst (List.find (fits need) ?xs))"
  proof (cases "List.find (fits need) ?xs")
    case None
    then have "\<forall>x \<in> set ?xs. \<not> fits need x" unfolding find_None_iff by blast
    with None show ?thesis by (simp add: chosen_def)
  next
    case (Some x)
    then obtain i where i: "i < length ?xs" "fits need (?xs ! i)" "x = ?xs ! i" "\<forall>j < i. \<not> fits need (?xs ! j)"
      unfolding find_Some_iff by blast
    have "?xs = take i ?xs @ x # drop (Suc i) ?xs" using id_take_nth_drop [OF i(1)] i(3) by simp
    moreover have "\<forall>y \<in> set (take i ?xs). \<not> fits need y" using i(4) by (metis in_set_conv_nth length_take min_less_iff_conj nth_take)
    moreover have "x \<in> set ?xs" using i by simp
    moreover have "fits need x" using i by simp
    ultimately have "\<exists>ys zs. ?xs = ys @ x # zs \<and> (\<forall>y \<in> set ys. \<not> fits need y)" "x \<in> set ?xs" "fits need x" by blast+
    then show ?thesis using Some by (cases x) (auto simp: chosen_def fits_def)
  qed
  then show ?thesis using f First_fit by simp
next
  case The_best_fit
  let ?xs = "leaves (begin_at s) k t"
  obtain q where q: "fst (walk (keep_best need) ?xs None) = q"
     "q = None \<or> (\<exists>a j. q = Some (a, 2 ^ (j + min_k)) \<and> (a, False, j) \<in> set ?xs \<and> need \<le> 2 ^ (j + min_k))"
     "(\<exists>x \<in> set ?xs. fits need x) \<longrightarrow> q \<noteq> None"
     "\<forall>a n. q = Some (a, n) \<longrightarrow>
        (\<forall>a' j'. (a', False, j') \<in> set ?xs \<longrightarrow> need \<le> 2 ^ (j' + min_k) \<longrightarrow> n \<le> 2 ^ (j' + min_k))"
    using best_fit_walk [of need ?xs None] by blast
  have "find_block s need = Some (map_option fst q)"
    by (simp add: find_block_def The_best_fit get_block_best_fit_def run_blocks_rep [OF r] q(1))
  moreover have "chosen The_best_fit need ?xs (map_option fst q)"
    using q(2-4) by (cases q) (auto simp: chosen_def)
  ultimately show ?thesis using The_best_fit by simp
next
  case The_worst_fit
  let ?xs = "leaves (begin_at s) k t"
  define q where "q = (case filter (fits need) ?xs of [] \<Rightarrow> None | ys \<Rightarrow> Some (fst (last ys)))"
  have f: "find_block s need = Some q"
    by (simp add: find_block_def The_worst_fit get_block_worst_fit_def run_blocks_rep [OF r] worst_fit_walk q_def)
  have "chosen The_worst_fit need ?xs q"
  proof (cases "filter (fits need) ?xs" rule: rev_cases)
    case Nil
    then show ?thesis by (auto simp: chosen_def q_def filter_empty_conv)
  next
    case (snoc ys x)
    then have q: "q = Some (fst x)" by (cases ys) (simp_all add: q_def)
    from snoc have "\<exists>us vs. ?xs = us @ x # vs \<and> fits need x \<and> (\<forall>z \<in> set vs. \<not> fits need z)"
    proof -
      have "filter (fits need) (rev ?xs) = x # rev ys" using snoc by (simp add: rev_filter [symmetric])
      then obtain us vs where "rev ?xs = us @ x # vs" "\<forall>u \<in> set us. \<not> fits need u" "fits need x"
        by (auto simp: filter_eq_Cons_iff)
      then have "?xs = rev vs @ x # rev us" by (metis rev.simps(2) rev_append rev_rev_ident append.assoc append_Cons append_Nil)
      then show ?thesis using \<open>\<forall>u \<in> set us. \<not> fits need u\<close> \<open>fits need x\<close> by (metis set_rev)
    qed
    then obtain us vs where x: "?xs = us @ x # vs" "fits need x" "\<forall>z \<in> set vs. \<not> fits need z" by blast
    then obtain a j where "x = (a, False, j)" "need \<le> 2 ^ (j + min_k)" by (cases x) (auto simp: fits_def)
    moreover have "\<exists>ys zs. ?xs = ys @ (a, False, j) # zs \<and> (\<forall>z \<in> set zs. \<not> fits need z)"
      using x calculation(1) by blast
    moreover have "(a, False, j) \<in> set ?xs" using x(1) calculation(1) by simp
    ultimately show ?thesis using q unfolding chosen_def by auto
  qed
  then show ?thesis using f The_worst_fit by simp
qed

subsection \<open>A block in its surroundings\<close>

datatype side = LeftOf buddy | RightOf buddy

fun fill :: "side list \<Rightarrow> buddy \<Rightarrow> buddy" where
  "fill [] t = t"
| "fill (LeftOf r # c) t = fill c (Halves t r)"
| "fill (RightOf l # c) t = fill c (Halves l t)"

fun off :: "side list \<Rightarrow> nat \<Rightarrow> nat" where
  "off [] k = 0"
| "off (LeftOf r # c) k = off c (Suc k)"
| "off (RightOf l # c) k = off c (Suc k) + 2 ^ (k + min_k)"

fun around :: "(nat \<rightharpoonup> block_metadata) \<Rightarrow> nat \<Rightarrow> side list \<Rightarrow> nat \<Rightarrow> bool" where
  "around m p [] k = True"
| "around m p (LeftOf r # c) k \<longleftrightarrow> holds m (p + off c (Suc k) + 2 ^ (k + min_k)) k r \<and> around m p c (Suc k)"
| "around m p (RightOf l # c) k \<longleftrightarrow> holds m (p + off c (Suc k)) k l \<and> around m p c (Suc k)"

lemma holds_fill: "holds m p (k + length c) (fill c t) \<longleftrightarrow> holds m (p + off c k) k t \<and> around m p c k"
proof (induction c arbitrary: t k)
  case (Cons x c)
  then show ?case by (cases x) (auto simp: add.assoc simp flip: add_Suc)
qed simp

lemma off_dvd: "2 ^ (k + min_k) dvd off c k"
proof (induction c arbitrary: k)
  case (Cons x c)
  have "2 ^ (k + min_k) dvd off c (Suc k)" using Cons [of "Suc k"] dvd_trans [of _ "2 ^ (Suc k + min_k)"] by (simp add: dvd_mult_right)
  then show ?case by (cases x) simp_all
qed simp

lemma off_bound: "off c k + 2 ^ (k + min_k) \<le> 2 ^ (k + length c + min_k)"
proof (induction c arbitrary: k)
  case (Cons x c)
  then show ?case using Cons [of "Suc k"] by (cases x) simp_all
qed simp

lemma leaf_split:
  "(a, b, j) \<in> set (leaves p k t) \<Longrightarrow> \<exists>c. t = fill c (Whole b) \<and> k = j + length c \<and> a = p + off c j"
proof (induction p k t rule: leaves.induct)
  case (1 p k b')
  then show ?case by (intro exI [of _ "[]"]) simp
next
  case (3 p k l r)
  have ext: "off (c @ [LeftOf r]) j = off c j" "off (c @ [RightOf l]) j = off c j + 2 ^ (j + length c + min_k)"
    "fill (c @ d) t = fill d (fill c t)" for c d t
  proof -
    show "off (c @ [LeftOf r]) j = off c j" by (induction c j rule: off.induct) simp_all
    show "off (c @ [RightOf l]) j = off c j + 2 ^ (j + length c + min_k)" by (induction c j rule: off.induct) simp_all
    show "fill (c @ d) t = fill d (fill c t)" by (induction c t rule: fill.induct) simp_all
  qed
  from 3(3) consider "(a, b, j) \<in> set (leaves p k l)" | "(a, b, j) \<in> set (leaves (p + 2 ^ (k + min_k)) k r)" by auto
  then show ?case
  proof cases
    case 1
    then obtain c where "l = fill c (Whole b)" "k = j + length c" "a = p + off c j" using 3(1) by blast
    then show ?thesis by (intro exI [of _ "c @ [LeftOf r]"]) (simp add: ext)
  next
    case 2
    then obtain c where "r = fill c (Whole b)" "k = j + length c" "a = p + 2 ^ (k + min_k) + off c j" using 3(2) by blast
    then show ?thesis by (intro exI [of _ "c @ [RightOf l]"]) (simp add: ext)
  qed
qed simp

text \<open>A tree depends on the headers in its own range only.\<close>

lemma holds_cong:
  "(\<And>x. p \<le> x \<Longrightarrow> x < p + 2 ^ (k + min_k) \<Longrightarrow> m' x = m x) \<Longrightarrow> holds m' p k t = holds m p k t"
proof (induction m p k t rule: holds.induct)
  case (3 m p k l r)
  have "holds m' p k l = holds m p k l" using 3(3) by (intro 3(1)) simp
  moreover have "holds m' (p + 2 ^ (k + min_k)) k r = holds m (p + 2 ^ (k + min_k)) k r" using 3(3) by (intro 3(2)) simp
  ultimately show ?case by simp
qed simp_all

lemma fill_around_cong:
  "(\<And>x. x < p + off c k \<or> p + off c k + 2 ^ (k + min_k) \<le> x \<Longrightarrow> m' x = m x) \<Longrightarrow> around m' p c k = around m p c k"
proof (induction c arbitrary: k)
  case (Cons x c)
  show ?case
  proof (cases x)
    case (LeftOf r)
    have "holds m' (p + off c (Suc k) + 2 ^ (k + min_k)) k r = holds m (p + off c (Suc k) + 2 ^ (k + min_k)) k r"
      using Cons.prems LeftOf by (intro holds_cong) simp
    moreover have "around m' p c (Suc k) = around m p c (Suc k)" using Cons.prems LeftOf by (intro Cons.IH) auto
    ultimately show ?thesis using LeftOf by simp
  next
    case (RightOf l)
    have "holds m' (p + off c (Suc k)) k l = holds m (p + off c (Suc k)) k l"
      using Cons.prems RightOf by (intro holds_cong) simp
    moreover have "around m' p c (Suc k) = around m p c (Suc k)" using Cons.prems RightOf by (intro Cons.IH) auto
    ultimately show ?thesis using RightOf by simp
  qed
qed simp

lemma holds_first: "holds m p k t \<Longrightarrow> \<exists>h. m p = Some h \<and> size_k h \<le> k \<and> (size_k h = k \<longrightarrow> t = Whole (occupied h))"
proof (induction m p k t rule: holds.induct)
  case (3 m p k l r)
  then obtain h where "m p = Some h" "size_k h \<le> k" by auto
  then show ?case by auto
qed simp_all

subsection \<open>The address of the buddy\<close>

lemma xor_next: "2 ^ Suc n dvd (x::nat) \<Longrightarrow> x XOR 2 ^ n = x + 2 ^ n \<and> (x + 2 ^ n) XOR 2 ^ n = x"
proof -
  assume "2 ^ Suc n dvd x"
  then have b: "\<not> bit x n" by (auto simp: bit_iff_odd)
  then have s: "set_bit n x = x + 2 ^ n" by (simp add: set_bit_eq)
  have f: "x XOR 2 ^ n = flip_bit n x" for x :: nat by (simp add: flip_bit_eq_xor push_bit_eq_mult)
  have "flip_bit n (set_bit n x) = x"
    using b by (intro bit_eqI) (auto simp: bit_simps)
  moreover have "flip_bit n x = set_bit n x" using b by (simp add: flip_bit_eq_if)
  ultimately show ?thesis using f s by simp
qed

lemma get_buddy_spec:
  assumes "blocks s (begin_at s + o') = Some h" "size_k h + min_k < 31" and sz: "size_k h + min_k = n"
  shows "get_buddy s (begin_at s + o') = Some (begin_at s + (o' XOR 2 ^ n))"
proof -
  have "begin_at s + o' - trusted s - metadata_size = o'" by (simp add: begin_at_def)
  then show ?thesis using assms by (simp add: get_buddy_def size_of_block_def begin_at_def)
qed

subsection \<open>Splitting\<close>

text \<open>The tree that a free block of exponent \<open>k\<close> becomes; the leftmost block is the one that is returned.\<close>

fun carve :: "bool \<Rightarrow> nat \<Rightarrow> nat \<Rightarrow> buddy" where
  "carve b need 0 = Whole b"
| "carve b need (Suc k) = (if 2 * need \<le> 2 ^ (Suc k + min_k) then Halves (carve b need k) (Whole False) else Whole b)"

text \<open>The exponent of that block.\<close>

fun carved_k :: "nat \<Rightarrow> nat \<Rightarrow> nat" where
  "carved_k need 0 = 0"
| "carved_k need (Suc k) = (if 2 * need \<le> 2 ^ (Suc k + min_k) then carved_k need k else Suc k)"

lemma carved_k_fits: "need \<le> 2 ^ (k + min_k) \<Longrightarrow> need \<le> 2 ^ (carved_k need k + min_k)"
  by (induction k) auto

lemma carved_k_tight: "carved_k need k = 0 \<or> 2 ^ (carved_k need k + min_k) < 2 * need"
  by (induction k) auto

lemma split_loop_spec:
  "blocks s (begin_at s + o') = Some \<lparr>occupied = False, size_k = k\<rparr> \<Longrightarrow> 2 ^ (k + min_k) dvd o' \<Longrightarrow> k + min_k < 31 \<Longrightarrow>
   2 * need < 2 ^ 64 \<Longrightarrow>
   \<exists>m. split_loop s (begin_at s + o') need = Some (s\<lparr>blocks := m\<rparr>) \<and>
     holds m (begin_at s + o') k (carve False need k) \<and>
     m (begin_at s + o') = Some \<lparr>occupied = False, size_k = carved_k need k\<rparr> \<and>
     (\<forall>x. x < begin_at s + o' \<or> begin_at s + o' + 2 ^ (k + min_k) \<le> x \<longrightarrow> m x = blocks s x)"
proof (induction k arbitrary: s)
  case 0
  then show ?case by (intro exI [of _ "blocks s"]) (subst split_loop.simps, simp)
next
  case (Suc k)
  define a where "a = begin_at s + o'"
  note b = Suc.prems(1) [folded a_def]
  have mul: "size_mul need 2 = 2 * need" using Suc.prems(4) by (simp add: mult.commute)
  have sz: "size_of_block \<lparr>occupied = False, size_k = Suc k\<rparr> = Some (2 ^ (Suc k + min_k))"
    using Suc.prems(3) by (simp add: size_of_block_def)
  show ?case
  proof (cases "2 * need \<le> 2 ^ (Suc k + min_k)")
    case False
    then have "split_loop s a need = Some s" using b sz mul by (subst split_loop.simps) simp
    then show ?thesis using False b by (intro exI [of _ "blocks s"]) (simp add: a_def)
  next
    case True
    define m1 where "m1 = (blocks s)(a \<mapsto> \<lparr>occupied = False, size_k = k\<rparr>)"
    have b1: "blocks (s\<lparr>blocks := m1\<rparr>) (begin_at (s\<lparr>blocks := m1\<rparr>) + o') = Some \<lparr>occupied = False, size_k = k\<rparr>"
      by (simp add: m1_def a_def begin_at_def)
    have x: "o' XOR 2 ^ (k + min_k) = o' + 2 ^ (k + min_k)" using xor_next Suc.prems(2) by simp
    have gb: "get_buddy (s\<lparr>blocks := m1\<rparr>) a = Some (a + 2 ^ (k + min_k))"
      using get_buddy_spec [OF b1] Suc.prems(3) x by (simp add: a_def begin_at_def add.assoc)
    define m2 where "m2 = m1(a + 2 ^ (k + min_k) \<mapsto> \<lparr>occupied = False, size_k = k\<rparr>)"
    define s2 where "s2 = s\<lparr>blocks := m2\<rparr>"
    have bs: "begin_at s2 = begin_at s" by (simp add: s2_def begin_at_def)
    have "\<exists>m. split_loop s2 (begin_at s2 + o') need = Some (s2\<lparr>blocks := m\<rparr>) \<and>
       holds m (begin_at s2 + o') k (carve False need k) \<and>
       m (begin_at s2 + o') = Some \<lparr>occupied = False, size_k = carved_k need k\<rparr> \<and>
       (\<forall>x. x < begin_at s2 + o' \<or> begin_at s2 + o' + 2 ^ (k + min_k) \<le> x \<longrightarrow> m x = blocks s2 x)"
    proof (rule Suc.IH)
      show "blocks s2 (begin_at s2 + o') = Some \<lparr>occupied = False, size_k = k\<rparr>"
        unfolding bs by (simp add: s2_def m2_def m1_def a_def)
      show "2 ^ (k + min_k) dvd o'" using Suc.prems(2) by (auto simp: dvd_mult_right)
    qed (use Suc.prems in auto)
    then obtain m where m: "split_loop s2 a need = Some (s2\<lparr>blocks := m\<rparr>)" "holds m a k (carve False need k)"
      "m a = Some \<lparr>occupied = False, size_k = carved_k need k\<rparr>"
      "\<forall>x. x < a \<or> a + 2 ^ (k + min_k) \<le> x \<longrightarrow> m x = m2 x"
      unfolding bs by (auto simp: a_def s2_def)
    have "split_loop s a need = split_loop s2 a need"
      using b sz mul True gb by (subst split_loop.simps) (simp add: Let_def m1_def m2_def s2_def)
    then have "split_loop s a need = Some (s\<lparr>blocks := m\<rparr>)" using m(1) by (simp add: s2_def)
    moreover have "holds m (a + 2 ^ (k + min_k)) k (Whole False)" using m(4) by (simp add: m2_def)
    moreover have "\<forall>x. x < a \<or> a + 2 ^ (Suc k + min_k) \<le> x \<longrightarrow> m x = blocks s x"
      using m(4) by (auto simp: m2_def m1_def)
    ultimately show ?thesis using m(2,3) True by (intro exI [of _ m]) (simp add: a_def)
  qed
qed

lemma carve_occupy:
  "holds m p k (carve False need k) \<Longrightarrow> holds (m(p \<mapsto> \<lparr>occupied = True, size_k = carved_k need k\<rparr>)) p k (carve True need k)"
proof (induction k)
  case (Suc k)
  have "holds (m(p \<mapsto> h)) (p + 2 ^ (k + min_k)) k t = holds m (p + 2 ^ (k + min_k)) k t" for h t
    by (rule holds_cong) (simp add: not_le [symmetric])
  with Suc show ?case by auto
qed simp

lemma buddies_allocate_spec:
  assumes r: "buddies_rep s k t" and n: "n < 2 ^ 62"
  shows "(do_allocate_sm s n = Some (Inl Bad_alloc) \<and> (\<forall>x \<in> set (leaves (begin_at s) k t). \<not> fits (n + 8) x)) \<or>
    (\<exists>s' c j. t = fill c (Whole False) \<and> k = j + length c \<and> n + 8 \<le> 2 ^ (j + min_k) \<and>
       do_allocate_sm s n = Some (Inr (s', begin_at s + off c j + occupied_block_metadata_size)) \<and>
       chosen (fit s) (n + 8) (leaves (begin_at s) k t) (Some (begin_at s + off c j)) \<and>
       buddies_rep s' k (fill c (carve True (n + 8) j)) \<and> trusted s' = trusted s \<and> fit s' = fit s \<and>
       tm_ptrs s' = (tm_ptrs s)(begin_at s + off c j + 1 \<mapsto> trusted s))"
proof -
  define need where "need = n + 8"
  have nd: "size_add n 8 = need" "2 * need < 2 ^ 64" using n by (simp_all add: need_def)
  obtain p where p: "find_block s need = Some p" "chosen (fit s) need (leaves (begin_at s) k t) p"
    using find_block_chosen [OF r] by blast
  show ?thesis
  proof (cases p)
    case None
    then have "do_allocate_sm s n = Some (Inl Bad_alloc)" using p(1) nd(1) by (simp add: do_allocate_sm_def)
    then show ?thesis using p(2) None by (simp add: chosen_def need_def)
  next
    case (Some a)
    then obtain j where j: "(a, False, j) \<in> set (leaves (begin_at s) k t)" "need \<le> 2 ^ (j + min_k)"
      using p(2) by (auto simp: chosen_def)
    obtain c where c: "t = fill c (Whole False)" "k = j + length c" "a = begin_at s + off c j" using leaf_split [OF j(1)] by blast
    have h: "holds (blocks s) (begin_at s + off c j) j (Whole False)" "around (blocks s) (begin_at s) c j"
      using r c holds_fill by (simp_all add: buddies_rep_def)
    have j31: "j + min_k < 31" using r c(2) by (simp add: buddies_rep_def)
    obtain m where m: "split_loop s a need = Some (s\<lparr>blocks := m\<rparr>)" "holds m a j (carve False need j)"
      "m a = Some \<lparr>occupied = False, size_k = carved_k need j\<rparr>"
      "\<forall>x. x < a \<or> a + 2 ^ (j + min_k) \<le> x \<longrightarrow> m x = blocks s x"
      using split_loop_spec [of s "off c j" j need] h(1) off_dvd j31 nd(2) c(3) by auto
    define m' where "m' = m(a \<mapsto> \<lparr>occupied = True, size_k = carved_k need j\<rparr>)"
    define s' where "s' = s\<lparr>blocks := m', tm_ptrs := (tm_ptrs s)(a + 1 \<mapsto> trusted s)\<rparr>"
    have "do_allocate_sm s n = Some (Inr (s', a + occupied_block_metadata_size))"
      using p(1) Some nd(1) m(1,3) by (simp add: do_allocate_sm_def Let_def s'_def m'_def)
    moreover have "around m' (begin_at s) c j = around (blocks s) (begin_at s) c j"
      using m(4) c(3) by (intro fill_around_cong) (auto simp: m'_def)
    moreover have "holds m' a j (carve True need j)" using carve_occupy [OF m(2)] by (simp add: m'_def)
    ultimately have "buddies_rep s' k (fill c (carve True need j))"
      using h(2) r c(2,3) holds_fill [of m' "begin_at s" j c] by (simp add: buddies_rep_def s'_def begin_at_def)
    then show ?thesis using \<open>do_allocate_sm s n = _\<close> c j(2) p(2) Some
      by (intro disjI2 exI [of _ s'] exI [of _ c] exI [of _ j]) (simp add: s'_def need_def)
  qed
qed

subsection \<open>Merging\<close>

text \<open>The tree after the block in the hole of \<open>c\<close> became free.\<close>

fun release :: "side list \<Rightarrow> buddy" where
  "release [] = Whole False"
| "release (LeftOf r # c) = (if r = Whole False then release c else fill c (Halves (Whole False) r))"
| "release (RightOf l # c) = (if l = Whole False then release c else fill c (Halves l (Whole False)))"

lemma int_shift_neq: "i < k \<Longrightarrow> k < 31 \<Longrightarrow> int_shift i \<noteq> Some (2 ^ k)"
  by (simp add: less_imp_neq)

lemma merge_stop:
  assumes "blocks s block = Some \<lparr>occupied = False, size_k = k\<rparr>" "k + min_k < 31" "whole_k s = k' + min_k" "k' + min_k < 31"
    and "k < k' \<Longrightarrow> \<exists>h. blocks s buddy = Some h \<and> size_k h \<le> k \<and> (size_k h = k \<longrightarrow> occupied h)"
  shows "merge_loop s block buddy = Some s"
proof (cases "k < k'")
  case True
  then obtain h where h: "blocks s buddy = Some h" "size_k h \<le> k" "size_k h = k \<longrightarrow> occupied h" using assms(5) by blast
  then have "size_of_block h = Some (2 ^ (size_k h + min_k))" using assms(2) by (simp add: size_of_block_def)
  then show ?thesis using h assms True by (subst merge_loop.simps) (auto simp: size_of_block_def whole_size_def)
next
  case False
  then show ?thesis using assms by (subst merge_loop.simps) (simp add: size_of_block_def whole_size_def)
qed

lemma merge_once:
  assumes "blocks s block = Some \<lparr>occupied = False, size_k = k\<rparr>" "blocks s buddy = Some \<lparr>occupied = False, size_k = k\<rparr>"
    and "whole_k s = k' + min_k" "k' + min_k < 31" "k < k'"
    and "s' = s\<lparr>blocks := (blocks s)(min block buddy \<mapsto> \<lparr>occupied = False, size_k = Suc k\<rparr>)\<rparr>"
    and "get_buddy s' (min block buddy) = Some buddy'"
  shows "merge_loop s block buddy = merge_loop s' (min block buddy) buddy'"
proof -
  have "blocks s (min block buddy) = Some \<lparr>occupied = False, size_k = k\<rparr>" using assms(1,2) by (simp add: min_def)
  moreover have "(k + 1) mod 128 = Suc k" using assms(4,5) by simp
  ultimately show ?thesis using assms by (subst merge_loop.simps) (simp add: size_of_block_def whole_size_def Let_def)
qed

lemma merge_loop_spec:
  "blocks s (begin_at s + off c k) = Some \<lparr>occupied = False, size_k = k\<rparr> \<Longrightarrow> around (blocks s) (begin_at s) c k \<Longrightarrow>
   whole_k s = k + length c + min_k \<Longrightarrow> k + length c + min_k < 31 \<Longrightarrow>
   get_buddy s (begin_at s + off c k) = Some buddy \<Longrightarrow>
   \<exists>m. merge_loop s (begin_at s + off c k) buddy = Some (s\<lparr>blocks := m\<rparr>) \<and> holds m (begin_at s) (k + length c) (release c)"
proof (induction c arbitrary: s k buddy)
  case Nil
  have "merge_loop s (begin_at s + off [] k) buddy = Some s"
    using Nil by (intro merge_stop [of _ _ k k]) auto
  then show ?case using Nil by (intro exI [of _ "blocks s"]) simp
next
  case (Cons x c)
  define o1 where "o1 = off c (Suc k)"
  have dv: "2 ^ Suc (k + min_k) dvd o1" using off_dvd [of "Suc k" c] by (simp add: o1_def)
  note X = xor_next [OF dv]
  have gb: "get_buddy s (begin_at s + off (x # c) k) = Some (begin_at s + (off (x # c) k XOR 2 ^ (k + min_k)))"
    by (rule get_buddy_spec [OF Cons.prems(1)]) (use Cons.prems(4) in simp_all)
  then have bd: "buddy = begin_at s + (off (x # c) k XOR 2 ^ (k + min_k))" using Cons.prems(5) by simp
  define s' where "s' = s\<lparr>blocks := (blocks s)(begin_at s + o1 \<mapsto> \<lparr>occupied = False, size_k = Suc k\<rparr>)\<rparr>"
  have bs: "begin_at s' = begin_at s" by (simp add: s'_def begin_at_def)
  have b1: "blocks s' (begin_at s' + o1) = Some \<lparr>occupied = False, size_k = Suc k\<rparr>" unfolding bs by (simp add: s'_def)
  have ar: "around (blocks s) (begin_at s) c (Suc k)" using Cons.prems(2) by (cases x) auto
  have ar': "around (blocks s') (begin_at s') c (Suc k)"
    unfolding bs using ar by (subst fill_around_cong [of _ _ _ _ "blocks s"]) (auto simp: s'_def o1_def)
  obtain buddy' where gb': "get_buddy s' (begin_at s' + o1) = Some buddy'"
    using get_buddy_spec [OF b1] Cons.prems(4) by auto
  note gb2 = gb' [unfolded bs]
  have IH: "\<exists>m. merge_loop s' (begin_at s' + o1) buddy' = Some (s'\<lparr>blocks := m\<rparr>) \<and>
      holds m (begin_at s') (Suc k + length c) (release c)"
    unfolding o1_def by (rule Cons.IH [OF b1 [unfolded o1_def] ar' _ _ gb' [unfolded o1_def]])
      (use Cons.prems in \<open>simp_all add: s'_def\<close>)
  have k31: "k + min_k < 31" "k + length (x # c) + min_k < 31" "k < k + length (x # c)" using Cons.prems(4) by auto
  show ?case
  proof (cases x)
    case (LeftOf r)
    have bl: "begin_at s + off (x # c) k = begin_at s + o1" "buddy = begin_at s + o1 + 2 ^ (k + min_k)"
      using bd X LeftOf by (simp_all add: o1_def)
    have hr: "holds (blocks s) buddy k r" using Cons.prems(2) LeftOf bl(2) by (simp add: o1_def)
    show ?thesis
    proof (cases "r = Whole False")
      case True
      have mn: "min (begin_at s + o1) buddy = begin_at s + o1" using bl(2) by simp
      have "merge_loop s (begin_at s + o1) buddy = merge_loop s' (begin_at s + o1) buddy'"
        by (rule merge_once [of s "begin_at s + o1" k buddy "k + length (x # c)" s' buddy', unfolded mn])
          (use Cons.prems(1,3) bl(1) hr True k31 gb2 in \<open>simp_all add: s'_def\<close>)
      then show ?thesis using IH LeftOf True bl(1) unfolding bs by (auto simp: s'_def)
    next
      case False
      have "merge_loop s (begin_at s + o1) buddy = Some s"
        using holds_first [OF hr] False Cons.prems(1,3) bl(1) k31
        by (intro merge_stop [of _ _ k "k + length (x # c)"]) auto
      moreover have "holds (blocks s) (begin_at s) (k + length (x # c)) (fill (x # c) (Whole False))"
        unfolding holds_fill using Cons.prems(1,2) by simp
      ultimately show ?thesis using LeftOf False bl(1) by (intro exI [of _ "blocks s"]) simp
    qed
  next
    case (RightOf l)
    have bl: "begin_at s + off (x # c) k = begin_at s + o1 + 2 ^ (k + min_k)" "buddy = begin_at s + o1"
      using bd X RightOf by (simp_all add: o1_def)
    have hl: "holds (blocks s) buddy k l" using Cons.prems(2) RightOf bl(2) by (simp add: o1_def)
    show ?thesis
    proof (cases "l = Whole False")
      case True
      have mn: "min (begin_at s + o1 + 2 ^ (k + min_k)) buddy = begin_at s + o1" using bl(2) by simp
      have "merge_loop s (begin_at s + o1 + 2 ^ (k + min_k)) buddy = merge_loop s' (begin_at s + o1) buddy'"
        by (rule merge_once [of s "begin_at s + o1 + 2 ^ (k + min_k)" k buddy "k + length (x # c)" s' buddy', unfolded mn])
          (use Cons.prems(1,3) bl(1) hl True k31 gb2 in \<open>simp_all add: s'_def\<close>)
      then show ?thesis using IH RightOf True bl(1) unfolding bs by (auto simp: s'_def add.assoc)
    next
      case False
      have "merge_loop s (begin_at s + o1 + 2 ^ (k + min_k)) buddy = Some s"
        using holds_first [OF hl] False Cons.prems(1,3) bl(1) k31
        by (intro merge_stop [of _ _ k "k + length (x # c)"]) auto
      moreover have "holds (blocks s) (begin_at s) (k + length (x # c)) (fill (x # c) (Whole False))"
        unfolding holds_fill using Cons.prems(1,2) by simp
      ultimately show ?thesis using RightOf False bl(1) by (intro exI [of _ "blocks s"]) (simp add: add.assoc)
    qed
  qed
qed

lemma buddies_deallocate_spec:
  assumes r: "buddies_rep s k (fill c (Whole b))" and k: "k = j + length c"
    and a: "a = begin_at s + off c j" and tm: "tm_ptrs s (a + 1) = Some (trusted s)"
  shows "\<exists>m. do_deallocate_sm s (a + occupied_block_metadata_size) = Some (Inr (s\<lparr>blocks := m\<rparr>)) \<and>
     buddies_rep (s\<lparr>blocks := m\<rparr>) k (release c)"
proof -
  have h: "blocks s a = Some \<lparr>occupied = b, size_k = j\<rparr>" "around (blocks s) (begin_at s) c j" "whole_k s = k + min_k" "k + min_k < 31"
    using r k a holds_fill by (auto simp: buddies_rep_def)
  define s1 where "s1 = s\<lparr>blocks := (blocks s)(a \<mapsto> \<lparr>occupied = False, size_k = j\<rparr>)\<rparr>"
  have bs: "begin_at s1 = begin_at s" by (simp add: s1_def begin_at_def)
  have b1: "blocks s1 (begin_at s1 + off c j) = Some \<lparr>occupied = False, size_k = j\<rparr>" unfolding bs by (simp add: s1_def a)
  have ar: "around (blocks s1) (begin_at s1) c j"
    unfolding bs using h(2) by (subst fill_around_cong [of _ _ _ _ "blocks s"]) (auto simp: s1_def a)
  obtain buddy where gb: "get_buddy s1 (begin_at s1 + off c j) = Some buddy"
    using get_buddy_spec [OF b1] h(4) k by auto
  obtain m where m: "merge_loop s1 a buddy = Some (s1\<lparr>blocks := m\<rparr>)" "holds m (begin_at s) (j + length c) (release c)"
    using merge_loop_spec [OF b1 ar _ _ gb] h(3,4) k unfolding bs by (auto simp: s1_def a)
  have "do_deallocate_sm s (a + occupied_block_metadata_size) = Some (Inr (s\<lparr>blocks := m\<rparr>))"
    using tm h(1) gb m(1) unfolding bs by (simp add: do_deallocate_sm_def Let_def s1_def a)
  then show ?thesis using m(2) h(3,4) k by (intro exI [of _ m]) (simp add: buddies_rep_def begin_at_def)
qed

text \<open>No free block has a free buddy of its size.\<close>

fun coalesced :: "buddy \<Rightarrow> bool" where
  "coalesced (Whole b) = True"
| "coalesced (Halves l r) \<longleftrightarrow> coalesced l \<and> coalesced r \<and> \<not> (l = Whole False \<and> r = Whole False)"

lemma coalesced_hole: "coalesced (fill c t) \<Longrightarrow> coalesced t"
  by (induction c t rule: fill.induct) auto

lemma coalesced_fill: "coalesced (fill c u) \<Longrightarrow> coalesced t \<Longrightarrow> t \<noteq> Whole False \<Longrightarrow> coalesced (fill c t)"
proof (induction c arbitrary: u t)
  case (Cons x c)
  show ?case
  proof (cases x)
    case (LeftOf r)
    have "coalesced (Halves u r)" using coalesced_hole [of c "Halves u r"] Cons.prems(1) LeftOf by simp
    then show ?thesis using Cons LeftOf by (auto intro!: Cons.IH [of "Halves u r"])
  next
    case (RightOf l)
    have "coalesced (Halves l u)" using coalesced_hole [of c "Halves l u"] Cons.prems(1) RightOf by simp
    then show ?thesis using Cons RightOf by (auto intro!: Cons.IH [of "Halves l u"])
  qed
qed simp

lemma coalesced_release: "coalesced (fill c t) \<Longrightarrow> coalesced (release c)"
proof (induction c arbitrary: t)
  case (Cons x c)
  show ?case
  proof (cases x)
    case (LeftOf r)
    then have c: "coalesced (fill c (Halves t r))" using Cons.prems by simp
    then have "coalesced r" using coalesced_hole by fastforce
    then show ?thesis using Cons.IH [OF c] coalesced_fill [OF c, of "Halves (Whole False) r"] LeftOf by simp
  next
    case (RightOf l)
    then have c: "coalesced (fill c (Halves l t))" using Cons.prems by simp
    then have "coalesced l" using coalesced_hole by fastforce
    then show ?thesis using Cons.IH [OF c] coalesced_fill [OF c, of "Halves l (Whole False)"] RightOf by simp
  qed
qed simp

lemma coalesced_carve: "coalesced (carve True need k) \<and> carve True need k \<noteq> Whole False"
  by (induction k) auto

lemma release_same: "coalesced (fill c (Whole False)) \<Longrightarrow> release c = fill c (Whole False)"
proof (cases c)
  case (Cons x c')
  assume c: "coalesced (fill c (Whole False))"
  then show ?thesis using Cons coalesced_hole [of c'] by (cases x) fastforce+
qed simp

lemma fill_append: "fill (c @ d) t = fill d (fill c t)"
  by (induction c t rule: fill.induct) simp_all

lemma carved_k_le: "carved_k need k \<le> k"
  by (induction k) auto

lemma carve_fill: "carve b need k = fill (replicate (k - carved_k need k) (LeftOf (Whole False))) (Whole b)"
proof (induction k)
  case (Suc k)
  show ?case
  proof (cases "2 * need \<le> 2 ^ (Suc k + min_k)")
    case True
    have "Halves (carve b need k) (Whole False) =
        fill (replicate (k - carved_k need k) (LeftOf (Whole False)) @ [LeftOf (Whole False)]) (Whole b)"
      by (simp add: Suc fill_append)
    also have "\<dots> = fill (replicate (Suc k - carved_k need k) (LeftOf (Whole False))) (Whole b)"
      using carved_k_le [of need k] by (simp add: replicate_append_same Suc_diff_le)
    finally show ?thesis using True by simp
  qed simp
qed simp

lemma release_lefts: "release (replicate n (LeftOf (Whole False)) @ c) = release c"
  by (induction n) simp_all

lemma off_lefts: "off (replicate n (LeftOf (Whole False)) @ c) k = off c (k + n)"
  by (induction n arbitrary: k) simp_all

subsection \<open>Properties\<close>


text \<open>Deallocating the pointer that an allocation returned restores the tiling exactly: the parts are merged
  with their buddies up to the block that was split and no further.\<close>
theorem buddies_roundtrip:
  assumes "buddies_rep s k t" "coalesced t" "n < 2 ^ 62" "do_allocate_sm s n = Some (Inr (s', p))"
  shows "\<exists>s''. do_deallocate_sm s' p = Some (Inr s'') \<and> buddies_rep s'' k t"
proof -
  obtain c j where a: "t = fill c (Whole False)" "k = j + length c" "p = begin_at s + off c j + occupied_block_metadata_size"
    "buddies_rep s' k (fill c (carve True (n + 8) j))" "trusted s' = trusted s"
    "tm_ptrs s' = (tm_ptrs s)(begin_at s + off c j + 1 \<mapsto> trusted s)"
    using buddies_allocate_spec [OF assms(1,3)] assms(4) by auto
  define i where "i = j - carved_k (n + 8) j"
  define d where "d = replicate i (LeftOf (Whole False)) @ c"
  have i: "carved_k (n + 8) j + i = j" using carved_k_le [of "n + 8" j] by (simp add: i_def)
  have bs: "begin_at s' = begin_at s" using a(5) by (simp add: begin_at_def)
  have "fill c (carve True (n + 8) j) = fill d (Whole True)"
    unfolding d_def fill_append carve_fill [of True "n + 8" j] by (simp add: i_def)
  then have r: "buddies_rep s' k (fill d (Whole True))" using a(4) by simp
  have k: "k = carved_k (n + 8) j + length d" using a(2) i by (simp add: d_def)
  have p: "begin_at s + off c j = begin_at s' + off d (carved_k (n + 8) j)" using i bs by (simp add: d_def off_lefts)
  have "tm_ptrs s' (begin_at s + off c j + 1) = Some (trusted s')" using a(5,6) by simp
  from buddies_deallocate_spec [OF r k p this] obtain m where
    "do_deallocate_sm s' p = Some (Inr (s'\<lparr>blocks := m\<rparr>))" "buddies_rep (s'\<lparr>blocks := m\<rparr>) k (release d)"
    using a(3) by auto
  moreover have "release d = t" using release_same assms(2) a(1) by (simp add: d_def release_lefts)
  ultimately show ?thesis by blast
qed

text \<open>Deallocating any occupied block frees it and merges it with its buddy as long as the buddy is a free
  block of the same size; the memory stays tiled and no free block is left beside a free buddy.\<close>
theorem buddies_deallocate:
  assumes "buddies_rep s k (fill c (Whole True))" "coalesced (fill c (Whole True))" "k = j + length c"
    and "tm_ptrs s (begin_at s + off c j + 1) = Some (trusted s)"
  shows "\<exists>s'. do_deallocate_sm s (begin_at s + off c j + occupied_block_metadata_size) = Some (Inr s') \<and>
     buddies_rep s' k (release c) \<and> coalesced (release c)"
  using buddies_deallocate_spec [OF assms(1,3) refl assms(4)] coalesced_release [OF assms(2)] by blast

text \<open>A memory of 64 bytes.\<close>

definition memory64 :: buddies where
  "memory64 = \<lparr>blocks = [64 \<mapsto> \<lparr>occupied = False, size_k = 2\<rparr>], tm_ptrs = Map.empty, trusted = 0, fit = First_fit, whole_k = 6\<rparr>"

lemma memory64_rep: "buddies_rep memory64 2 (Whole False)"
  by (simp add: memory64_def buddies_rep_def begin_at_def metadata_size_def min_k_def)

lemma fill_Whole: "fill c t = Whole b \<longleftrightarrow> c = [] \<and> t = Whole b"
  by (induction c t rule: fill.induct) simp_all


theorem buddies_roundtrip_witness:
  "\<exists>s' p s''. do_allocate_sm memory64 4 = Some (Inr (s', p)) \<and> do_deallocate_sm s' p = Some (Inr s'') \<and>
     buddies_rep s'' 2 (Whole False)"
proof -
  have "\<exists>x \<in> set (leaves (begin_at memory64) 2 (Whole False)). fits (4 + 8) x"
    by (simp add: fits_def min_k_def)
  then obtain s' p where a: "do_allocate_sm memory64 4 = Some (Inr (s', p))"
    using buddies_allocate_spec [OF memory64_rep, of 4] by auto
  then show ?thesis using buddies_roundtrip [OF memory64_rep _ _ a] by auto
qed

text \<open>One occupied and one free block of 32 bytes.\<close>

definition memory_half :: buddies where
  "memory_half = \<lparr>blocks = [64 \<mapsto> \<lparr>occupied = True, size_k = 1\<rparr>, 96 \<mapsto> \<lparr>occupied = False, size_k = 1\<rparr>],
     tm_ptrs = [65 \<mapsto> 0], trusted = 0, fit = First_fit, whole_k = 6\<rparr>"

theorem buddies_deallocate_witness:
  "\<exists>s'. do_deallocate_sm memory_half 73 = Some (Inr s') \<and> buddies_rep s' 2 (Whole False)"
proof -
  have "buddies_rep memory_half (Suc 1) (fill [LeftOf (Whole False)] (Whole True))"
    by (simp add: memory_half_def buddies_rep_def begin_at_def metadata_size_def min_k_def)
  from buddies_deallocate [OF this, of 1] show ?thesis
    by (simp add: memory_half_def begin_at_def metadata_size_def occupied_block_metadata_size_def numeral_2_eq_2)
qed



subsection \<open>The constructor\<close>

lemma fold_no_bits: "(\<And>i. i \<in> set is \<Longrightarrow> \<not> bit w i) \<Longrightarrow> fold (note_bit w) is acc = acc"
  by (induction "is" arbitrary: acc) (auto simp: note_bit_def)

lemma nearest_power:
  assumes "m < 64"
  shows "nearest_greater_k_of_2 (2 ^ m) = of_nat m"
proof -
  have b: "bit (2 ^ m :: 64 word) i \<longleftrightarrow> i = m" if "i < 64" for i
    using that by (auto simp: bit_exp_iff)
  have "[0..<64] = [0..<m] @ m # [Suc m..<64]"
    using assms upt_add_eq_append [of 0 m "64 - m"] upt_conv_Cons [of m 64] by simp
  then have l: "rev [0..<64] = rev [Suc m..<64] @ m # rev [0..<m]" by simp
  have f: "fold (note_bit (2 ^ m)) (rev [Suc m..<64]) acc = acc" "fold (note_bit (2 ^ m)) (rev [0..<m]) acc = acc" for acc
    using assms b by (intro fold_no_bits; auto)+
  show ?thesis
    unfolding nearest_greater_k_of_2_def l using assms by (simp add: f) (simp add: note_bit_def b f)
qed

lemma construct_power:
  assumes "m < 31"
  shows "(if m < min_k then construct address (2 ^ m) mode = Inl (Logic_error ''space size is too small'')
     else \<exists>s. construct address (2 ^ m) mode = Inr s \<and> buddies_rep s (m - min_k) (Whole False) \<and> trusted s = address \<and>
       end_at s = Some (address + metadata_size + 2 ^ m))"
proof -
  have k: "unat (nearest_greater_k_of_2 (2 ^ m)) = m"
    using assms by (simp add: nearest_power unsigned_of_nat take_bit_nat_eq_self)
  show ?thesis
    using assms by (simp add: construct_def k buddies_rep_def begin_at_def end_at_def whole_size_def)
qed

text \<open>Constructed with a power of two from 16 bytes on, the allocator holds one free block that is the whole
  memory; with 8 bytes or fewer the constructor throws.\<close>
theorem buddies_construct:
  assumes "m < 31"
  shows "(if m < min_k then construct address (2 ^ m) mode = Inl (Logic_error ''space size is too small'')
     else \<exists>s. construct address (2 ^ m) mode = Inr s \<and> buddies_rep s (m - min_k) (Whole False) \<and> coalesced (Whole False) \<and>
       end_at s = Some (address + metadata_size + 2 ^ m))"
  using construct_power [OF assms, of address mode] by (auto split: if_splits)

theorem buddies_construct_witness:
  "\<exists>s. construct 1000 64 First_fit = Inr s \<and> buddies_rep s 2 (Whole False)"
  using buddies_construct [of 6 1000 First_fit] by (auto simp: min_k_def)

subsection \<open>The interface of a memory resource\<close>

text \<open>The blocks beside a position.\<close>

fun beside :: "nat \<Rightarrow> side list \<Rightarrow> nat \<Rightarrow> (nat \<times> bool \<times> nat) set" where
  "beside p [] k = {}"
| "beside p (LeftOf r # c) k = set (leaves (p + off c (Suc k) + 2 ^ (k + min_k)) k r) \<union> beside p c (Suc k)"
| "beside p (RightOf l # c) k = set (leaves (p + off c (Suc k)) k l) \<union> beside p c (Suc k)"

lemma leaves_fill: "set (leaves p (k + length c) (fill c t)) = set (leaves (p + off c k) k t) \<union> beside p c k"
proof (induction c arbitrary: k t)
  case (Cons x c)
  show ?case using Cons.IH [of "Suc k"] by (cases x) (auto simp: add.assoc)
qed simp

lemma leaves_release:
  "(a, True, j) \<in> set (leaves p (k + length c) (release c)) \<longleftrightarrow> (a, True, j) \<in> beside p c k"
proof (induction c arbitrary: k rule: release.induct)
  case (2 r c)
  show ?case using "2.IH" [of "Suc k"] leaves_fill [of p "Suc k" c] by auto
next
  case (3 l c)
  show ?case using "3.IH" [of "Suc k"] leaves_fill [of p "Suc k" c] by auto
qed simp

lemma leaves_bounds: "(a, b, j) \<in> set (leaves p k t) \<Longrightarrow> p \<le> a \<and> a + 2 ^ (j + min_k) \<le> p + 2 ^ (k + min_k)"
  by (induction p k t rule: leaves.induct) auto

lemma leaves_apart:
  "(a, b, j) \<in> set (leaves p k t) \<Longrightarrow> (a', b', j') \<in> set (leaves p k t) \<Longrightarrow> (a, b, j) \<noteq> (a', b', j') \<Longrightarrow>
     a + 2 ^ (j + min_k) \<le> a' \<or> a' + 2 ^ (j' + min_k) \<le> a"
proof (induction p k t rule: leaves.induct)
  case (3 p k l r)
  let ?L = "set (leaves p k l)" and ?R = "set (leaves (p + 2 ^ (k + min_k)) k r)"
  consider "(a, b, j) \<in> ?L" "(a', b', j') \<in> ?L" | "(a, b, j) \<in> ?R" "(a', b', j') \<in> ?R"
    | "(a, b, j) \<in> ?L" "(a', b', j') \<in> ?R" | "(a, b, j) \<in> ?R" "(a', b', j') \<in> ?L"
    using "3.prems"(1,2) by auto
  then show ?case
  proof cases
    case 1
    then show ?thesis using "3.IH"(1) "3.prems"(3) by blast
  next
    case 2
    then show ?thesis using "3.IH"(2) "3.prems"(3) by blast
  next
    case 3
    then show ?thesis using leaves_bounds [OF 3(1)] leaves_bounds [OF 3(2)] by linarith
  next
    case 4
    then show ?thesis using leaves_bounds [OF 4(1)] leaves_bounds [OF 4(2)] by linarith
  qed
qed simp_all

lemma leaves_carve: "(a, True, i) \<in> set (leaves p j (carve True need j)) \<longleftrightarrow> a = p \<and> i = carved_k need j"
  by (induction j) auto

definition room :: "nat \<Rightarrow> nat" where "room j = 2 ^ (j + min_k) - occupied_block_metadata_size"

definition buddies_payloads :: "buddies \<Rightarrow> nat \<times> buddy \<Rightarrow> (nat \<times> nat) set" where
  "buddies_payloads s kt =
     {(a + occupied_block_metadata_size, room j) |a j. (a, True, j) \<in> set (leaves (begin_at s) (fst kt) (snd kt))}"

text \<open>The invariant with the marks that deallocation checks; \<open>address\<close> and \<open>k\<close> are those of the construction.\<close>

definition marked_rep :: "nat \<Rightarrow> nat \<Rightarrow> buddies \<Rightarrow> nat \<times> buddy \<Rightarrow> bool" where
  "marked_rep address k s kt \<longleftrightarrow> buddies_rep s k (snd kt) \<and> fst kt = k \<and> trusted s = address \<and>
     (\<forall>a j. (a, True, j) \<in> set (leaves (begin_at s) k (snd kt)) \<longrightarrow> tm_ptrs s (a + 1) = Some address)"

lemma room_fits: "n + 8 \<le> 2 ^ (j + min_k) \<Longrightarrow> n + 8 \<noteq> 2 ^ (j + min_k) \<Longrightarrow> n \<le> room j"
  by (simp add: room_def occupied_block_metadata_size_def)

lemma room_apart: "a + 2 ^ (j + min_k) \<le> (b::nat) \<Longrightarrow> a + occupied_block_metadata_size + room j \<le> b"
proof -
  have "(2::nat) ^ 4 \<le> 2 ^ (j + min_k)" by (rule power_increasing) (simp_all add: min_k_def)
  then show "a + 2 ^ (j + min_k) \<le> b \<Longrightarrow> a + occupied_block_metadata_size + room j \<le> b"
    by (simp add: room_def occupied_block_metadata_size_def)
qed

interpretation buddy_system: memory_resource "marked_rep address k" do_allocate_sm do_deallocate_sm buddies_payloads
    "\<lambda>n. n < 2 ^ 62 \<and> (\<forall>j. n + 8 \<noteq> 2 ^ j)" for address k
proof
  fix s kt x y
  assume "x \<in> buddies_payloads s kt" "y \<in> buddies_payloads s kt" "x \<noteq> y"
  then obtain a j b i where *: "x = (a + occupied_block_metadata_size, room j)" "y = (b + occupied_block_metadata_size, room i)"
      "(a, True, j) \<in> set (leaves (begin_at s) (fst kt) (snd kt))" "(b, True, i) \<in> set (leaves (begin_at s) (fst kt) (snd kt))"
      "(a, True, j) \<noteq> (b, True, i)"
    by (auto simp: buddies_payloads_def)
  then have "a + 2 ^ (j + min_k) \<le> b \<or> b + 2 ^ (i + min_k) \<le> a" using leaves_apart by blast
  moreover from this have "a \<noteq> b" by (auto simp: not_le)
  ultimately show "apart x y \<and> fst x \<noteq> fst y"
    using *(1,2) room_apart [of a j b] room_apart [of b i a] by (auto simp: apart_def)
next
  fix s kt and n :: nat
  assume r: "marked_rep address k s kt" "n < 2 ^ 62 \<and> (\<forall>j. n + 8 \<noteq> 2 ^ j)"
  define t where "t = snd kt"
  have R: "buddies_rep s k t" "kt = (k, t)" "trusted s = address" using r(1) by (auto simp: marked_rep_def t_def)
  consider "do_allocate_sm s n = Some (Inl Bad_alloc)"
    | s' c j where "t = fill c (Whole False)" "k = j + length c" "n + 8 \<le> 2 ^ (j + min_k)"
       "do_allocate_sm s n = Some (Inr (s', begin_at s + off c j + occupied_block_metadata_size))"
       "buddies_rep s' k (fill c (carve True (n + 8) j))" "trusted s' = trusted s"
       "tm_ptrs s' = (tm_ptrs s)(begin_at s + off c j + 1 \<mapsto> trusted s)"
    using buddies_allocate_spec [OF R(1)] r(2) by blast
  then show "do_allocate_sm s n = Some (Inl Bad_alloc) \<or>
      (\<exists>s' p b' m. do_allocate_sm s n = Some (Inr (s', p)) \<and> marked_rep address k s' b' \<and> n \<le> m \<and>
        (p, m) \<notin> buddies_payloads s kt \<and> buddies_payloads s' b' = insert (p, m) (buddies_payloads s kt))"
  proof cases
    case 2
    let ?b = "begin_at s + off c j" and ?u = "fill c (carve True (n + 8) j)" and ?i = "carved_k (n + 8) j"
    have bs: "begin_at s' = begin_at s" using 2(6) by (simp add: begin_at_def)
    have old: "set (leaves (begin_at s) k t) = insert (?b, False, j) (beside (begin_at s) c j)"
      using leaves_fill [of "begin_at s" j c "Whole False"] 2(1,2) by simp
    have new: "(a, True, i) \<in> set (leaves (begin_at s) k ?u) \<longleftrightarrow> (a = ?b \<and> i = ?i) \<or> (a, True, i) \<in> set (leaves (begin_at s) k t)" for a i
      using leaves_fill [of "begin_at s" j c "carve True (n + 8) j"] 2(2) old leaves_carve by auto
    have fresh: "(?b, True, i) \<notin> set (leaves (begin_at s) k t)" for i
      using leaves_apart [of ?b True i "begin_at s" k t ?b False j] old by (auto simp: not_le)
    have "buddies_payloads s' (k, ?u) = insert (?b + occupied_block_metadata_size, room ?i) (buddies_payloads s kt)"
      unfolding buddies_payloads_def bs R(2) fst_conv snd_conv new by blast
    moreover have "(?b + occupied_block_metadata_size, room ?i) \<notin> buddies_payloads s kt"
      using fresh by (auto simp: buddies_payloads_def R(2))
    moreover have "n \<le> room ?i" using carved_k_fits [OF 2(3)] r(2) by (auto intro: room_fits)
    moreover have "marked_rep address k s' (k, ?u)"
      using r(1) 2(5-7) new bs R by (auto simp: marked_rep_def)
    ultimately show ?thesis using 2(4) by blast
  qed blast
next
  fix s kt p m
  assume r: "marked_rep address k s kt" "(p, m) \<in> buddies_payloads s kt"
  define t where "t = snd kt"
  have R: "buddies_rep s k t" "kt = (k, t)" "trusted s = address" using r(1) by (auto simp: marked_rep_def t_def)
  obtain a j where a: "p = a + occupied_block_metadata_size" "m = room j" "(a, True, j) \<in> set (leaves (begin_at s) k t)"
    using r(2) R(2) by (auto simp: buddies_payloads_def)
  obtain c where c: "t = fill c (Whole True)" "k = j + length c" "a = begin_at s + off c j" using leaf_split [OF a(3)] by blast
  have tm: "tm_ptrs s (a + 1) = Some (trusted s)" using r(1) a(3) R(2,3) unfolding marked_rep_def by auto
  obtain mm where d: "do_deallocate_sm s p = Some (Inr (s\<lparr>blocks := mm\<rparr>))" "buddies_rep (s\<lparr>blocks := mm\<rparr>) k (release c)"
    using buddies_deallocate_spec [OF R(1) [unfolded c(1)] c(2,3) tm] a(1) by blast
  have bs: "begin_at (s\<lparr>blocks := mm\<rparr>) = begin_at s" by (simp add: begin_at_def)
  have old: "set (leaves (begin_at s) k t) = insert (a, True, j) (beside (begin_at s) c j)"
    using leaves_fill [of "begin_at s" j c "Whole True"] c by simp
  have new: "(b, True, i) \<in> set (leaves (begin_at s) k (release c)) \<longleftrightarrow> (b, True, i) \<in> beside (begin_at s) c j" for b i
    using leaves_release [of b i "begin_at s" j c] c(2) by simp
  have gone: "(a, True, i) \<notin> beside (begin_at s) c j" for i
    using leaves_apart [of a True i "begin_at s" k "fill c (Whole False)" a False j]
      leaves_fill [of "begin_at s" j c "Whole False"] c(2,3) by (auto simp: not_le)
  have "buddies_payloads (s\<lparr>blocks := mm\<rparr>) (k, release c) = buddies_payloads s kt - {(p, m)}"
    unfolding buddies_payloads_def bs R(2) fst_conv snd_conv new old using gone a(1,2) by auto
  moreover have "marked_rep address k (s\<lparr>blocks := mm\<rparr>) (k, release c)"
    using r(1) d(2) new old R(2) bs by (auto simp: marked_rep_def)
  ultimately show "\<exists>s' b'. do_deallocate_sm s p = Some (Inr s') \<and> marked_rep address k s' b' \<and>
      buddies_payloads s' b' = buddies_payloads s kt - {(p, m)}"
    using d(1) by blast
qed



end
