(* ===== verification/BoundaryTags.thy ===== *)
theory BoundaryTags
  imports AllocCommon
begin

text \<open>
  The allocator with boundary tags (allocator/allocator_boundary_tags): the occupied blocks form a doubly
  linked list in the order of their addresses, the free memory is what lies between them. The abstract
  state is the list of the occupied blocks; allocation inserts a block into a hole, deallocation takes a
  block out. The headers of freed blocks stay in memory, as in the code.
\<close>

subsection \<open>State\<close>

record block_metadata =
  bsize :: nat
  next_block :: ptr
  prev_block :: ptr
  tm_ptr :: ptr

text \<open>\<open>sizeof(block_metadata)\<close> and \<open>sizeof(allocator_metadata)\<close>.\<close>

definition block_meta :: nat where "block_meta = 32"
definition alloc_meta :: nat where "alloc_meta = 80"

record boundary =
  tags :: "nat \<rightharpoonup> block_metadata"
  trusted :: nat
  fit :: fit_mode
  mem_size :: nat
  first_block :: ptr

definition block_end :: "boundary \<Rightarrow> nat \<Rightarrow> nat option" where
  "block_end s a = do { b \<leftarrow> tags s a; Some (a + block_meta + bsize b) }"

definition allocator_end :: "boundary \<Rightarrow> nat" where
  "allocator_end s = trusted s + alloc_meta + mem_size s"

text \<open>The constructor; \<open>trusted\<close> is what the parent allocator returns.\<close>

definition construct :: "nat \<Rightarrow> nat \<Rightarrow> fit_mode \<Rightarrow> alloc_error + boundary" where
  "construct address space_size mode =
     (if space_size < block_meta then Inl (Logic_error ''`space_size` is not enough to fit a single block'')
      else Inr \<lparr>tags = Map.empty, trusted = address, fit = mode, mem_size = space_size, first_block = nullptr\<rparr>)"

subsection \<open>The iterator\<close>

text \<open>An iterator stands on an occupied block or on the hole behind it; the trusted memory stands for the
  place before the first block.\<close>

record boundary_iterator =
  occupied_ptr :: ptr
  occupied :: bool

definition next_free_block_size :: "boundary \<Rightarrow> nat \<Rightarrow> nat option" where
  "next_free_block_size s block =
     (if block = trusted s then
        (case first_block s of
           None \<Rightarrow> Some (mem_size s)
         | Some f \<Rightarrow> Some (size_sub (size_sub f (trusted s)) alloc_meta))
      else do {
        b \<leftarrow> tags s block;
        e \<leftarrow> block_end s block;
        (case next_block b of
           None \<Rightarrow> Some (size_sub (allocator_end s) e)
         | Some n \<Rightarrow> Some (size_sub n e))
      })"

definition begin_it :: "boundary \<Rightarrow> boundary_iterator" where
  "begin_it s =
     (if first_block s = Some (trusted s + alloc_meta)
      then \<lparr>occupied_ptr = Some (trusted s + alloc_meta), occupied = True\<rparr>
      else \<lparr>occupied_ptr = Some (trusted s), occupied = False\<rparr>)"

definition end_it :: boundary_iterator where
  "end_it = \<lparr>occupied_ptr = nullptr, occupied = False\<rparr>"

text \<open>\<open>operator==\<close> compares the pointers.\<close>

definition same_it :: "boundary_iterator \<Rightarrow> boundary_iterator \<Rightarrow> bool" where
  "same_it x y \<longleftrightarrow> occupied_ptr x = occupied_ptr y"

definition increment :: "boundary \<Rightarrow> boundary_iterator \<Rightarrow> boundary_iterator option" where
  "increment s it = do {
     p \<leftarrow> occupied_ptr it;
     (if occupied it then do {
        b \<leftarrow> tags s p;
        e \<leftarrow> block_end s p;
        let next_block_right_after = (next_block b = Some e);
        let last_block = (e = allocator_end s);
        (if next_block_right_after \<or> (next_block b = nullptr \<and> last_block)
         then Some \<lparr>occupied_ptr = next_block b, occupied = True\<rparr>
         else Some \<lparr>occupied_ptr = Some p, occupied = False\<rparr>)
      } else if p = trusted s then Some \<lparr>occupied_ptr = first_block s, occupied = True\<rparr>
      else do { b \<leftarrow> tags s p; Some \<lparr>occupied_ptr = next_block b, occupied = True\<rparr> })
   }"

definition decrement :: "boundary \<Rightarrow> boundary_iterator \<Rightarrow> boundary_iterator option" where
  "decrement s it =
     (if \<not> occupied it then Some (it\<lparr>occupied := True\<rparr>)
      else do {
        p \<leftarrow> occupied_ptr it;
        b \<leftarrow> tags s p;
        (if prev_block b \<noteq> Some (trusted s) then do {
           q \<leftarrow> prev_block b;
           e \<leftarrow> block_end s q;
           Some \<lparr>occupied_ptr = Some q, occupied = (e = p)\<rparr>
         } else Some it)
      })"

definition size_of :: "boundary \<Rightarrow> boundary_iterator \<Rightarrow> nat option" where
  "size_of s it =
     (case occupied_ptr it of
        None \<Rightarrow> Some 0
      | Some p \<Rightarrow>
          if occupied it then do { b \<leftarrow> tags s p; Some (size_add (bsize b) block_meta) }
          else next_free_block_size s p)"

text \<open>\<open>for (auto it = begin(); it != end(); ++it)\<close>: the body sees the iterator and its size.\<close>

partial_function (option) for_tags ::
  "(boundary_iterator \<times> nat \<Rightarrow> 'a \<Rightarrow> 'a \<times> bool) \<Rightarrow> boundary \<Rightarrow> boundary_iterator \<Rightarrow> 'a \<Rightarrow> 'a option" where
  "for_tags body s it acc =
     (if same_it it end_it then Some acc
      else do {
        sz \<leftarrow> size_of s it;
        (case body (it, sz) acc of (acc, stop) \<Rightarrow>
           if stop then Some acc else do { it \<leftarrow> increment s it; for_tags body s it acc })
      })"

definition get_blocks_info_inner :: "boundary \<Rightarrow> block_info list option" where
  "get_blocks_info_inner s =
     for_tags (\<lambda>(it, sz) infos. (infos @ [\<lparr>block_size = sz, is_block_occupied = occupied it\<rparr>], False)) s (begin_it s) []"

definition get_available_memory :: "boundary \<Rightarrow> nat option" where
  "get_available_memory s =
     for_tags (\<lambda>(it, sz) available. (if \<not> occupied it then size_add available sz else available, False)) s (begin_it s) 0"

subsection \<open>The searches\<close>

definition hole_fits :: "nat \<Rightarrow> boundary_iterator \<times> nat \<Rightarrow> bool" where
  "hole_fits need x \<longleftrightarrow> \<not> occupied (fst x) \<and> need \<le> snd x"

text \<open>The iterator found so far is kept with its size; None is the default iterator, which has a null
  pointer and size 0.\<close>

definition get_block_first_fit :: "boundary \<Rightarrow> nat \<Rightarrow> ptr option" where
  "get_block_first_fit s need = do {
     r \<leftarrow> for_tags (\<lambda>x r. if hole_fits need x then (Some x, True) else (r, False)) s (begin_it s) None;
     Some (case r of None \<Rightarrow> nullptr | Some x \<Rightarrow> occupied_ptr (fst x))
   }"

definition get_block_best_fit :: "boundary \<Rightarrow> nat \<Rightarrow> ptr option" where
  "get_block_best_fit s need = do {
     r \<leftarrow> for_tags
       (\<lambda>x r. (if hole_fits need x \<and> (case r of None \<Rightarrow> True | Some b \<Rightarrow> snd x < snd b)
               then Some x else r, False)) s (begin_it s) None;
     Some (case r of None \<Rightarrow> nullptr | Some x \<Rightarrow> occupied_ptr (fst x))
   }"

definition get_block_worst_fit :: "boundary \<Rightarrow> nat \<Rightarrow> ptr option" where
  "get_block_worst_fit s need = do {
     r \<leftarrow> for_tags
       (\<lambda>x r. (if hole_fits need x \<and> (case r of None \<Rightarrow> 0 | Some b \<Rightarrow> snd b) < snd x then Some x else r, False))
       s (begin_it s) None;
     Some (case r of None \<Rightarrow> nullptr | Some x \<Rightarrow> occupied_ptr (fst x))
   }"

definition find_hole :: "boundary \<Rightarrow> nat \<Rightarrow> ptr option" where
  "find_hole s need =
     (case fit s of First_fit \<Rightarrow> get_block_first_fit s need
      | The_best_fit \<Rightarrow> get_block_best_fit s need
      | The_worst_fit \<Rightarrow> get_block_worst_fit s need)"

subsection \<open>Allocation and deallocation\<close>

definition write_tag :: "boundary \<Rightarrow> nat \<Rightarrow> (block_metadata \<Rightarrow> block_metadata) \<Rightarrow> boundary option" where
  "write_tag s a f = do { b \<leftarrow> tags s a; Some (s\<lparr>tags := (tags s)(a \<mapsto> f b)\<rparr>) }"

definition do_allocate_sm :: "boundary \<Rightarrow> nat \<Rightarrow> (alloc_error + boundary \<times> nat) option" where
  "do_allocate_sm s n = do {
     let total_size = size_add n block_meta;
     found \<leftarrow> find_hole s total_size;
     (case found of
        None \<Rightarrow> Some (Inl Bad_alloc)
      | Some block \<Rightarrow> do {
          free_block_size \<leftarrow> next_free_block_size s block;
          let total_size = (if free_block_size < size_add total_size block_meta then free_block_size else total_size);
          let iter_begin = (block = trusted s);
          free_block \<leftarrow> (if iter_begin then Some (trusted s + alloc_meta) else block_end s block);
          next \<leftarrow> (if iter_begin then Some (first_block s) else do { b \<leftarrow> tags s block; Some (next_block b) });
          let s = s\<lparr>tags := (tags s)(free_block \<mapsto>
                      \<lparr>bsize = size_sub total_size block_meta, next_block = next, prev_block = Some block, tm_ptr = Some (trusted s)\<rparr>)\<rparr>;
          s \<leftarrow> (case next of None \<Rightarrow> Some s | Some q \<Rightarrow> write_tag s q (\<lambda>b. b\<lparr>prev_block := Some free_block\<rparr>));
          s \<leftarrow> (if iter_begin then Some (s\<lparr>first_block := Some free_block\<rparr>)
                else write_tag s block (\<lambda>b. b\<lparr>next_block := Some free_block\<rparr>));
          Some (Inr (s, free_block + block_meta))
        })
   }"

definition do_deallocate_sm :: "boundary \<Rightarrow> nat \<Rightarrow> (alloc_error + boundary) option" where
  "do_deallocate_sm s at_ptr = do {
     let block = at_ptr - block_meta;
     b \<leftarrow> tags s block;
     (if tm_ptr b \<noteq> Some (trusted s) then Some (Inl (Logic_error ''unknown block''))
      else do {
        s \<leftarrow> (if prev_block b = Some (trusted s) then Some (s\<lparr>first_block := next_block b\<rparr>)
              else do { p \<leftarrow> prev_block b; write_tag s p (\<lambda>c. c\<lparr>next_block := next_block b\<rparr>) });
        b \<leftarrow> tags s block;
        s \<leftarrow> (case next_block b of None \<Rightarrow> Some s | Some q \<Rightarrow> write_tag s q (\<lambda>c. c\<lparr>prev_block := prev_block b\<rparr>));
        Some (Inr s)
      })
   }"

definition set_fit_mode :: "boundary \<Rightarrow> fit_mode \<Rightarrow> boundary" where
  "set_fit_mode s mode = s\<lparr>fit := mode\<rparr>"

subsection \<open>The list of occupied blocks\<close>

text \<open>A block is its address and the size of its payload.\<close>

fun head_ptr :: "(nat \<times> nat) list \<Rightarrow> ptr" where
  "head_ptr [] = nullptr"
| "head_ptr ((a, n) # bs) = Some a"

text \<open>The headers of \<open>bs\<close> are linked, after the block \<open>p\<close> and before \<open>nxt\<close>.\<close>

fun linked :: "(nat \<rightharpoonup> block_metadata) \<Rightarrow> nat \<Rightarrow> nat \<Rightarrow> (nat \<times> nat) list \<Rightarrow> ptr \<Rightarrow> bool" where
  "linked m t p [] nxt = True"
| "linked m t p ((a, n) # bs) nxt \<longleftrightarrow>
     m a = Some \<lparr>bsize = n, next_block = (if bs = [] then nxt else head_ptr bs), prev_block = Some p, tm_ptr = Some t\<rparr> \<and>
     linked m t a bs nxt"

text \<open>The blocks lie in ascending order, without overlap, between \<open>lo\<close> and \<open>hi\<close>.\<close>

fun placed :: "nat \<Rightarrow> nat \<Rightarrow> (nat \<times> nat) list \<Rightarrow> bool" where
  "placed lo hi [] \<longleftrightarrow> lo \<le> hi"
| "placed lo hi ((a, n) # bs) \<longleftrightarrow> lo \<le> a \<and> placed (a + block_meta + n) hi bs"

definition boundary_rep :: "boundary \<Rightarrow> (nat \<times> nat) list \<Rightarrow> bool" where
  "boundary_rep s bs \<longleftrightarrow> linked (tags s) (trusted s) (trusted s) bs nullptr \<and> first_block s = head_ptr bs \<and>
     placed (trusted s + alloc_meta) (allocator_end s) bs \<and> allocator_end s < 2 ^ 64 \<and> block_meta \<le> mem_size s"

text \<open>Blocks and holes in the order of their addresses: what an iteration sees.\<close>

fun segs :: "nat \<Rightarrow> nat \<Rightarrow> nat \<Rightarrow> (nat \<times> nat) list \<Rightarrow> (boundary_iterator \<times> nat) list" where
  "segs p lo hi [] = (if lo < hi then [(\<lparr>occupied_ptr = Some p, occupied = False\<rparr>, hi - lo)] else [])"
| "segs p lo hi ((a, n) # bs) =
     (if lo < a then [(\<lparr>occupied_ptr = Some p, occupied = False\<rparr>, a - lo)] else []) @
     (\<lparr>occupied_ptr = Some a, occupied = True\<rparr>, n + block_meta) # segs a (a + block_meta + n) hi bs"

text \<open>The last block of a list with its end, or where the list starts.\<close>

fun tail_of :: "nat \<Rightarrow> nat \<Rightarrow> (nat \<times> nat) list \<Rightarrow> nat \<times> nat" where
  "tail_of p lo [] = (p, lo)"
| "tail_of p lo ((a, n) # bs) = tail_of a (a + block_meta + n) bs"

lemma head_ptr_append: "head_ptr (xs @ ys) = (if xs = [] then head_ptr ys else head_ptr xs)"
  by (cases xs rule: head_ptr.cases) auto

lemma linked_append:
  "linked m t p (xs @ ys) nxt \<longleftrightarrow>
     linked m t p xs (if ys = [] then nxt else head_ptr ys) \<and> linked m t (fst (tail_of p lo xs)) ys nxt"
  by (induction p lo xs rule: tail_of.induct) (auto simp: head_ptr_append)

lemma linked_cong: "(\<And>x. x \<in> fst ` set bs \<Longrightarrow> m' x = m x) \<Longrightarrow> linked m' t p bs nxt = linked m t p bs nxt"
  by (induction m t p bs nxt rule: linked.induct) auto

lemma placed_le: "placed lo hi bs \<Longrightarrow> lo \<le> hi"
  by (induction lo hi bs rule: placed.induct) auto

lemma placed_in: "placed lo hi bs \<Longrightarrow> (a, n) \<in> set bs \<Longrightarrow> lo \<le> a \<and> a + block_meta + n \<le> hi"
proof (induction lo hi bs rule: placed.induct)
  case (2 lo hi a' n' bs)
  then show ?case using placed_le [of "a' + block_meta + n'" hi bs] by auto
qed simp

lemma placed_append: "placed lo hi (xs @ ys) \<longleftrightarrow> placed lo (snd (tail_of p lo xs)) xs \<and> placed (snd (tail_of p lo xs)) hi ys"
proof (induction p lo xs rule: tail_of.induct)
  case (2 p lo a n bs)
  then show ?case by auto
qed (auto dest: placed_le)

lemma tail_of_snoc [simp]: "tail_of p lo (xs @ [(a, n)]) = (a, a + block_meta + n)"
  by (induction p lo xs rule: tail_of.induct) auto

subsection \<open>Iteration\<close>

text \<open>The place behind the block \<open>p\<close>, where \<open>bs\<close> follows.\<close>

definition behind :: "boundary \<Rightarrow> nat \<Rightarrow> nat \<Rightarrow> (nat \<times> nat) list \<Rightarrow> bool" where
  "behind s p lo bs \<longleftrightarrow>
     (if p = trusted s then first_block s = head_ptr bs \<and> lo = trusted s + alloc_meta
      else \<exists>b. tags s p = Some b \<and> next_block b = head_ptr bs \<and> lo = p + block_meta + bsize b)"

definition start_it :: "nat \<Rightarrow> nat \<Rightarrow> nat \<Rightarrow> (nat \<times> nat) list \<Rightarrow> boundary_iterator" where
  "start_it p lo hi bs =
     (if head_ptr bs = Some lo \<or> (bs = [] \<and> lo = hi) then \<lparr>occupied_ptr = head_ptr bs, occupied = True\<rparr>
      else \<lparr>occupied_ptr = Some p, occupied = False\<rparr>)"

lemma hole_size:
  assumes "behind s p lo bs" "placed lo (allocator_end s) bs" "allocator_end s < 2 ^ 64"
  shows "next_free_block_size s p = Some ((case bs of [] \<Rightarrow> allocator_end s | (a, n) # _ \<Rightarrow> a) - lo)"
proof (cases bs rule: head_ptr.cases)
  case 1
  then show ?thesis
    using assms by (cases "p = trusted s") (auto simp: next_free_block_size_def behind_def allocator_end_def block_end_def)
next
  case (2 a n bs')
  have a: "lo \<le> a" "a \<le> allocator_end s" using assms(2) 2 placed_in [of lo "allocator_end s" bs a n] by auto
  show ?thesis
  proof (cases "p = trusted s")
    case True
    then have "size_sub a (trusted s) = a - trusted s" "size_sub (a - trusted s) alloc_meta = a - trusted s - alloc_meta"
      using assms 2 a by (auto simp: behind_def)
    then show ?thesis using assms 2 True by (auto simp: next_free_block_size_def behind_def)
  next
    case False
    then show ?thesis using assms 2 a by (auto simp: next_free_block_size_def behind_def block_end_def)
  qed
qed

lemma increment_hole:
  "behind s p lo bs \<Longrightarrow> increment s \<lparr>occupied_ptr = Some p, occupied = False\<rparr> = Some \<lparr>occupied_ptr = head_ptr bs, occupied = True\<rparr>"
  by (auto simp: increment_def behind_def split: if_splits)

lemma increment_block:
  "behind s p lo bs \<Longrightarrow> p \<noteq> trusted s \<Longrightarrow>
   increment s \<lparr>occupied_ptr = Some p, occupied = True\<rparr> = Some (start_it p lo (allocator_end s) bs)"
  by (cases bs rule: head_ptr.cases) (auto simp: increment_def behind_def block_end_def start_it_def Let_def)

lemma for_tags_end: "for_tags body s \<lparr>occupied_ptr = None, occupied = o'\<rparr> acc = Some acc"
  by (subst for_tags.simps) (simp add: same_it_def end_it_def)

lemma for_tags_segs:
  "behind s p lo bs \<Longrightarrow> linked (tags s) (trusted s) p bs nullptr \<Longrightarrow> placed lo (allocator_end s) bs \<Longrightarrow>
   trusted s < lo \<Longrightarrow> allocator_end s < 2 ^ 64 \<Longrightarrow>
   for_tags body s (start_it p lo (allocator_end s) bs) acc = Some (fst (scan body (segs p lo (allocator_end s) bs) acc))"
proof (induction bs arbitrary: p lo acc)
  case Nil
  have hs: "next_free_block_size s p = Some (allocator_end s - lo)" using hole_size [OF Nil(1,3,5)] by simp
  show ?case
  proof (cases "lo = allocator_end s")
    case True
    then show ?thesis by (simp add: start_it_def for_tags_end)
  next
    case False
    then have "lo < allocator_end s" using Nil(3) by simp
    then show ?thesis
      using hs increment_hole [OF Nil(1)] for_tags_end [of body s]
      by (subst for_tags.simps) (auto simp: start_it_def same_it_def end_it_def size_of_def split: prod.split)
  qed
next
  case (Cons x bs)
  obtain a n where x: "x = (a, n)" by (cases x)
  let ?hi = "allocator_end s"
  have a: "lo \<le> a" "a + block_meta + n \<le> ?hi" using Cons.prems(3) x placed_in [of lo ?hi "x # bs" a n] by auto
  have tg: "tags s a = Some \<lparr>bsize = n, next_block = head_ptr bs, prev_block = Some p, tm_ptr = Some (trusted s)\<rparr>"
    using Cons.prems(2) x by (cases bs) auto
  have at: "a \<noteq> trusted s" using a Cons.prems(4) by simp
  have bh: "behind s a (a + block_meta + n) bs" using tg at by (simp add: behind_def)
  have IH: "for_tags body s (start_it a (a + block_meta + n) ?hi bs) acc' =
      Some (fst (scan body (segs a (a + block_meta + n) ?hi bs) acc'))" for acc'
    by (rule Cons.IH [OF bh]) (use Cons.prems x a in auto)
  have blk: "for_tags body s \<lparr>occupied_ptr = Some a, occupied = True\<rparr> acc' =
      Some (fst (scan body ((\<lparr>occupied_ptr = Some a, occupied = True\<rparr>, n + block_meta) # segs a (a + block_meta + n) ?hi bs) acc'))" for acc'
  proof -
    have "size_of s \<lparr>occupied_ptr = Some a, occupied = True\<rparr> = Some (n + block_meta)"
      using tg a Cons.prems(5) by (simp add: size_of_def)
    then show ?thesis
      using increment_block [OF bh at] IH
      by (subst for_tags.simps) (auto simp: same_it_def end_it_def split: prod.split)
  qed
  show ?case
  proof (cases "lo = a")
    case True
    then show ?thesis using blk x by (simp add: start_it_def)
  next
    case False
    have "next_free_block_size s p = Some (a - lo)" using hole_size [OF Cons.prems(1,3,5)] x by simp
    then have sz: "size_of s \<lparr>occupied_ptr = Some p, occupied = False\<rparr> = Some (a - lo)" by (simp add: size_of_def)
    have inc: "increment s \<lparr>occupied_ptr = Some p, occupied = False\<rparr> = Some \<lparr>occupied_ptr = Some a, occupied = True\<rparr>"
      using increment_hole [OF Cons.prems(1)] x by simp
    show ?thesis
      using False a(1) x sz inc blk
      by (subst for_tags.simps) (auto simp: start_it_def same_it_def end_it_def split: prod.split)
  qed
qed

lemma for_tags_rep:
  assumes "boundary_rep s bs"
  shows "for_tags body s (begin_it s) acc =
     Some (fst (scan body (segs (trusted s) (trusted s + alloc_meta) (allocator_end s) bs) acc))"
proof -
  have b: "behind s (trusted s) (trusted s + alloc_meta) bs" using assms by (simp add: boundary_rep_def behind_def)
  have "begin_it s = start_it (trusted s) (trusted s + alloc_meta) (allocator_end s) bs"
    using assms by (cases bs rule: head_ptr.cases)
      (auto simp: boundary_rep_def begin_it_def start_it_def allocator_end_def block_meta_def)
  then show ?thesis using for_tags_segs [OF b] assms by (simp add: boundary_rep_def alloc_meta_def)
qed

subsection \<open>The searches\<close>

definition chosen_hole :: "fit_mode \<Rightarrow> nat \<Rightarrow> (boundary_iterator \<times> nat) list \<Rightarrow> (boundary_iterator \<times> nat) option \<Rightarrow> bool" where
  "chosen_hole mode need xs r \<longleftrightarrow>
     (case mode of First_fit \<Rightarrow> r = List.find (hole_fits need) xs
      | The_best_fit \<Rightarrow> is_best (hole_fits need) snd xs r
      | The_worst_fit \<Rightarrow> is_worst (hole_fits need) snd xs r)"

lemma chosen_holeD:
  assumes "chosen_hole mode need xs r"
  shows "case r of None \<Rightarrow> \<forall>x \<in> set xs. \<not> hole_fits need x | Some x \<Rightarrow> x \<in> set xs \<and> hole_fits need x"
proof (cases mode)
  case First_fit
  then show ?thesis using assms
    by (cases r) (auto simp: chosen_hole_def find_None_iff eq_commute [of None] find_Some_iff eq_commute [of "Some _"])
qed (use assms in \<open>auto simp: chosen_hole_def is_best_def is_worst_def split: option.splits\<close>)

lemma find_hole_rep:
  assumes r: "boundary_rep s bs" and need: "0 < need"
  shows "\<exists>x. chosen_hole (fit s) need (segs (trusted s) (trusted s + alloc_meta) (allocator_end s) bs) x \<and>
     find_hole s need = Some (case x of None \<Rightarrow> nullptr | Some y \<Rightarrow> occupied_ptr (fst y))"
proof (cases "fit s")
  case First_fit
  then show ?thesis
    by (simp add: find_hole_def get_block_first_fit_def for_tags_rep [OF r] scan_first chosen_hole_def)
next
  case The_best_fit
  then show ?thesis
    using scan_best [of "hole_fits need" snd] by (auto simp: find_hole_def get_block_best_fit_def for_tags_rep [OF r] chosen_hole_def)
next
  case The_worst_fit
  have "scan (\<lambda>x r. (if hole_fits need x \<and> (case r of None \<Rightarrow> 0 | Some b \<Rightarrow> snd b) < snd x then Some x else r, False)) xs acc =
      scan (\<lambda>x r. (if hole_fits need x \<and> (case r of None \<Rightarrow> True | Some b \<Rightarrow> snd b < snd x) then Some x else r, False)) xs acc"
    for xs and acc :: "(boundary_iterator \<times> nat) option"
    using need by (intro scan_cong) (auto simp: hole_fits_def split: option.split)
  then show ?thesis
    using The_worst_fit scan_worst [of "hole_fits need" snd]
    by (auto simp: find_hole_def get_block_worst_fit_def for_tags_rep [OF r] chosen_hole_def)
qed

lemma seg_split:
  "(\<lparr>occupied_ptr = q, occupied = False\<rparr>, sz) \<in> set (segs p lo hi bs) \<Longrightarrow>
   \<exists>xs ys. bs = xs @ ys \<and> q = Some (fst (tail_of p lo xs)) \<and>
     snd (tail_of p lo xs) + sz = (case ys of [] \<Rightarrow> hi | (a, n) # _ \<Rightarrow> a)"
proof (induction p lo hi bs rule: segs.induct)
  case (1 p lo hi)
  then show ?case by (intro exI [of _ "[]"]) (auto split: if_splits)
next
  case (2 p lo hi a n bs)
  show ?case
  proof (cases "(\<lparr>occupied_ptr = q, occupied = False\<rparr>, sz) \<in> set (segs a (a + block_meta + n) hi bs)")
    case True
    then obtain xs ys where "bs = xs @ ys" "q = Some (fst (tail_of a (a + block_meta + n) xs))"
      "snd (tail_of a (a + block_meta + n) xs) + sz = (case ys of [] \<Rightarrow> hi | (a, n) # _ \<Rightarrow> a)" using 2(1) by blast
    then show ?thesis by (intro exI [of _ "(a, n) # xs"] exI [of _ ys]) simp
  next
    case False
    then show ?thesis using 2(2) by (intro exI [of _ "[]"] exI [of _ "(a, n) # bs"]) (auto split: if_splits)
  qed
qed

subsection \<open>Allocation\<close>

text \<open>Linking a new block between \<open>xs\<close> and \<open>ys\<close>.\<close>

lemma link_block:
  assumes l: "linked m t t (xs @ ys) nullptr" and p: "placed lo hi (xs @ ys)" "tail_of t lo xs = (q, e)" and t: "t < lo"
    and gap: "e + block_meta + n \<le> (case ys of [] \<Rightarrow> hi | (a, _) # _ \<Rightarrow> a)"
    and m1: "m1 = m(e \<mapsto> \<lparr>bsize = n, next_block = head_ptr ys, prev_block = Some q, tm_ptr = Some t\<rparr>)"
    and m2: "m2 = (case head_ptr ys of None \<Rightarrow> m1 | Some a \<Rightarrow> m1(a := map_option (\<lambda>b. b\<lparr>prev_block := Some e\<rparr>) (m1 a)))"
    and m3: "m3 = (if xs = [] then m2 else m2(q := map_option (\<lambda>b. b\<lparr>next_block := Some e\<rparr>) (m2 q)))"
  shows "linked m3 t t (xs @ (e, n) # ys) nullptr \<and> placed lo hi (xs @ (e, n) # ys)"
proof
  have pa: "placed lo e xs" "placed e hi ys" using p(1) placed_append [of lo hi xs ys t] p(2) by simp_all
  have pe: "placed (e + block_meta + n) hi ys" using pa(2) gap by (cases ys rule: head_ptr.cases) auto
  then show "placed lo hi (xs @ (e, n) # ys)"
    using placed_append [of lo hi xs "(e, n) # ys" t] pa p(2) by simp
  have lx: "linked m t t xs (head_ptr ys)" "linked m t q ys nullptr"
    using l linked_append [of m t t xs ys nullptr lo] p(2) by (cases ys; simp)+
  have inx: "a < e" if "a \<in> fst ` set xs" for a
    using that placed_in [OF pa(1)] by (force simp: block_meta_def)
  have iny: "e < a" if "a \<in> fst ` set ys" for a
    using that placed_in [OF pe] by (force simp: block_meta_def)
  have qe: "q < e" using p(2) t inx by (cases xs rule: rev_cases) auto
  have m3y: "m3 a = m a" if "e < a" "head_ptr ys \<noteq> Some a" for a
    using that qe by (auto simp: m3 m2 m1 split: option.split)
  have m3x: "m3 a = m a" if "a < e" "a \<noteq> q" for a
    using that iny [of a] by (cases ys rule: head_ptr.cases) (auto simp: m3 m2 m1)
  have "linked m3 t e ys nullptr"
  proof (cases ys rule: head_ptr.cases)
    case (2 a k ys')
    have "e < a" using iny 2 by simp
    moreover have "a \<notin> fst ` set ys'" using pe 2 placed_in [of "a + block_meta + k" hi ys'] by (force simp: block_meta_def)
    then have "linked m3 t a ys' nullptr = linked m t a ys' nullptr"
      using iny 2 by (intro linked_cong m3y) auto
    ultimately show ?thesis using lx(2) 2 qe by (simp add: m3 m2 m1)
  qed simp
  moreover have e3: "m3 e = Some \<lparr>bsize = n, next_block = head_ptr ys, prev_block = Some q, tm_ptr = Some t\<rparr>"
    using qe iny [of "the (head_ptr ys)"] by (cases ys rule: head_ptr.cases) (auto simp: m3 m2 m1)
  moreover have "linked m3 t t xs (Some e)"
  proof (cases xs rule: rev_cases)
    case (snoc xs' x)
    obtain a k where x: "x = (a, k)" by (cases x)
    have qa: "q = a" using p(2) snoc x by simp
    have "linked m t t xs' (Some a)" "m a = Some \<lparr>bsize = k, next_block = head_ptr ys, prev_block = Some (fst (tail_of t lo xs')), tm_ptr = Some t\<rparr>"
      using lx(1) linked_append [of m t t xs' "[(a, k)]" "head_ptr ys" lo] snoc x by simp_all
    moreover have lt: "b < a" if "b \<in> fst ` set xs'" for b
      using that pa(1) snoc x placed_append [of lo e xs' "[(a, k)]" t] placed_in [of lo "snd (tail_of t lo xs')" xs']
      by (force simp: block_meta_def)
    then have "linked m3 t t xs' (Some a) = linked m t t xs' (Some a)"
      using qa qe by (intro linked_cong m3x) fastforce+
    moreover have "m3 a = map_option (\<lambda>b. b\<lparr>next_block := Some e\<rparr>) (m a)"
      using snoc qa qe iny [of a] by (cases ys rule: head_ptr.cases) (auto simp: m3 m2 m1)
    ultimately show ?thesis using linked_append [of m3 t t xs' "[(a, k)]" "Some e" lo] snoc x by simp
  qed simp
  ultimately show "linked m3 t t (xs @ (e, n) # ys) nullptr"
    using linked_append [of m3 t t xs "(e, n) # ys" nullptr lo] p(2) by (cases ys) simp_all
qed

lemma write_tag_some: "tags s a \<noteq> None \<Longrightarrow>
   write_tag s a f = Some (s\<lparr>tags := (tags s)(a := map_option f (tags s a))\<rparr>)"
  by (auto simp: write_tag_def)

lemma head_ptr_Some: "head_ptr bs = Some a \<longleftrightarrow> (\<exists>n bs'. bs = (a, n) # bs')"
  by (cases bs rule: head_ptr.cases) auto

lemma last_block:
  assumes "boundary_rep s (xs @ ys)" "tail_of (trusted s) (trusted s + alloc_meta) xs = (q, e)"
  shows "behind s q e ys" "q = trusted s \<longleftrightarrow> xs = []" "trusted s < e"
proof -
  have r: "linked (tags s) (trusted s) (trusted s) (xs @ ys) nullptr" "first_block s = head_ptr (xs @ ys)"
    "placed (trusted s + alloc_meta) (allocator_end s) (xs @ ys)" using assms(1) by (simp_all add: boundary_rep_def)
  note p = placed_append [of "trusted s + alloc_meta" "allocator_end s" xs ys "trusted s", THEN iffD1, OF r(3)]
  have "behind s q e ys \<and> (q = trusted s \<longleftrightarrow> xs = []) \<and> trusted s < e"
  proof (cases xs rule: rev_cases)
    case Nil
    then show ?thesis using assms(2) r(2) by (auto simp: behind_def alloc_meta_def)
  next
    case (snoc xs' x)
    obtain a n where x: "x = (a, n)" by (cases x)
    have q: "q = a" "e = a + block_meta + n" using assms(2) snoc x by simp_all
    have "linked (tags s) (trusted s) (trusted s) (xs' @ (a, n) # ys) nullptr" using r(1) snoc x by simp
    then have "tags s a = Some \<lparr>bsize = n, next_block = head_ptr ys, prev_block = Some (fst (tail_of (trusted s) 0 xs')), tm_ptr = Some (trusted s)\<rparr>"
      using linked_append [of "tags s" "trusted s" "trusted s" xs' "(a, n) # ys" nullptr 0] by (cases ys) simp_all
    moreover have "trusted s + alloc_meta \<le> a" using placed_in [of _ _ xs a n] p snoc x by auto
    ultimately show ?thesis using q snoc by (auto simp: behind_def alloc_meta_def)
  qed
  then show "behind s q e ys" "q = trusted s \<longleftrightarrow> xs = []" "trusted s < e" by blast+
qed

lemma boundary_allocate_spec:
  assumes r: "boundary_rep s bs" and n: "n < 2 ^ 63"
  defines "xs \<equiv> segs (trusted s) (trusted s + alloc_meta) (allocator_end s) bs"
  shows "(do_allocate_sm s n = Some (Inl Bad_alloc) \<and> (\<forall>x \<in> set xs. \<not> hole_fits (n + block_meta) x)) \<or>
    (\<exists>s' bs1 bs2 q e m x. bs = bs1 @ bs2 \<and> tail_of (trusted s) (trusted s + alloc_meta) bs1 = (q, e) \<and>
       chosen_hole (fit s) (n + block_meta) xs (Some x) \<and> x = (\<lparr>occupied_ptr = Some q, occupied = False\<rparr>, snd x) \<and>
       do_allocate_sm s n = Some (Inr (s', e + block_meta)) \<and> n \<le> m \<and> m < n + block_meta \<and>
       boundary_rep s' (bs1 @ (e, m) # bs2) \<and> trusted s' = trusted s \<and> fit s' = fit s \<and> mem_size s' = mem_size s)"
proof -
  define need where "need = n + block_meta"
  have need: "size_add n block_meta = need" "size_add need block_meta = need + block_meta" "0 < need"
    using n by (simp_all add: need_def block_meta_def)
  obtain r0 where r0: "chosen_hole (fit s) need xs r0"
     "find_hole s need = Some (case r0 of None \<Rightarrow> nullptr | Some y \<Rightarrow> occupied_ptr (fst y))"
    using find_hole_rep [OF r need(3)] unfolding xs_def by blast
  note D = chosen_holeD [OF r0(1)]
  show ?thesis
  proof (cases r0)
    case None
    then show ?thesis using r0(2) need(1) D by (simp add: do_allocate_sm_def Let_def need_def)
  next
    case (Some x)
    obtain it sz where x: "x = (it, sz)" by (cases x)
    have hf: "x \<in> set xs" "\<not> occupied it" "need \<le> sz" using D Some x by (auto simp: hole_fits_def)
    then have it: "it = \<lparr>occupied_ptr = occupied_ptr it, occupied = False\<rparr>" by (cases it) simp
    obtain bs1 bs2 where b: "bs = bs1 @ bs2" "occupied_ptr it = Some (fst (tail_of (trusted s) (trusted s + alloc_meta) bs1))"
      "snd (tail_of (trusted s) (trusted s + alloc_meta) bs1) + sz = (case bs2 of [] \<Rightarrow> allocator_end s | (a, n) # _ \<Rightarrow> a)"
      using seg_split hf(1) x it unfolding xs_def by metis
    obtain q e where qe: "tail_of (trusted s) (trusted s + alloc_meta) bs1 = (q, e)" by (cases "tail_of (trusted s) (trusted s + alloc_meta) bs1")
    note lb = last_block [OF r [unfolded b(1)] qe]
    have pl: "placed (trusted s + alloc_meta) (allocator_end s) (bs1 @ bs2)" "allocator_end s < 2 ^ 64"
      "linked (tags s) (trusted s) (trusted s) (bs1 @ bs2) nullptr" "first_block s = head_ptr (bs1 @ bs2)" "block_meta \<le> mem_size s"
      using r b(1) by (simp_all add: boundary_rep_def)
    have p2: "placed e (allocator_end s) bs2" using placed_append [of _ _ bs1 bs2 "trusted s", THEN iffD1, OF pl(1)] qe by simp
    have fs: "next_free_block_size s q = Some sz" using hole_size [OF lb(1) p2 pl(2)] b(3) qe by (cases bs2) auto
    define total where "total = (if sz < need + block_meta then sz else need)"
    have tot: "need \<le> total" "total \<le> sz" "total < need + block_meta" using hf(3) by (auto simp: total_def block_meta_def)
    have e64: "e + sz < 2 ^ 64"
      using b(3) qe pl(2) placed_in [OF p2] by (cases bs2 rule: head_ptr.cases) (auto simp: block_meta_def, fastforce)
    define m where "m = total - block_meta"
    have m: "size_sub total block_meta = m" "n \<le> m" "m < n + block_meta" "block_meta + m = total"
      using tot e64 by (auto simp: m_def need_def)
    define t1 where "t1 = (tags s)(e \<mapsto> \<lparr>bsize = m, next_block = head_ptr bs2, prev_block = Some q, tm_ptr = Some (trusted s)\<rparr>)"
    define t2 where "t2 = (case head_ptr bs2 of None \<Rightarrow> t1 | Some a \<Rightarrow> t1(a := map_option (\<lambda>b. b\<lparr>prev_block := Some e\<rparr>) (t1 a)))"
    define t3 where "t3 = (if bs1 = [] then t2 else t2(q := map_option (\<lambda>b. b\<lparr>next_block := Some e\<rparr>) (t2 q)))"
    have gap: "e + block_meta + m \<le> (case bs2 of [] \<Rightarrow> allocator_end s | (a, _) # _ \<Rightarrow> a)"
      using b(3) qe tot(2) m(4) by (cases bs2) auto
    note lk = link_block [OF pl(3,1) qe _ gap t1_def t2_def t3_def]
    define s' where "s' = s\<lparr>tags := t3, first_block := (if bs1 = [] then Some e else first_block s)\<rparr>"
    have nx: "t1 a \<noteq> None" if "head_ptr bs2 = Some a" for a
    proof -
      obtain k bs' where "bs2 = (a, k) # bs'" using \<open>head_ptr bs2 = Some a\<close> by (auto simp: head_ptr_Some)
      then have "tags s a \<noteq> None" using linked_append [of "tags s" _ _ bs1 bs2 nullptr 0, THEN iffD1, OF pl(3)] by auto
      then show ?thesis by (simp add: t1_def)
    qed
    have qx: "t2 q \<noteq> None" if "bs1 \<noteq> []"
    proof -
      have "tags s q \<noteq> None" using lb(1,2) that by (auto simp: behind_def)
      then show ?thesis by (auto simp: t2_def t1_def split: option.split)
    qed
    have fe: "(if q = trusted s then Some (trusted s + alloc_meta) else block_end s q) = Some e"
      using lb(1) by (auto simp: behind_def block_end_def)
    have nb: "(if q = trusted s then Some (first_block s) else do { b \<leftarrow> tags s q; Some (next_block b) }) = Some (head_ptr bs2)"
      using lb(1) by (auto simp: behind_def)
    have "do_allocate_sm s n = Some (Inr (s', e + block_meta))"
    proof -
      have w2: "(case head_ptr bs2 of None \<Rightarrow> Some (s\<lparr>tags := t1\<rparr>) | Some q \<Rightarrow> write_tag (s\<lparr>tags := t1\<rparr>) q (\<lambda>b. b\<lparr>prev_block := Some e\<rparr>)) =
          Some (s\<lparr>tags := t2\<rparr>)"
        using nx by (auto simp: write_tag_some t2_def split: option.split)
      have w3: "(if q = trusted s then Some (s\<lparr>tags := t2, first_block := Some e\<rparr>)
          else write_tag (s\<lparr>tags := t2\<rparr>) q (\<lambda>b. b\<lparr>next_block := Some e\<rparr>)) = Some s'"
        using qx lb(2) by (auto simp: write_tag_some t3_def s'_def)
      have ff: "find_hole s need = Some (Some q)" using r0(2) Some x b(2) qe by simp
      have tt: "(if sz < size_add need block_meta then sz else need) = total" by (simp only: total_def need(2))
      show ?thesis
        unfolding do_allocate_sm_def Let_def need(1) ff
        using fs fe nb w2 w3
        by (cases "head_ptr bs2"; cases "q = trusted s") (simp_all add: tt m(1) t1_def split del: if_split)
    qed
    moreover have "boundary_rep s' (bs1 @ (e, m) # bs2)"
      using lk lb(3) pl qe r by (auto simp: boundary_rep_def s'_def allocator_end_def head_ptr_append alloc_meta_def)
    moreover have "x = (\<lparr>occupied_ptr = Some q, occupied = False\<rparr>, snd x)" using x it b(2) qe by simp
    ultimately show ?thesis
      using b(1) qe r0(1) Some m(2,3)
      by (intro disjI2 exI [of _ s'] exI [of _ bs1] exI [of _ bs2] exI [of _ q] exI [of _ e] exI [of _ m] exI [of _ x])
        (simp add: need_def s'_def)
  qed
qed

subsection \<open>Deallocation\<close>

lemma unlink_block:
  assumes l: "linked m t t (xs @ (a, n) # ys) nullptr" and p: "placed lo hi (xs @ (a, n) # ys)" "tail_of t lo xs = (q, e)" and t: "t < lo"
    and m1: "m1 = (if xs = [] then m else m(q := map_option (\<lambda>b. b\<lparr>next_block := head_ptr ys\<rparr>) (m q)))"
    and m2: "m2 = (case head_ptr ys of None \<Rightarrow> m1 | Some c \<Rightarrow> m1(c := map_option (\<lambda>b. b\<lparr>prev_block := Some q\<rparr>) (m1 c)))"
  shows "linked m2 t t (xs @ ys) nullptr \<and> placed lo hi (xs @ ys)"
proof
  have pa: "placed lo e xs" "placed e hi ((a, n) # ys)" using p(1) placed_append [of lo hi xs "(a, n) # ys" t] p(2) by simp_all
  have pe: "placed (a + block_meta + n) hi ys" "e \<le> a" using pa(2) by simp_all
  have py: "placed e hi ys" using pe by (cases ys rule: head_ptr.cases) auto
  then show "placed lo hi (xs @ ys)" using placed_append [of lo hi xs ys t] pa p(2) by simp
  have lx: "linked m t t xs (Some a)" "linked m t a ys nullptr"
    using l linked_append [of m t t xs "(a, n) # ys" nullptr lo] p(2) by (cases ys; simp)+
  have inx: "c < e" if "c \<in> fst ` set xs" for c
    using that placed_in [OF pa(1)] by (force simp: block_meta_def)
  have iny: "a < c" if "c \<in> fst ` set ys" for c
    using that placed_in [OF pe(1)] by (force simp: block_meta_def)
  have qe: "q < e" using p(2) t inx by (cases xs rule: rev_cases) auto
  have m2y: "m2 c = m c" if "a < c" "head_ptr ys \<noteq> Some c" for c
    using that qe pe by (auto simp: m2 m1 split: option.split)
  have m2x: "m2 c = m c" if "c < e" "c \<noteq> q" for c
    using that iny [of c] pe by (cases ys rule: head_ptr.cases) (auto simp: m2 m1)
  have "linked m2 t q ys nullptr"
  proof (cases ys rule: head_ptr.cases)
    case (2 c k ys')
    have "a < c" using iny 2 by simp
    moreover have "c \<notin> fst ` set ys'" using pe 2 placed_in [of "c + block_meta + k" hi ys'] by (force simp: block_meta_def)
    then have "linked m2 t c ys' nullptr = linked m t c ys' nullptr"
      using iny 2 by (intro linked_cong m2y) auto
    ultimately show ?thesis using lx(2) 2 qe pe by (simp add: m2 m1)
  qed simp
  moreover have "linked m2 t t xs (head_ptr ys)"
  proof (cases xs rule: rev_cases)
    case (snoc xs' x)
    obtain c k where x: "x = (c, k)" by (cases x)
    have qc: "q = c" using p(2) snoc x by simp
    have "linked m t t xs' (Some c)" "m c = Some \<lparr>bsize = k, next_block = Some a, prev_block = Some (fst (tail_of t lo xs')), tm_ptr = Some t\<rparr>"
      using lx(1) linked_append [of m t t xs' "[(c, k)]" "Some a" lo] snoc x by simp_all
    moreover have lt: "b < c" if "b \<in> fst ` set xs'" for b
      using that pa(1) snoc x placed_append [of lo e xs' "[(c, k)]" t] placed_in [of lo "snd (tail_of t lo xs')" xs']
      by (force simp: block_meta_def)
    then have "linked m2 t t xs' (Some c) = linked m t t xs' (Some c)"
      using qc qe by (intro linked_cong m2x) fastforce+
    moreover have "m2 c = map_option (\<lambda>b. b\<lparr>next_block := head_ptr ys\<rparr>) (m c)"
      using snoc qc qe pe iny [of c] by (cases ys rule: head_ptr.cases) (auto simp: m2 m1)
    ultimately show ?thesis using linked_append [of m2 t t xs' "[(c, k)]" "head_ptr ys" lo] snoc x by simp
  qed simp
  ultimately show "linked m2 t t (xs @ ys) nullptr"
    using linked_append [of m2 t t xs ys nullptr lo] p(2) by (cases ys) simp_all
qed

lemma boundary_deallocate_spec:
  assumes r: "boundary_rep s (xs @ (a, n) # ys)"
  shows "\<exists>s'. do_deallocate_sm s (a + block_meta) = Some (Inr s') \<and> boundary_rep s' (xs @ ys) \<and>
    trusted s' = trusted s \<and> mem_size s' = mem_size s"
proof -
  let ?lo = "trusted s + alloc_meta" and ?t = "trusted s"
  have R: "linked (tags s) ?t ?t (xs @ (a, n) # ys) nullptr" "first_block s = head_ptr (xs @ (a, n) # ys)"
    "placed ?lo (allocator_end s) (xs @ (a, n) # ys)" "?t < ?lo" using r by (simp_all add: boundary_rep_def alloc_meta_def)
  obtain q e where qe: "tail_of ?t ?lo xs = (q, e)" by (cases "tail_of ?t ?lo xs")
  note lb = last_block [OF r qe]
  define m1 where "m1 = (if xs = [] then tags s else (tags s)(q := map_option (\<lambda>b. b\<lparr>next_block := head_ptr ys\<rparr>) (tags s q)))"
  define m2 where "m2 = (case head_ptr ys of None \<Rightarrow> m1 | Some c \<Rightarrow> m1(c := map_option (\<lambda>b. b\<lparr>prev_block := Some q\<rparr>) (m1 c)))"
  note ul = unlink_block [OF R(1,3) qe R(4) m1_def m2_def]
  define s' where "s' = s\<lparr>tags := m2, first_block := (if xs = [] then head_ptr ys else first_block s)\<rparr>"
  have ta: "tags s a = Some \<lparr>bsize = n, next_block = head_ptr ys, prev_block = Some q, tm_ptr = Some ?t\<rparr>"
    using linked_append [of "tags s" ?t ?t xs "(a, n) # ys" nullptr ?lo] R(1) qe by (cases ys) simp_all
  have qa: "q < a"
  proof -
    have "placed ?lo e xs" "e \<le> a" using placed_append [of ?lo "allocator_end s" xs "(a, n) # ys" ?t] R(3) qe by simp_all
    then show ?thesis using qe R(4) placed_in [of ?lo e xs] by (cases xs rule: rev_cases) (force simp: block_meta_def)+
  qed
  have qx: "tags s q \<noteq> None" if "xs \<noteq> []" using lb(1,2) that by (auto simp: behind_def)
  have yx: "m1 c \<noteq> None" if "head_ptr ys = Some c" for c
  proof -
    obtain k ys' where "ys = (c, k) # ys'" using \<open>head_ptr ys = Some c\<close> by (auto simp: head_ptr_Some)
    then have "tags s c \<noteq> None" using linked_append [of "tags s" ?t ?t xs "(a, n) # ys" nullptr 0] R(1) by auto
    then show ?thesis using qx by (simp add: m1_def)
  qed
  define s1 where "s1 = s\<lparr>tags := m1, first_block := (if xs = [] then head_ptr ys else first_block s)\<rparr>"
  have w1: "(if Some q = Some ?t then Some (s\<lparr>first_block := head_ptr ys\<rparr>)
      else write_tag s q (\<lambda>c. c\<lparr>next_block := head_ptr ys\<rparr>)) = Some s1"
    using lb(2) qx by (auto simp: s1_def m1_def write_tag_some)
  have t1: "tags s1 a = tags s a" using qa by (simp add: s1_def m1_def)
  have w2: "(case head_ptr ys of None \<Rightarrow> Some s1 | Some c \<Rightarrow> write_tag s1 c (\<lambda>c. c\<lparr>prev_block := Some q\<rparr>)) = Some s'"
    using yx by (auto simp: s1_def s'_def m2_def write_tag_some split: option.split)
  have "do_deallocate_sm s (a + block_meta) = Some (Inr s')"
    using ta t1 w1 w2
    by (cases "head_ptr ys"; cases "q = trusted s") (simp_all add: do_deallocate_sm_def Let_def split del: if_split)
  moreover have "boundary_rep s' (xs @ ys)"
    using ul r qe by (auto simp: boundary_rep_def s'_def allocator_end_def head_ptr_append)
  moreover have "trusted s' = trusted s" "mem_size s' = mem_size s" by (simp_all add: s'_def)
  ultimately show ?thesis by blast
qed

subsection \<open>Properties\<close>


text \<open>Deallocating an occupied block takes exactly this block out of the list, whatever its neighbours, and
  the memory stays consistent.\<close>
theorem boundary_deallocate:
  assumes "boundary_rep s (xs @ (a, n) # ys)"
  shows "\<exists>s'. do_deallocate_sm s (a + block_meta) = Some (Inr s') \<and> boundary_rep s' (xs @ ys)"
  using boundary_deallocate_spec [OF assms] by blast

text \<open>Iterating over a consistent memory lists its blocks and holes in the order of their addresses, with
  their sizes, each once, and ends.\<close>
theorem boundary_lists_segments:
  assumes "boundary_rep s bs"
  shows "get_blocks_info_inner s = Some (map (\<lambda>(it, sz). \<lparr>block_size = sz, is_block_occupied = occupied it\<rparr>)
     (segs (trusted s) (trusted s + alloc_meta) (allocator_end s) bs))"
proof -
  have "fst (scan (\<lambda>(it, sz) infos. (infos @ [\<lparr>block_size = sz, is_block_occupied = occupied it\<rparr>], False)) xs acc) =
      acc @ map (\<lambda>(it, sz). \<lparr>block_size = sz, is_block_occupied = occupied it\<rparr>) xs"
    for xs :: "(boundary_iterator \<times> nat) list" and acc
    by (induction xs arbitrary: acc) (auto split: prod.splits)
  then show ?thesis by (simp add: get_blocks_info_inner_def for_tags_rep [OF assms])
qed

text \<open>A memory of 200 bytes with one block of 40 bytes behind a hole of 60 bytes.\<close>

definition memory200 :: boundary where
  "memory200 = \<lparr>tags = [140 \<mapsto> \<lparr>bsize = 40, next_block = nullptr, prev_block = Some 0, tm_ptr = Some 0\<rparr>],
     trusted = 0, fit = The_best_fit, mem_size = 200, first_block = Some 140\<rparr>"

lemma memory200_rep: "boundary_rep memory200 [(140, 40)]"
  by (simp add: memory200_def boundary_rep_def allocator_end_def alloc_meta_def block_meta_def)


theorem boundary_deallocate_witness:
  "\<exists>s'. do_deallocate_sm memory200 172 = Some (Inr s') \<and> boundary_rep s' []"
  using boundary_deallocate [of memory200 "[]" 140 40 "[]"] memory200_rep by (simp add: block_meta_def)

theorem boundary_lists_segments_witness:
  "get_blocks_info_inner memory200 = Some [\<lparr>block_size = 60, is_block_occupied = False\<rparr>,
     \<lparr>block_size = 72, is_block_occupied = True\<rparr>, \<lparr>block_size = 68, is_block_occupied = False\<rparr>]"
  using boundary_lists_segments [OF memory200_rep]
  by (simp add: memory200_def allocator_end_def alloc_meta_def block_meta_def)

subsection \<open>The interface of a memory resource\<close>

definition boundary_payloads :: "boundary \<Rightarrow> (nat \<times> nat) list \<Rightarrow> (nat \<times> nat) set" where
  "boundary_payloads s bs = (\<lambda>(a, n). (a + block_meta, n)) ` set bs"

lemma placed_apart:
  "placed lo hi bs \<Longrightarrow> (a, n) \<in> set bs \<Longrightarrow> (b, m) \<in> set bs \<Longrightarrow> (a, n) \<noteq> (b, m) \<Longrightarrow>
     a + block_meta + n \<le> b \<or> b + block_meta + m \<le> a"
  by (induction lo hi bs rule: placed.induct) (auto dest: placed_in)

lemma placed_distinct: "placed lo hi bs \<Longrightarrow> distinct (map fst bs)"
  by (induction lo hi bs rule: placed.induct) (fastforce dest: placed_in simp: block_meta_def)+

lemma boundary_distinct: "boundary_rep s bs \<Longrightarrow> distinct (map fst bs)"
  unfolding boundary_rep_def by (blast intro: placed_distinct)

interpretation tag_list: memory_resource "\<lambda>s bs. boundary_rep s bs \<and> trusted s = address \<and> mem_size s = bytes"
    do_allocate_sm do_deallocate_sm boundary_payloads "\<lambda>n. n < 2 ^ 63" for address bytes
proof
  fix s bs x y
  assume "boundary_rep s bs \<and> trusted s = address \<and> mem_size s = bytes"
    and m: "x \<in> boundary_payloads s bs" "y \<in> boundary_payloads s bs" "x \<noteq> y"
  then have "placed (trusted s + alloc_meta) (allocator_end s) bs" by (auto simp: boundary_rep_def)
  then show "apart x y \<and> fst x \<noteq> fst y"
    using placed_apart [of _ _ bs] m by (fastforce simp: boundary_payloads_def apart_def block_meta_def)
next
  fix s bs and n :: nat
  assume r: "boundary_rep s bs \<and> trusted s = address \<and> mem_size s = bytes" "n < 2 ^ 63"
  from boundary_allocate_spec [of s bs n] r consider "do_allocate_sm s n = Some (Inl Bad_alloc)"
    | s' bs1 bs2 e m where "bs = bs1 @ bs2" "n \<le> m" "do_allocate_sm s n = Some (Inr (s', e + block_meta))"
       "boundary_rep s' (bs1 @ (e, m) # bs2)" "trusted s' = trusted s" "mem_size s' = mem_size s"
    by metis
  then show "do_allocate_sm s n = Some (Inl Bad_alloc) \<or>
      (\<exists>s' p b' m. do_allocate_sm s n = Some (Inr (s', p)) \<and>
        (boundary_rep s' b' \<and> trusted s' = address \<and> mem_size s' = bytes) \<and> n \<le> m \<and>
        (p, m) \<notin> boundary_payloads s bs \<and> boundary_payloads s' b' = insert (p, m) (boundary_payloads s bs))"
  proof cases
    case 2
    have "distinct (map fst (bs1 @ (e, m) # bs2))" by (rule boundary_distinct [OF 2(4)])
    then have "(e, m) \<notin> set bs" using 2(1) by (force simp: rev_image_eqI)
    then have "(e + block_meta, m) \<notin> boundary_payloads s bs" by (auto simp: boundary_payloads_def)
    moreover have "boundary_payloads s' (bs1 @ (e, m) # bs2) = insert (e + block_meta, m) (boundary_payloads s bs)"
      using 2(1) by (auto simp: boundary_payloads_def)
    ultimately show ?thesis using 2(2-6) r(1) by blast
  qed blast
next
  fix s bs p m
  assume r: "boundary_rep s bs \<and> trusted s = address \<and> mem_size s = bytes" "(p, m) \<in> boundary_payloads s bs"
  then obtain a where a: "p = a + block_meta" "(a, m) \<in> set bs" by (auto simp: boundary_payloads_def)
  then obtain xs ys where b: "bs = xs @ (a, m) # ys" by (auto dest: split_list)
  have "distinct (map fst bs)" using boundary_distinct r(1) by blast
  then have "(a, m) \<notin> set (xs @ ys)" using b by (force simp: rev_image_eqI)
  then have "boundary_payloads s' (xs @ ys) = boundary_payloads s bs - {(p, m)}" for s'
    using a(1) b by (auto simp: boundary_payloads_def)
  moreover obtain s' where "do_deallocate_sm s p = Some (Inr s')" "boundary_rep s' (xs @ ys)" "trusted s' = trusted s" "mem_size s' = mem_size s"
    using boundary_deallocate_spec [of s xs a m ys] r(1) a(1) b by auto
  ultimately show "\<exists>s' b'. do_deallocate_sm s p = Some (Inr s') \<and>
      (boundary_rep s' b' \<and> trusted s' = address \<and> mem_size s' = bytes) \<and>
      boundary_payloads s' b' = boundary_payloads s bs - {(p, m)}"
    using r(1) by auto
qed



end
