(* ===== verification/SortedList.thy ===== *)
theory SortedList
  imports AllocCommon
begin

text \<open>
  The allocator with a list of free blocks sorted by address
  (allocator/allocator_sorted_list/src/allocator_sorted_list.cpp). The memory is tiled by blocks; a block
  begins with its size (8 bytes) and a pointer (8 bytes), which in a free block leads to the next free
  block and in an occupied block is the address of the memory itself. The two words of a header are two
  partial maps from the header's address. \<open>sorted_rep\<close> relates the memory to the list of its blocks;
  the lemmas show that allocation, deallocation with its merging, and the iterators act on this list.
\<close>

type_synonym ptr = "nat option"

abbreviation nullptr :: ptr where "nullptr \<equiv> None"

text \<open>\<open>has_logger\<close> tells whether a logger was passed to the constructor.\<close>

record sorted =
  sizes :: "nat \<rightharpoonup> nat"
  nexts :: "nat \<rightharpoonup> ptr"
  trusted :: nat
  fit :: fit_mode
  space_size :: nat
  first_free :: ptr
  has_logger :: bool

definition allocator_meta :: nat where "allocator_meta = 76"
definition block_meta :: nat where "block_meta = 16"

definition get_next_ptr :: "sorted \<Rightarrow> ptr \<Rightarrow> ptr option" where
  "get_next_ptr s p = (case p of None \<Rightarrow> Some nullptr | Some a \<Rightarrow> nexts s a)"

definition set_next_ptr :: "sorted \<Rightarrow> nat \<Rightarrow> ptr \<Rightarrow> sorted" where
  "set_next_ptr s a p = s\<lparr>nexts := (nexts s)(a \<mapsto> p)\<rparr>"

definition set_size :: "sorted \<Rightarrow> nat \<Rightarrow> nat \<Rightarrow> sorted" where
  "set_size s a n = s\<lparr>sizes := (sizes s)(a \<mapsto> n)\<rparr>"

text \<open>The constructor; \<open>address\<close> is what the parent allocator returns.\<close>

definition construct :: "nat \<Rightarrow> nat \<Rightarrow> bool \<Rightarrow> fit_mode \<Rightarrow> sorted" where
  "construct address n logging mode =
     (let first = address + allocator_meta;
          s = \<lparr>sizes = Map.empty, nexts = Map.empty, trusted = address, fit = mode, space_size = n,
               first_free = Some first, has_logger = logging\<rparr>
      in set_next_ptr (set_size s first n) first nullptr)"

definition set_fit_mode :: "sorted \<Rightarrow> fit_mode \<Rightarrow> sorted" where
  "set_fit_mode s mode = s\<lparr>fit := mode\<rparr>"

subsection \<open>The iterators\<close>

text \<open>The loop over the free blocks; the body sees the previous free block, the block and its size.\<close>

partial_function (option) for_free ::
  "(ptr \<times> nat \<times> nat \<Rightarrow> 'a \<Rightarrow> 'a \<times> bool) \<Rightarrow> sorted \<Rightarrow> ptr \<Rightarrow> ptr \<Rightarrow> 'a \<Rightarrow> 'a option" where
  "for_free body s prev it acc =
     (case it of
        None \<Rightarrow> Some acc
      | Some a \<Rightarrow> do {
          sz \<leftarrow> sizes s a;
          (case body (prev, a, sz) acc of (acc, stop) \<Rightarrow>
             if stop then Some acc
             else do { nx \<leftarrow> get_next_ptr s it; for_free body s it nx acc })
        })"

definition get_free_memory_count :: "sorted \<Rightarrow> nat option" where
  "get_free_memory_count s = for_free (\<lambda>(_, _, sz) res. (size_add res sz, False)) s nullptr (first_free s) 0"

record sorted_iterator =
  free_ptr :: ptr
  current_ptr :: ptr

definition begin_it :: "sorted \<Rightarrow> sorted_iterator" where
  "begin_it s = \<lparr>free_ptr = first_free s, current_ptr = Some (trusted s + allocator_meta)\<rparr>"

definition occupied :: "sorted_iterator \<Rightarrow> bool" where
  "occupied it \<longleftrightarrow> current_ptr it \<noteq> free_ptr it"

definition size_of :: "sorted \<Rightarrow> sorted_iterator \<Rightarrow> nat option" where
  "size_of s it = do { c \<leftarrow> current_ptr it; sizes s c }"

definition increment :: "sorted \<Rightarrow> sorted_iterator \<Rightarrow> sorted_iterator option" where
  "increment s it = do {
     f \<leftarrow> (if current_ptr it = free_ptr it then get_next_ptr s (free_ptr it) else Some (free_ptr it));
     c \<leftarrow> current_ptr it;
     sz \<leftarrow> size_of s it;
     let new_ptr = c + block_meta + sz;
     Some \<lparr>free_ptr = f,
           current_ptr = (if trusted s + space_size s + allocator_meta \<le> new_ptr then nullptr else Some new_ptr)\<rparr>
   }"

text \<open>\<open>for (auto it = begin(); it != end(); ++it)\<close>; the body sees the block, its size and whether it is occupied.\<close>

partial_function (option) for_blocks ::
  "(nat \<times> nat \<times> bool \<Rightarrow> 'a \<Rightarrow> 'a \<times> bool) \<Rightarrow> sorted \<Rightarrow> sorted_iterator \<Rightarrow> 'a \<Rightarrow> 'a option" where
  "for_blocks body s it acc =
     (case current_ptr it of
        None \<Rightarrow> Some acc
      | Some c \<Rightarrow> do {
          sz \<leftarrow> size_of s it;
          (case body (c, sz, occupied it) acc of (acc, stop) \<Rightarrow>
             if stop then Some acc
             else do { it \<leftarrow> increment s it; for_blocks body s it acc })
        })"

definition get_blocks_info_inner :: "sorted \<Rightarrow> block_info list option" where
  "get_blocks_info_inner s =
     for_blocks (\<lambda>(_, sz, occ) info. (info @ [\<lparr>block_size = sz, is_block_occupied = occ\<rparr>], False)) s (begin_it s) []"

subsection \<open>Allocation\<close>

text \<open>The body of the search: \<open>prev_free_block\<close>, \<open>result_block\<close> and \<open>best_size\<close>.\<close>

fun search_step :: "fit_mode \<Rightarrow> nat \<Rightarrow> ptr \<times> nat \<times> nat \<Rightarrow> ptr \<times> ptr \<times> nat \<Rightarrow> (ptr \<times> ptr \<times> nat) \<times> bool" where
  "search_step mode need (prev, a, sz) (p, r, best) =
     (if need \<le> sz then
        (if mode = First_fit then ((prev, Some a, sz), True)
         else if mode = The_best_fit \<and> (r = nullptr \<or> sz < best) then ((prev, Some a, sz), False)
         else if mode = The_worst_fit \<and> (r = nullptr \<or> best < sz) then ((prev, Some a, sz), False)
         else ((p, r, best), False))
      else ((p, r, best), False))"

definition do_allocate_sm :: "sorted \<Rightarrow> nat \<Rightarrow> (alloc_error + sorted \<times> nat) option" where
  "do_allocate_sm s n = do {
     (prev, result, best_size) \<leftarrow>
       for_free (search_step (fit s) (size_add n block_meta)) s nullptr (first_free s) (nullptr, nullptr, 0);
     (case result of
        None \<Rightarrow> Some (Inl Bad_alloc)
      | Some result \<Rightarrow> do {
          let remaining = size_sub best_size n;
          next \<leftarrow> get_next_ptr s (Some result);
          let split = (block_meta + 1 \<le> remaining);
          let new_block = result + block_meta + n;
          let s = (if split
                   then set_size (set_next_ptr (set_size s new_block (size_sub remaining block_meta)) new_block next) result n
                   else s);
          next' \<leftarrow> (if split then Some (Some new_block) else get_next_ptr s (Some result));
          let s = (case prev of None \<Rightarrow> s | Some p \<Rightarrow> set_next_ptr s p next');
          next'' \<leftarrow> (if split then Some (Some new_block) else get_next_ptr s (Some result));
          let s = (if first_free s = Some result then s\<lparr>first_free := next''\<rparr> else s);
          Some (Inr (set_next_ptr s result (Some (trusted s)), result + block_meta))
        })
   }"

subsection \<open>Deallocation\<close>

definition try_merge :: "sorted \<Rightarrow> ptr \<Rightarrow> ptr \<Rightarrow> (sorted \<times> bool) option" where
  "try_merge s left_block right_block =
     (case (left_block, right_block) of
        (Some l, Some r) \<Rightarrow> do {
          l_size \<leftarrow> sizes s l;
          r_size \<leftarrow> sizes s r;
          (if l + block_meta + l_size = r then do {
             let s = set_size s l (size_add (size_add l_size r_size) block_meta);
             nx \<leftarrow> get_next_ptr s right_block;
             Some (set_next_ptr s l nx, True)
           } else Some (s, False))
        }
      | _ \<Rightarrow> Some (s, False))"

definition do_deallocate_sm :: "sorted \<Rightarrow> nat \<Rightarrow> (alloc_error + sorted) option" where
  "do_deallocate_sm s at_ptr = do {
     let block = at_ptr - block_meta;
     mark \<leftarrow> get_next_ptr s (Some block);
     (if mark \<noteq> Some (trusted s) \<and> has_logger s then Some (Inl Bad_alloc)
      else do {
        prev \<leftarrow> for_blocks (\<lambda>(c, _, occ) prev. if c = block then (prev, True) else (if \<not> occ then Some c else prev, False))
          s (begin_it s) nullptr;
        next \<leftarrow> (if prev \<noteq> nullptr then get_next_ptr s prev else Some (first_free s));
        let s = (case prev of None \<Rightarrow> s | Some p \<Rightarrow> set_next_ptr s p (Some block));
        let s = set_next_ptr s block next;
        (s, merged) \<leftarrow> try_merge s prev (Some block);
        (s, _) \<leftarrow> (if merged then try_merge s prev next else try_merge s (Some block) next);
        let s = (case first_free s of
                   None \<Rightarrow> s\<lparr>first_free := Some block\<rparr>
                 | Some f \<Rightarrow> if prev = nullptr \<and> block < f then s\<lparr>first_free := Some block\<rparr> else s);
        Some (Inr s)
      })
   }"

subsection \<open>The memory as a list of blocks\<close>

text \<open>A block is its size and whether it is occupied; the memory is tiled without holes, so the sizes give the
  addresses. \<open>free_of a bs q\<close> is the first free block of \<open>bs\<close>, laid out from \<open>a\<close>, or \<open>q\<close>.\<close>

type_synonym block = "nat \<times> bool"

fun span :: "block list \<Rightarrow> nat" where
  "span [] = 0"
| "span ((n, _) # bs) = block_meta + n + span bs"

fun free_of :: "nat \<Rightarrow> block list \<Rightarrow> ptr \<Rightarrow> ptr" where
  "free_of a [] q = q"
| "free_of a ((n, occ) # bs) q = (if occ then free_of (a + block_meta + n) bs q else Some a)"

fun last_free :: "ptr \<Rightarrow> nat \<Rightarrow> block list \<Rightarrow> ptr" where
  "last_free p a [] = p"
| "last_free p a ((n, occ) # bs) = last_free (if occ then p else Some a) (a + block_meta + n) bs"

fun blocks_ok :: "(nat \<rightharpoonup> nat) \<Rightarrow> (nat \<rightharpoonup> ptr) \<Rightarrow> nat \<Rightarrow> nat \<Rightarrow> block list \<Rightarrow> ptr \<Rightarrow> bool" where
  "blocks_ok sz nx t a [] q = True"
| "blocks_ok sz nx t a ((n, occ) # bs) q \<longleftrightarrow>
     sz a = Some n \<and> nx a = Some (if occ then Some t else free_of (a + block_meta + n) bs q) \<and>
     blocks_ok sz nx t (a + block_meta + n) bs q"

abbreviation no_free_pair :: "block list \<Rightarrow> bool" where
  "no_free_pair \<equiv> successively (\<lambda>x y. snd x \<or> snd y)"

text \<open>No two free blocks are neighbours, and the last of several blocks is not empty (an iterator would
  take its header for the end of the memory).\<close>

definition sorted_rep :: "sorted \<Rightarrow> block list \<Rightarrow> bool" where
  "sorted_rep s bs \<longleftrightarrow>
     blocks_ok (sizes s) (nexts s) (trusted s) (trusted s + allocator_meta) bs nullptr \<and>
     first_free s = free_of (trusted s + allocator_meta) bs nullptr \<and>
     span bs = space_size s + block_meta \<and> trusted s + allocator_meta + span bs < 2 ^ 64 \<and>
     no_free_pair bs \<and> (1 < length bs \<longrightarrow> 0 < fst (last bs))"

lemma span_append [simp]: "span (xs @ ys) = span xs + span ys"
  by (induction xs rule: span.induct) simp_all

lemma free_of_append [simp]: "free_of a (xs @ ys) q = free_of a xs (free_of (a + span xs) ys q)"
  by (induction a xs q rule: free_of.induct) (simp_all add: add.assoc)

lemma last_free_append [simp]: "last_free p a (xs @ ys) = last_free (last_free p a xs) (a + span xs) ys"
  by (induction p a xs rule: last_free.induct) (simp_all add: add.assoc)

lemma blocks_ok_append [simp]:
  "blocks_ok sz nx t a (xs @ ys) q \<longleftrightarrow>
     blocks_ok sz nx t a xs (free_of (a + span xs) ys q) \<and> blocks_ok sz nx t (a + span xs) ys q"
  by (induction sz nx t a xs q rule: blocks_ok.induct) (auto simp: add.assoc)

lemma blocks_ok_cong:
  "(\<And>x. a \<le> x \<Longrightarrow> x < a + span bs \<Longrightarrow> sz x = sz' x \<and> nx x = nx' x) \<Longrightarrow>
     blocks_ok sz nx t a bs q = blocks_ok sz' nx' t a bs q"
proof (induction sz nx t a bs q rule: blocks_ok.induct)
  case (2 sz nx t a n occ bs q)
  have "sz a = sz' a \<and> nx a = nx' a" by (rule "2.prems") (auto simp: block_meta_def)
  moreover have "blocks_ok sz nx t (a + block_meta + n) bs q = blocks_ok sz' nx' t (a + block_meta + n) bs q"
    by (rule "2.IH", rule "2.prems") auto
  ultimately show ?case by simp
qed simp

lemma last_free_in: "last_free None a xs = Some p \<Longrightarrow> a \<le> p \<and> p + block_meta \<le> a + span xs"
proof (induction xs rule: rev_induct)
  case (snoc x xs)
  then show ?case by (cases x) (auto split: if_splits)
qed simp

lemma last_free_value:
  "blocks_ok sz nx t a xs q \<Longrightarrow> last_free None a xs = Some p \<Longrightarrow> nx p = Some q \<and> sz p \<noteq> None"
proof (induction xs arbitrary: q rule: rev_induct)
  case (snoc x xs)
  then show ?case by (cases x) (auto split: if_splits)
qed simp

lemma free_of_none: "last_free None a xs = None \<Longrightarrow> free_of a xs q = q"
proof (induction xs arbitrary: q rule: rev_induct)
  case (snoc x xs)
  then show ?case by (cases x) (auto split: if_splits)
qed simp

lemma free_of_some: "last_free None a xs = Some p \<Longrightarrow> free_of a xs q = free_of a xs q' \<and> free_of a xs q \<noteq> None"
proof (induction xs arbitrary: q q' p rule: rev_induct)
  case (snoc x xs)
  show ?case
  proof (cases "last_free None a xs")
    case None
    then show ?thesis using snoc.prems free_of_none [OF None] by (cases x) (auto split: if_splits)
  next
    case (Some p')
    then show ?thesis using snoc.IH [OF Some] by (cases x) (auto split: if_splits)
  qed
qed simp

text \<open>Redirecting the last free block before a position.\<close>

lemma relink:
  "blocks_ok sz nx t a xs q \<Longrightarrow>
     blocks_ok sz (case last_free None a xs of None \<Rightarrow> nx | Some p \<Rightarrow> nx(p \<mapsto> q')) t a xs q'"
proof (induction xs arbitrary: q q' rule: rev_induct)
  case (snoc x xs)
  obtain n occ where x: "x = (n, occ)" by (cases x)
  show ?case
  proof (cases occ)
    case True
    have "last_free None a xs \<noteq> Some (a + span xs)" using last_free_in [of a xs] by (auto simp: block_meta_def)
    moreover have "blocks_ok sz (case last_free None a xs of None \<Rightarrow> nx | Some p \<Rightarrow> nx(p \<mapsto> q')) t a xs q'"
      using snoc.IH [of q q'] snoc.prems x True by simp
    ultimately show ?thesis using snoc.prems x True
      by (cases "last_free None a xs") (simp_all del: fun_upd_apply add: fun_upd_other)
  next
    case False
    have "blocks_ok sz (nx(a + span xs \<mapsto> q')) t a xs (Some (a + span xs)) = blocks_ok sz nx t a xs (Some (a + span xs))"
      by (rule blocks_ok_cong) auto
    then show ?thesis using snoc.prems x False by (simp del: fun_upd_apply add: fun_upd_same)
  qed
qed simp

subsection \<open>The loops\<close>

text \<open>The free blocks with their predecessors, and all blocks, in the order of their addresses.\<close>

fun frees :: "ptr \<Rightarrow> nat \<Rightarrow> block list \<Rightarrow> (ptr \<times> nat \<times> nat) list" where
  "frees p a [] = []"
| "frees p a ((n, occ) # bs) =
     (if occ then frees p (a + block_meta + n) bs else (p, a, n) # frees (Some a) (a + block_meta + n) bs)"

fun blocks_at :: "nat \<Rightarrow> block list \<Rightarrow> (nat \<times> nat \<times> bool) list" where
  "blocks_at a [] = []"
| "blocks_at a ((n, occ) # bs) = (a, n, occ) # blocks_at (a + block_meta + n) bs"

lemma for_free_rep:
  "blocks_ok (sizes s) (nexts s) t a bs nullptr \<Longrightarrow>
     for_free body s p (free_of a bs nullptr) acc = Some (fst (scan body (frees p a bs) acc))"
proof (induction bs arbitrary: p a acc rule: span.induct)
  case 1
  show ?case by (simp add: for_free.simps [of body s p nullptr])
next
  case (2 n occ bs)
  show ?case
  proof (cases occ)
    case True
    then show ?thesis using 2 by simp
  next
    case False
    then show ?thesis using 2 by (simp add: for_free.simps [of body s p "Some a"] get_next_ptr_def split: prod.split)
  qed
qed

lemma frees_split:
  "(p, b, n) \<in> set (frees p0 a bs) \<Longrightarrow>
     \<exists>xs ys. bs = xs @ (n, False) # ys \<and> b = a + span xs \<and> p = last_free p0 a xs"
proof (induction p0 a bs rule: frees.induct)
  case (2 p0 a m occ bs)
  show ?case
  proof (cases "occ = False \<and> (p, b, n) = (p0, a, m)")
    case True
    then show ?thesis by (intro exI [of _ "[]"] exI [of _ bs]) simp
  next
    case False
    then obtain xs ys where "bs = xs @ (n, False) # ys" "b = a + block_meta + m + span xs"
        "p = last_free (if occ then p0 else Some a) (a + block_meta + m) xs"
      using "2.IH" "2.prems" by (cases occ) (auto 4 3)
    then show ?thesis by (intro exI [of _ "(m, occ) # xs"] exI [of _ ys]) simp
  qed
qed simp

lemma sizes_of_frees: "(\<lambda>(_, _, n). n) ` set (frees p a bs) = {n. (n, False) \<in> set bs}"
proof (induction p a bs rule: frees.induct)
  case (2 p a n occ bs)
  then show ?case by (cases occ) auto
qed simp

lemma for_blocks_rep:
  assumes "blocks_ok (sizes s) (nexts s) (trusted s) a bs nullptr"
    "bs \<noteq> []" "a + span bs = trusted s + allocator_meta + space_size s + block_meta" "1 < length bs \<longrightarrow> 0 < fst (last bs)"
  shows "for_blocks body s \<lparr>free_ptr = free_of a bs nullptr, current_ptr = Some a\<rparr> acc =
     Some (fst (scan body (blocks_at a bs) acc))"
  using assms
proof (induction bs arbitrary: a acc rule: span.induct)
  case (2 n occ bs)
  let ?f = "free_of a ((n, occ) # bs) nullptr" and ?b = "a + block_meta + n"
  have fr: "a < f" if "free_of ?b bs nullptr = Some f" for f
  proof -
    have "c \<le> f" if "free_of c ys nullptr = Some f" for c ys
      using that by (induction c ys "nullptr :: ptr" rule: free_of.induct) (auto split: if_splits)
    from this [OF that] show ?thesis by (simp add: block_meta_def)
  qed
  have ne: "free_of ?b bs nullptr \<noteq> Some a" using fr by fastforce
  note ne = ne ne [symmetric]
  define it where "it = \<lparr>free_ptr = ?f, current_ptr = Some a\<rparr>"
  have it: "current_ptr it = Some a" "free_ptr it = ?f" by (simp_all add: it_def)
  have occ: "occupied it = occ" using ne it by (cases occ) (auto simp: occupied_def)
  have sz: "size_of s it = Some n" using "2.prems"(1) it by (simp add: size_of_def)
  have nxt: "(if current_ptr it = free_ptr it then get_next_ptr s (free_ptr it) else Some (free_ptr it)) = Some (free_of ?b bs nullptr)"
    using "2.prems"(1) ne it by (cases occ) (auto simp: get_next_ptr_def)
  have inc: "increment s it = Some \<lparr>free_ptr = free_of ?b bs nullptr,
      current_ptr = (if trusted s + space_size s + allocator_meta \<le> ?b then nullptr else Some ?b)\<rparr>"
    unfolding increment_def nxt using sz it by (simp add: Let_def)
  have rest: "for_blocks body s \<lparr>free_ptr = free_of ?b bs nullptr,
      current_ptr = (if trusted s + space_size s + allocator_meta \<le> ?b then nullptr else Some ?b)\<rparr> acc =
        Some (fst (scan body (blocks_at ?b bs) acc))" for acc
  proof (cases "bs = []")
    case True
    then have "trusted s + space_size s + allocator_meta \<le> ?b" using "2.prems"(3) by (simp add: block_meta_def)
    then show ?thesis using True by (simp add: for_blocks.simps [of body s "\<lparr>free_ptr = _, current_ptr = nullptr\<rparr>"])
  next
    case False
    then have "0 < fst (last bs)" using "2.prems"(4) by simp
    moreover have "fst (last bs) + block_meta \<le> span bs"
    proof -
      obtain m c ys where "bs = ys @ [(m, c)]" using False by (metis rev_exhaust surj_pair)
      then show ?thesis by simp
    qed
    ultimately have "\<not> trusted s + space_size s + allocator_meta \<le> ?b" using "2.prems"(3) by simp
    then show ?thesis using "2.IH" [of ?b acc] "2.prems" False by (auto simp: add.assoc)
  qed
  show ?case
    unfolding it_def [symmetric]
    using occ sz inc rest it by (simp add: for_blocks.simps [of body s it] split: prod.split)
qed simp

subsection \<open>The search\<close>

definition fits_choice :: "fit_mode \<Rightarrow> nat \<Rightarrow> block list \<Rightarrow> nat \<Rightarrow> block list \<Rightarrow> bool" where
  "fits_choice mode need xs m ys \<longleftrightarrow> need \<le> m \<and>
     (case mode of
        First_fit \<Rightarrow> \<forall>k. (k, False) \<in> set xs \<longrightarrow> k < need
      | The_best_fit \<Rightarrow> \<forall>k. (k, False) \<in> set (xs @ ys) \<longrightarrow> need \<le> k \<longrightarrow> m \<le> k
      | The_worst_fit \<Rightarrow> \<forall>k. (k, False) \<in> set (xs @ ys) \<longrightarrow> need \<le> k \<longrightarrow> k \<le> m)"

fun found :: "(ptr \<times> nat \<times> nat) option \<Rightarrow> ptr \<times> ptr \<times> nat" where
  "found None = (nullptr, nullptr, 0)"
| "found (Some (p, a, sz)) = (p, Some a, sz)"

abbreviation size3 :: "ptr \<times> nat \<times> nat \<Rightarrow> nat" where "size3 x \<equiv> snd (snd x)"

lemma scan_encode:
  "(\<And>x r. f x (h r) = map_prod h id (g x r)) \<Longrightarrow> scan f xs (h r) = map_prod h id (scan g xs r)"
  by (induction xs arbitrary: r) (auto split: prod.splits)

lemma search_step_first:
  "search_step First_fit need x (found r) = map_prod found id (if need \<le> size3 x then (Some x, True) else (r, False))"
  by (cases x; cases "found r") simp

lemma search_step_best:
  "search_step The_best_fit need x (found r) =
     map_prod found id (if need \<le> size3 x \<and> (case r of None \<Rightarrow> True | Some b \<Rightarrow> size3 x < size3 b) then Some x else r, False)"
  by (cases x; cases r rule: found.cases) simp_all

lemma search_step_worst:
  "search_step The_worst_fit need x (found r) =
     map_prod found id (if need \<le> size3 x \<and> (case r of None \<Rightarrow> True | Some b \<Rightarrow> size3 b < size3 x) then Some x else r, False)"
  by (cases x; cases r rule: found.cases) simp_all

lemma scan_step_first:
  "fst (scan (search_step First_fit need) xs (found r)) = found (fst (scan (\<lambda>x r. if need \<le> size3 x then (Some x, True) else (r, False)) xs r))"
  by (subst scan_encode [where h = found and g = "\<lambda>x r. if need \<le> size3 x then (Some x, True) else (r, False)"]) (rule search_step_first, simp)

lemma scan_step_best:
  "fst (scan (search_step The_best_fit need) xs (found r)) = found (fst (scan (\<lambda>x r. (if need \<le> size3 x \<and> (case r of None \<Rightarrow> True | Some b \<Rightarrow> size3 x < size3 b) then Some x else r, False)) xs r))"
  by (subst scan_encode [where h = found and g = "\<lambda>x r. (if need \<le> size3 x \<and> (case r of None \<Rightarrow> True | Some b \<Rightarrow> size3 x < size3 b) then Some x else r, False)"]) (rule search_step_best, simp)

lemma scan_step_worst:
  "fst (scan (search_step The_worst_fit need) xs (found r)) = found (fst (scan (\<lambda>x r. (if need \<le> size3 x \<and> (case r of None \<Rightarrow> True | Some b \<Rightarrow> size3 b < size3 x) then Some x else r, False)) xs r))"
  by (subst scan_encode [where h = found and g = "\<lambda>x r. (if need \<le> size3 x \<and> (case r of None \<Rightarrow> True | Some b \<Rightarrow> size3 b < size3 x) then Some x else r, False)"]) (rule search_step_worst, simp)

lemma find_frees:
  "List.find (\<lambda>x. need \<le> size3 x) (frees p0 a bs) = Some (p, b, n) \<Longrightarrow>
     \<exists>xs ys. bs = xs @ (n, False) # ys \<and> b = a + span xs \<and> p = last_free p0 a xs \<and> fits_choice First_fit need xs n ys"
proof (induction p0 a bs rule: frees.induct)
  case (2 p0 a m occ bs)
  show ?case
  proof (cases "occ = False \<and> need \<le> m")
    case True
    then show ?thesis using "2.prems" by (intro exI [of _ "[]"] exI [of _ bs]) (simp add: fits_choice_def)
  next
    case False
    then have "List.find (\<lambda>x. need \<le> size3 x) (frees (if occ then p0 else Some a) (a + block_meta + m) bs) = Some (p, b, n)"
      using "2.prems" by (cases occ) simp_all
    then obtain xs ys where "bs = xs @ (n, False) # ys" "b = a + block_meta + m + span xs"
        "p = last_free (if occ then p0 else Some a) (a + block_meta + m) xs" "fits_choice First_fit need xs n ys"
      using "2.IH" by (cases occ) (simp_all, metis+)
    then show ?thesis using False
      by (intro exI [of _ "(m, occ) # xs"] exI [of _ ys]) (auto simp: fits_choice_def)
  qed
qed simp

lemma size_in_frees: "(k, False) \<in> set bs \<Longrightarrow> \<exists>x \<in> set (frees p a bs). size3 x = k"
  using sizes_of_frees [of p a bs] by (force simp: set_eq_iff image_iff split: prod.splits)

lemma search_rep:
  assumes "blocks_ok (sizes s) (nexts s) t a bs nullptr"
  shows "\<exists>r. for_free (search_step (fit s) need) s nullptr (free_of a bs nullptr) (nullptr, nullptr, 0) = Some (found r) \<and>
    (case r of None \<Rightarrow> \<forall>k. (k, False) \<in> set bs \<longrightarrow> k < need
     | Some (p, b, n) \<Rightarrow> \<exists>xs ys. bs = xs @ (n, False) # ys \<and> b = a + span xs \<and> p = last_free None a xs \<and>
         fits_choice (fit s) need xs n ys)"
proof -
  let ?xs = "frees None a bs"
  have run: "for_free (search_step (fit s) need) s nullptr (free_of a bs nullptr) (nullptr, nullptr, 0) =
      Some (fst (scan (search_step (fit s) need) ?xs (found None)))"
    using for_free_rep [OF assms] by simp
  show ?thesis
  proof (cases "fit s")
    case First_fit
    let ?r = "List.find (\<lambda>x. need \<le> size3 x) ?xs"
    have "fst (scan (search_step (fit s) need) ?xs (found None)) = found ?r"
      unfolding First_fit scan_step_first scan_first ..
    moreover have "\<forall>k. (k, False) \<in> set bs \<longrightarrow> k < need" if "?r = None"
      using that size_in_frees [of _ bs None a] by (fastforce simp: find_None_iff)
    ultimately show ?thesis
      using run find_frees [of need None a bs] First_fit by (intro exI [of _ ?r]) (auto split: option.split)
  next
    case The_best_fit
    obtain r where r: "is_best (\<lambda>x. need \<le> size3 x) size3 ?xs r"
        "fst (scan (search_step (fit s) need) ?xs (found None)) = found r"
      unfolding The_best_fit scan_step_best using scan_best [of "\<lambda>x. need \<le> size3 x" size3 ?xs] by metis
    have all: "need \<le> k \<Longrightarrow> (k, False) \<in> set bs \<Longrightarrow> \<exists>x \<in> set ?xs. size3 x = k \<and> need \<le> size3 x" for k
      using size_in_frees by blast
    show ?thesis
    proof (intro exI [of _ r] conjI)
      show "case r of None \<Rightarrow> \<forall>k. (k, False) \<in> set bs \<longrightarrow> k < need
          | Some (p, b, n) \<Rightarrow> \<exists>xs ys. bs = xs @ (n, False) # ys \<and> b = a + span xs \<and> p = last_free None a xs \<and>
              fits_choice (fit s) need xs n ys"
      proof (cases r rule: found.cases)
        case 1
        then show ?thesis using r(1) size_in_frees [of _ bs None a] by (fastforce simp: is_best_def)
      next
        case (2 p b n)
        then obtain xs ys where "bs = xs @ (n, False) # ys" "b = a + span xs" "p = last_free None a xs"
          using r(1) frees_split [of p b n None a bs] by (auto simp: is_best_def)
        moreover have "need \<le> n \<and> (\<forall>k. (k, False) \<in> set bs \<longrightarrow> need \<le> k \<longrightarrow> n \<le> k)"
          using r(1) 2 size_in_frees [of _ bs None a] by (fastforce simp: is_best_def)
        ultimately show ?thesis using 2 The_best_fit by (auto simp: fits_choice_def)
      qed
    qed (use run r(2) in simp)
  next
    case The_worst_fit
    obtain r where r: "is_worst (\<lambda>x. need \<le> size3 x) size3 ?xs r"
        "fst (scan (search_step (fit s) need) ?xs (found None)) = found r"
      unfolding The_worst_fit scan_step_worst using scan_worst [of "\<lambda>x. need \<le> size3 x" size3 ?xs] by metis
    show ?thesis
    proof (intro exI [of _ r] conjI)
      show "case r of None \<Rightarrow> \<forall>k. (k, False) \<in> set bs \<longrightarrow> k < need
          | Some (p, b, n) \<Rightarrow> \<exists>xs ys. bs = xs @ (n, False) # ys \<and> b = a + span xs \<and> p = last_free None a xs \<and>
              fits_choice (fit s) need xs n ys"
      proof (cases r rule: found.cases)
        case 1
        then show ?thesis using r(1) size_in_frees [of _ bs None a] by (fastforce simp: is_worst_def)
      next
        case (2 p b n)
        then obtain xs ys where "bs = xs @ (n, False) # ys" "b = a + span xs" "p = last_free None a xs"
          using r(1) frees_split [of p b n None a bs] by (auto simp: is_worst_def)
        moreover have "need \<le> n \<and> (\<forall>k. (k, False) \<in> set bs \<longrightarrow> need \<le> k \<longrightarrow> k \<le> n)"
          using r(1) 2 size_in_frees [of _ bs None a] by (fastforce simp: is_worst_def)
        ultimately show ?thesis using 2 The_worst_fit by (auto simp: fits_choice_def)
      qed
    qed (use run r(2) in simp)
  qed
qed

subsection \<open>Allocation\<close>

lemma free_of_in: "last_free None a xs = Some p \<Longrightarrow> \<exists>f. free_of a xs q = Some f \<and> f < a + span xs"
proof (induction xs arbitrary: q p rule: rev_induct)
  case (snoc x xs)
  then show ?case
    by (cases "last_free None a xs"; cases x) (fastforce simp: free_of_none block_meta_def split: if_splits)+
qed simp

lemma first_relink: "free_of a xs q' = (if last_free None a xs = None then q' else free_of a xs q)"
  using free_of_none [of a xs q'] free_of_some [of a xs _ q' q] by auto

lemma replace_block:
  assumes "blocks_ok sz nx t a (xs @ (m, c) # ys) q" "span cs = block_meta + m"
    and "blocks_ok sz' nx' t (a + span xs) cs (free_of (a + span xs + block_meta + m) ys q)"
    and "q' = free_of (a + span xs) cs (free_of (a + span xs + block_meta + m) ys q)"
    and "\<And>x. \<not> (a + span xs \<le> x \<and> x < a + span xs + block_meta + m) \<Longrightarrow>
      sz' x = sz x \<and> nx' x = (if last_free None a xs = Some x then Some q' else nx x)"
  shows "blocks_ok sz' nx' t a (xs @ cs @ ys) q"
proof -
  let ?nx = "case last_free None a xs of None \<Rightarrow> nx | Some p \<Rightarrow> nx(p \<mapsto> q')"
  have nx: "?nx x = (if last_free None a xs = Some x then Some q' else nx x)" for x
    by (cases "last_free None a xs") auto
  have "blocks_ok sz ?nx t a xs q'" by (rule relink [where q = "free_of (a + span xs) ((m, c) # ys) q"]) (use assms(1) in simp)
  moreover have "blocks_ok sz ?nx t a xs q' = blocks_ok sz' nx' t a xs q'"
    by (rule blocks_ok_cong) (use assms(5) nx in auto)
  moreover have "blocks_ok sz nx t (a + span xs + block_meta + m) ys q = blocks_ok sz' nx' t (a + span xs + block_meta + m) ys q"
  proof (rule blocks_ok_cong)
    fix x assume "a + span xs + block_meta + m \<le> x"
    moreover from this have "last_free None a xs \<noteq> Some x" using last_free_in [of a xs x] by (auto simp: block_meta_def)
    ultimately show "sz x = sz' x \<and> nx x = nx' x" using assms(5) [of x] by auto
  qed
  ultimately show ?thesis using assms(1-4) by (simp add: add.assoc)
qed

text \<open>What allocating \<open>n\<close> bytes makes of a free block of \<open>m\<close> bytes.\<close>

definition carve :: "nat \<Rightarrow> nat \<Rightarrow> block list" where
  "carve n m = (if block_meta + 1 \<le> m - n then [(n, True), (m - n - block_meta, False)] else [(m, True)])"

lemma span_carve: "n + block_meta \<le> m \<Longrightarrow> span (carve n m) = block_meta + m"
  by (simp add: carve_def)

lemma carve_pairs:
  "no_free_pair (xs @ (m, False) # ys) \<Longrightarrow> no_free_pair (xs @ carve n m @ ys)"
  by (auto simp: carve_def successively_append_iff successively_Cons)

lemma carve_last: "1 < length (xs @ carve n m @ ys) \<Longrightarrow> (1 < length (xs @ (m, c) # ys) \<Longrightarrow> 0 < fst (last (xs @ (m, c) # ys))) \<Longrightarrow>
    n + block_meta \<le> m \<Longrightarrow> 0 < fst (last (xs @ carve n m @ ys))"
  by (cases ys rule: rev_cases) (auto simp: carve_def block_meta_def split: if_splits)

lemma sorted_allocate_spec:
  assumes r: "sorted_rep s (xs @ (m, False) # ys)" and n: "n + block_meta \<le> m"
    and f: "for_free (search_step (fit s) (size_add n block_meta)) s nullptr (first_free s) (nullptr, nullptr, 0) =
      Some (last_free None (trusted s + allocator_meta) xs, Some (trusted s + allocator_meta + span xs), m)"
  shows "\<exists>s'. do_allocate_sm s n = Some (Inr (s', trusted s + allocator_meta + span xs + block_meta)) \<and>
    sorted_rep s' (xs @ carve n m @ ys) \<and> fit s' = fit s \<and> trusted s' = trusted s \<and> space_size s' = space_size s"
proof -
  define a where "a = trusted s + allocator_meta"
  define b where "b = a + span xs"
  define p where "p = last_free None a xs"
  define nxt where "nxt = free_of (b + block_meta + m) ys nullptr"
  define split where "split = (block_meta + 1 \<le> m - n)"
  define q' where "q' = (if split then Some (b + block_meta + n) else nxt)"
  have R: "blocks_ok (sizes s) (nexts s) (trusted s) a (xs @ (m, False) # ys) nullptr"
      "first_free s = free_of a (xs @ (m, False) # ys) nullptr" "span (xs @ (m, False) # ys) = space_size s + block_meta"
      "a + span (xs @ (m, False) # ys) < 2 ^ 64"
    using r by (simp_all add: sorted_rep_def a_def)
  have nb: "nexts s b = Some nxt" and sb: "sizes s b = Some m" using R(1) by (simp_all add: b_def nxt_def)
  have m64: "m < 2 ^ 64" using R(4) by simp
  then have rem: "size_sub m n = m - n" "size_sub (m - n) block_meta = m - n - block_meta" using n by simp_all
  have pb: "p \<noteq> Some b" "\<And>x. p = Some x \<Longrightarrow> x < b" using last_free_in [of a xs] by (auto simp: p_def b_def block_meta_def)
  have sp: "split = (Suc block_meta \<le> m - n)" by (simp add: split_def)
  define sz' where "sz' = (if split then (sizes s)(b + block_meta + n \<mapsto> m - n - block_meta, b \<mapsto> n) else sizes s)"
  define nx1 where "nx1 = (if split then (nexts s)(b + block_meta + n \<mapsto> nxt) else nexts s)"
  define nx2 where "nx2 = (case p of None \<Rightarrow> nx1 | Some x \<Rightarrow> nx1(x \<mapsto> q'))"
  define s' where "s' = s\<lparr>sizes := sz', nexts := nx2(b \<mapsto> Some (trusted s)), first_free := (if first_free s = Some b then q' else first_free s)\<rparr>"
  have run: "do_allocate_sm s n = Some (Inr (s', b + block_meta))"
    unfolding do_allocate_sm_def f a_def [symmetric] b_def [symmetric] p_def [symmetric]
    using nb pb rem sp
    by (cases split; cases p)
      (simp_all add: Let_def get_next_ptr_def set_next_ptr_def set_size_def s'_def sz'_def nx1_def nx2_def q'_def)
  have nx2: "nx2 x = (if p = Some x then Some q' else nx1 x)" for x by (cases p) (auto simp: nx2_def)
  have "blocks_ok sz' (nx2(b \<mapsto> Some (trusted s))) (trusted s) a (xs @ carve n m @ ys) nullptr"
  proof (rule replace_block [OF R(1) span_carve [OF n]])
    show "q' = free_of (a + span xs) (carve n m) (free_of (a + span xs + block_meta + m) ys nullptr)"
      by (auto simp: q'_def carve_def split_def b_def nxt_def add.assoc)
    have "p \<noteq> Some (b + block_meta + n)" using pb(2) [of "b + block_meta + n"] by auto
    then show "blocks_ok sz' (nx2(b \<mapsto> Some (trusted s))) (trusted s) (a + span xs) (carve n m) (free_of (a + span xs + block_meta + m) ys nullptr)"
      using n sb nx2 sp [unfolded block_meta_def] unfolding b_def [symmetric] nxt_def [symmetric]
      by (cases split) (simp_all add: carve_def sz'_def nx1_def block_meta_def)
  next
    fix x assume x: "\<not> (a + span xs \<le> x \<and> x < a + span xs + block_meta + m)"
    then have "x \<noteq> b" "x \<noteq> b + block_meta + n" using n by (auto simp: b_def block_meta_def)
    then show "sz' x = sizes s x \<and> (nx2(b \<mapsto> Some (trusted s))) x = (if last_free None a xs = Some x then Some q' else nexts s x)"
      using nx2 [of x] by (auto simp: sz'_def nx1_def p_def)
  qed
  moreover have "first_free s' = free_of a (xs @ carve n m @ ys) nullptr"
  proof -
    have "free_of a (xs @ carve n m @ ys) nullptr = free_of a xs q'"
      by (auto simp: q'_def carve_def split_def b_def nxt_def add.assoc)
    then show ?thesis using R(2) free_of_in [of a xs _ "Some b"] first_relink [of a xs q' "Some b"]
      by (cases "last_free None a xs") (auto simp: s'_def b_def free_of_none)
  qed
  ultimately have "sorted_rep s' (xs @ carve n m @ ys)"
    using r span_carve [OF n] carve_pairs [of xs m ys n] carve_last [of xs n m ys False, OF _ _ n] R(3,4)
    unfolding sorted_rep_def by (simp add: s'_def a_def)
  then show ?thesis using run by (auto simp: s'_def a_def b_def)
qed

subsection \<open>Deallocation\<close>

fun join_right :: "nat \<Rightarrow> block list \<Rightarrow> block list" where
  "join_right n ((m, False) # ys) = (n + block_meta + m, False) # ys"
| "join_right n ys = (n, False) # ys"

text \<open>What deallocating a block of \<open>n\<close> bytes between \<open>xs\<close> and \<open>ys\<close> leaves: it grows into its free neighbours.\<close>

definition release :: "block list \<Rightarrow> nat \<Rightarrow> block list \<Rightarrow> block list" where
  "release xs n ys =
     (if xs \<noteq> [] \<and> \<not> snd (last xs) then butlast xs @ join_right (fst (last xs) + block_meta + n) ys
      else xs @ join_right n ys)"

lemma find_block:
  "fst (scan (\<lambda>(c, _, occ) prev. if c = a + span xs then (prev, True) else (if \<not> occ then Some c else prev, False))
     (blocks_at a (xs @ (n, c) # ys)) p) = last_free p a xs"
proof (induction p a xs rule: last_free.induct)
  case (2 p a m occ xs)
  have "0 < block_meta" by (simp add: block_meta_def)
  then show ?case using "2.IH" by (cases occ) (simp_all add: add.assoc)
qed simp

lemma merge_right:
  assumes "blocks_ok (sizes s) (nexts s) t a (xs @ (k, False) # ys) nullptr" "k + span ys < 2 ^ 64"
  shows "\<exists>s'. try_merge s (Some (a + span xs)) (free_of (a + span xs + block_meta + k) ys nullptr) =
      Some (s', ys \<noteq> [] \<and> \<not> snd (hd ys)) \<and> blocks_ok (sizes s') (nexts s') t a (xs @ join_right k ys) nullptr \<and>
      s' = s\<lparr>sizes := sizes s', nexts := nexts s'\<rparr>"
proof -
  let ?l = "a + span xs" and ?r = "a + span xs + block_meta + k"
  have l: "sizes s ?l = Some k" "nexts s ?l = Some (free_of ?r ys nullptr)" using assms(1) by simp_all
  have "(\<exists>m ys'. ys = (m, False) # ys') \<or> (join_right k ys = (k, False) # ys \<and> \<not> (ys \<noteq> [] \<and> \<not> snd (hd ys)))"
    by (cases "(k, ys)" rule: join_right.cases) auto
  then consider (free) m ys' where "ys = (m, False) # ys'"
    | (other) "join_right k ys = (k, False) # ys" "\<not> (ys \<noteq> [] \<and> \<not> snd (hd ys))" by blast
  then show ?thesis
  proof cases
    case free
    define s' where "s' = s\<lparr>sizes := (sizes s)(?l \<mapsto> k + m + block_meta), nexts := (nexts s)(?l \<mapsto> free_of (?r + block_meta + m) ys' nullptr)\<rparr>"
    have "size_add (size_add k m) block_meta = k + m + block_meta" using assms(2) free by simp
    then have "try_merge s (Some ?l) (free_of ?r ys nullptr) = Some (s', True)"
      using free l assms(1) by (simp add: try_merge_def Let_def set_size_def set_next_ptr_def get_next_ptr_def s'_def)
    moreover have "blocks_ok (sizes s) (nexts s) t a (xs @ (k, False) # ys) nullptr" by (rule assms(1))
    moreover have "blocks_ok (sizes s) (nexts s) t a xs (Some ?l) = blocks_ok (sizes s') (nexts s') t a xs (Some ?l)"
      by (rule blocks_ok_cong) (auto simp: s'_def)
    moreover have "blocks_ok (sizes s) (nexts s) t (?r + block_meta + m) ys' nullptr = blocks_ok (sizes s') (nexts s') t (?r + block_meta + m) ys' nullptr"
      by (rule blocks_ok_cong) (auto simp: s'_def block_meta_def)
    ultimately show ?thesis
      using free by (intro exI [of _ s']) (simp add: s'_def ac_simps)
  next
    case other
    have "\<exists>k'. sizes s r = Some k'" if "free_of c ys nullptr = Some r" "blocks_ok (sizes s) (nexts s) t c ys nullptr" for c r
      using that by (induction c ys "nullptr :: ptr" rule: free_of.induct) (auto split: if_splits)
    moreover have "?r < r" if "free_of ?r ys nullptr = Some r" for r
    proof -
      have *: "c \<le> r" if "free_of c zs nullptr = Some r" for c zs
        using that by (induction c zs "nullptr :: ptr" rule: free_of.induct) (auto split: if_splits)
      show ?thesis using that other(2) * [of "?r + block_meta + fst (hd ys)" "tl ys"]
        by (cases ys) (auto simp: block_meta_def)
    qed
    ultimately have "try_merge s (Some ?l) (free_of ?r ys nullptr) = Some (s, False)"
      using l assms(1) by (cases "free_of ?r ys nullptr") (fastforce simp: try_merge_def)+
    then show ?thesis using other assms(1) by (intro exI [of _ s]) simp
  qed
qed

lemma merge_left:
  assumes "blocks_ok (sizes s) (nexts s) t a (xs @ (n, False) # ys) nullptr" "span xs + n + span ys + block_meta < 2 ^ 64"
  shows "\<exists>s1 m. try_merge s (last_free None a xs) (Some (a + span xs)) = Some (s1, m) \<and>
    (m \<longleftrightarrow> xs \<noteq> [] \<and> \<not> snd (last xs)) \<and> s1 = s\<lparr>sizes := sizes s1, nexts := nexts s1\<rparr> \<and>
    (m \<longrightarrow> blocks_ok (sizes s1) (nexts s1) t a (butlast xs @ (fst (last xs) + block_meta + n, False) # ys) nullptr) \<and>
    (\<not> m \<longrightarrow> s1 = s)"
proof (cases "xs \<noteq> [] \<and> \<not> snd (last xs)")
  case True
  then obtain xs' k where xs: "xs = xs' @ [(k, False)]" by (cases xs rule: rev_cases) auto
  have "\<exists>s'. try_merge s (Some (a + span xs')) (free_of (a + span xs' + block_meta + k) ((n, False) # ys) nullptr) =
      Some (s', (n, False) # ys \<noteq> [] \<and> \<not> snd (hd ((n, False) # ys))) \<and>
      blocks_ok (sizes s') (nexts s') t a (xs' @ join_right k ((n, False) # ys)) nullptr \<and> s' = s\<lparr>sizes := sizes s', nexts := nexts s'\<rparr>"
    by (rule merge_right) (use assms xs in simp_all)
  then show ?thesis using xs by (auto simp: add.assoc)
next
  case False
  have "try_merge s (last_free None a xs) (Some (a + span xs)) = Some (s, False)"
  proof (cases "last_free None a xs")
    case (Some p)
    obtain zs j where xs: "xs = zs @ [(j, True)]" using False Some by (cases xs rule: rev_cases) auto
    have "\<exists>k. sizes s p = Some k \<and> p + block_meta + k \<le> a + span us"
      if "last_free None a us = Some p" "blocks_ok (sizes s) (nexts s) t a us q" for us q
      using that
    proof (induction us arbitrary: q rule: rev_induct)
      case (snoc u us)
      then show ?case by (cases u) (fastforce split: if_splits)
    qed simp
    from this [of zs] obtain k where "sizes s p = Some k" "p + block_meta + k \<le> a + span zs"
      using Some assms(1) xs by auto
    then have "p + block_meta + k \<noteq> a + span xs" using xs by (simp add: block_meta_def)
    moreover have "sizes s (a + span xs) = Some n" using assms(1) by simp
    ultimately show ?thesis using Some \<open>sizes s p = Some k\<close> by (simp add: try_merge_def)
  qed (simp add: try_merge_def)
  then show ?thesis using False by auto
qed

lemma free_of_gt: "free_of c zs nullptr = Some f \<Longrightarrow> c \<le> f"
  by (induction c zs "nullptr :: ptr" rule: free_of.induct) (auto split: if_splits)

lemma join_right_cases:
  obtains m ys' where "ys = (m, False) # ys'" "\<And>n. join_right n ys = (n + block_meta + m, False) # ys'"
  | "\<And>n. join_right n ys = (n, False) # ys" "ys = [] \<or> snd (hd ys)"
proof (cases ys)
  case (Cons y zs)
  then show thesis using that by (cases y; cases "snd y") simp_all
qed (use that in simp)

lemma free_of_join_right: "free_of a (join_right n ys) q = Some a"
  by (cases ys rule: join_right_cases) simp_all

lemma span_join_right: "span (join_right n ys) = block_meta + n + span ys"
  by (cases ys rule: join_right_cases) simp_all

lemma join_right_not_Nil: "join_right n ys \<noteq> []"
  by (cases ys rule: join_right_cases) simp_all

lemma join_right_last:
  "0 < n \<or> ys \<noteq> [] \<Longrightarrow> (ys \<noteq> [] \<longrightarrow> 0 < fst (last ys)) \<Longrightarrow> 0 < fst (last (join_right n ys))"
  by (cases ys rule: join_right_cases) (auto simp: block_meta_def)

lemma join_right_pairs:
  assumes "no_free_pair ys" shows "no_free_pair (join_right n ys) \<and> \<not> snd (hd (join_right n ys)) \<and> join_right n ys \<noteq> []"
proof (cases ys rule: join_right_cases)
  case (1 m ys')
  then show ?thesis using assms by (simp add: successively_Cons)
next
  case 2
  then show ?thesis using assms by (auto simp: successively_Cons)
qed

lemma release_pairs: "no_free_pair (xs @ (n, True) # ys) \<Longrightarrow> no_free_pair (release xs n ys)"
proof -
  assume p: "no_free_pair (xs @ (n, True) # ys)"
  then have "no_free_pair ys" by (auto simp: successively_append_iff successively_Cons)
  note j = join_right_pairs [OF this]
  show ?thesis
  proof (cases "xs \<noteq> [] \<and> \<not> snd (last xs)")
    case True
    then obtain xs' k where xs: "xs = xs' @ [(k, False)]" by (cases xs rule: rev_cases) auto
    then show ?thesis using p j by (auto simp: release_def successively_append_iff)
  next
    case False
    then show ?thesis using p j by (auto simp: release_def successively_append_iff)
  qed
qed

lemma release_last:
  assumes "1 < length (xs @ (n, True) # ys) \<longrightarrow> 0 < fst (last (xs @ (n, True) # ys))"
  shows "1 < length (release xs n ys) \<longrightarrow> 0 < fst (last (release xs n ys))"
proof (cases "xs = [] \<and> ys = []")
  case True
  then show ?thesis by (simp add: release_def)
next
  case False
  then have "n > 0 \<or> ys \<noteq> []" "ys \<noteq> [] \<longrightarrow> 0 < fst (last ys)" using assms by (auto split: if_splits)
  then have "0 < fst (last (join_right n ys))" "0 < fst (last (join_right (fst (last xs) + block_meta + n) ys))"
    using join_right_last by (simp_all add: block_meta_def)
  then show ?thesis by (simp add: release_def join_right_not_Nil)
qed

lemma release_no_free: "last_free None a xs = None \<Longrightarrow> release xs n ys = xs @ join_right n ys"
  by (cases xs rule: rev_cases) (auto simp: release_def split: if_splits prod.splits)

lemma sorted_deallocate_spec:
  assumes r: "sorted_rep s (xs @ (n, True) # ys)"
  shows "\<exists>s'. do_deallocate_sm s (trusted s + allocator_meta + span xs + block_meta) = Some (Inr s') \<and>
    sorted_rep s' (release xs n ys) \<and> fit s' = fit s \<and> trusted s' = trusted s \<and> space_size s' = space_size s \<and> has_logger s' = has_logger s"
proof -
  define a where "a = trusted s + allocator_meta"
  define b where "b = a + span xs"
  define p where "p = last_free None a xs"
  define nxt where "nxt = free_of (b + block_meta + n) ys nullptr"
  have R: "blocks_ok (sizes s) (nexts s) (trusted s) a (xs @ (n, True) # ys) nullptr"
      "first_free s = free_of a xs nxt" "span (xs @ (n, True) # ys) = space_size s + block_meta"
      "a + span (xs @ (n, True) # ys) < 2 ^ 64" "1 < length (xs @ (n, True) # ys) \<longrightarrow> 0 < fst (last (xs @ (n, True) # ys))"
    using r by (simp_all add: sorted_rep_def a_def nxt_def b_def add.assoc)
  have mark: "nexts s b = Some (Some (trusted s))" using R(1) by (simp add: b_def)
  have prev: "for_blocks (\<lambda>(c, _, occ) prev. if c = b then (prev, True) else (if \<not> occ then Some c else prev, False))
      s (begin_it s) nullptr = Some p"
  proof -
    have "begin_it s = \<lparr>free_ptr = free_of a (xs @ (n, True) # ys) nullptr, current_ptr = Some a\<rparr>"
      using r by (simp add: begin_it_def sorted_rep_def a_def)
    moreover have "a + span (xs @ (n, True) # ys) = trusted s + allocator_meta + space_size s + block_meta"
      using R(3) by (simp only: a_def)
    ultimately show ?thesis
      unfolding b_def p_def
      using for_blocks_rep [OF R(1) _ _ R(5), of "\<lambda>(c, _, occ) prev. if c = a + span xs then (prev, True)
        else (if \<not> occ then Some c else prev, False)" nullptr] by (simp only: find_block) simp
  qed
  have pb: "p \<noteq> Some b" using last_free_in [of a xs] by (auto simp: p_def b_def block_meta_def)
  have nx: "(if p \<noteq> nullptr then get_next_ptr s p else Some (first_free s)) = Some nxt"
    using R(1,2) last_free_value [of "sizes s" "nexts s" "trusted s" a xs nxt] free_of_none [of a xs nxt]
    by (cases p) (auto simp: p_def get_next_ptr_def nxt_def b_def)
  define s1 where "s1 = s\<lparr>nexts := (case p of None \<Rightarrow> nexts s | Some x \<Rightarrow> (nexts s)(x \<mapsto> Some b))(b \<mapsto> nxt)\<rparr>"
  have s1: "set_next_ptr (case p of None \<Rightarrow> s | Some x \<Rightarrow> set_next_ptr s x (Some b)) b nxt = s1"
    by (cases p) (simp_all add: s1_def set_next_ptr_def)
  have ok1: "blocks_ok (sizes s1) (nexts s1) (trusted s) a (xs @ [(n, False)] @ ys) nullptr"
  proof (rule replace_block [OF R(1)])
    show "blocks_ok (sizes s1) (nexts s1) (trusted s) (a + span xs) [(n, False)] (free_of (a + span xs + block_meta + n) ys nullptr)"
      using R(1) by (simp add: s1_def b_def nxt_def)
    fix x assume "\<not> (a + span xs \<le> x \<and> x < a + span xs + block_meta + n)"
    then have "x \<noteq> b" by (auto simp: b_def block_meta_def)
    then show "sizes s1 x = sizes s x \<and> nexts s1 x = (if last_free None a xs = Some x then Some (Some b) else nexts s x)"
      by (cases p) (auto simp: s1_def p_def)
  qed (simp_all add: b_def)
  obtain s2 m where m: "try_merge s1 p (Some b) = Some (s2, m)" "m \<longleftrightarrow> xs \<noteq> [] \<and> \<not> snd (last xs)"
      "s2 = s1\<lparr>sizes := sizes s2, nexts := nexts s2\<rparr>"
      "m \<Longrightarrow> blocks_ok (sizes s2) (nexts s2) (trusted s) a (butlast xs @ (fst (last xs) + block_meta + n, False) # ys) nullptr"
      "\<not> m \<Longrightarrow> s2 = s1"
    using merge_left [of s1 "trusted s" a xs n ys] ok1 R(4) unfolding p_def b_def by auto
  have "\<exists>s3 c. (if m then try_merge s2 p nxt else try_merge s2 (Some b) nxt) = Some (s3, c) \<and>
      blocks_ok (sizes s3) (nexts s3) (trusted s) a (release xs n ys) nullptr \<and> s3 = s2\<lparr>sizes := sizes s3, nexts := nexts s3\<rparr>"
  proof (cases m)
    case True
    then obtain xs' k where xs: "xs = xs' @ [(k, False)]" using m(2) by (cases xs rule: rev_cases) auto
    have "p = Some (a + span xs')" "nxt = free_of (a + span xs' + block_meta + (k + block_meta + n)) ys nullptr"
      using xs by (simp_all add: p_def nxt_def b_def ac_simps)
    then show ?thesis
      using merge_right [of s2 "trusted s" a xs' "k + block_meta + n" ys] m(4) [OF True] True xs R(4)
      by (auto simp: release_def ac_simps)
  next
    case False
    then show ?thesis
      using merge_right [of s1 "trusted s" a xs n ys] m(2,5) ok1 R(4) by (auto simp: release_def b_def nxt_def)
  qed
  then obtain s3 c where s3: "(if m then try_merge s2 p nxt else try_merge s2 (Some b) nxt) = Some (s3, c)"
      "blocks_ok (sizes s3) (nexts s3) (trusted s) a (release xs n ys) nullptr" "s3 = s2\<lparr>sizes := sizes s3, nexts := nexts s3\<rparr>"
    by blast
  have s3': "s3 = s\<lparr>sizes := sizes s3, nexts := nexts s3\<rparr>" using s3(3) m(3) unfolding s1_def by (metis (no_types, lifting) sorted.surjective sorted.update_convs(1,2))
  have F: "first_free s3 = free_of a xs nxt" by (subst s3') (simp add: R(2))
  define s' where "s' = (case first_free s3 of None \<Rightarrow> s3\<lparr>first_free := Some b\<rparr>
     | Some f \<Rightarrow> if p = nullptr \<and> b < f then s3\<lparr>first_free := Some b\<rparr> else s3)"
  have "do_deallocate_sm s (b + block_meta) = Some (Inr s')"
    unfolding do_deallocate_sm_def using mark prev nx s1 m(1) s3(1)
    by (simp add: get_next_ptr_def [of s "Some b"] Let_def s'_def split del: if_split)
  moreover have "first_free s' = free_of a (release xs n ys) nullptr"
  proof (cases p)
    case None
    then have "free_of a (release xs n ys) nullptr = Some b"
      using free_of_none [of a xs] release_no_free [of a xs] unfolding p_def by (auto simp: free_of_join_right b_def)
    moreover have "first_free s3 = nxt" using F None free_of_none [of a xs] unfolding p_def by simp
    moreover have "b < f" if "nxt = Some f" for f using free_of_gt [of "b + block_meta + n" ys f] that by (simp add: nxt_def block_meta_def)
    ultimately show ?thesis using None by (cases nxt) (auto simp: s'_def)
  next
    case (Some x)
    then obtain f where f: "free_of a xs nxt = Some f" using free_of_in [of a xs x nxt] unfolding p_def by auto
    have "free_of a (release xs n ys) nullptr = free_of a xs nxt"
      using free_of_some [of a xs x] Some free_of_join_right
      by (cases xs rule: rev_cases) (auto simp: release_def p_def)
    then show ?thesis using F f Some by (simp add: s'_def)
  qed
  moreover have "span (release xs n ys) = span (xs @ (n, True) # ys)"
    using span_join_right by (cases xs rule: rev_cases) (auto simp: release_def)
  moreover have "trusted s3 = trusted s" "fit s3 = fit s" "space_size s3 = space_size s" "has_logger s3 = has_logger s"
    by (subst s3', simp)+
  then have "trusted s' = trusted s" "fit s' = fit s" "space_size s' = space_size s" "has_logger s' = has_logger s" by (auto simp: s'_def split: option.split)
  moreover have "sizes s' = sizes s3" "nexts s' = nexts s3" by (auto simp: s'_def split: option.split)
  ultimately show ?thesis
    using r s3(2) release_pairs [of xs n ys] release_last [of xs n ys] R(3-5)
    unfolding sorted_rep_def a_def b_def by simp
qed

subsection \<open>The interface of a memory resource\<close>

definition sorted_payloads :: "sorted \<Rightarrow> block list \<Rightarrow> (nat \<times> nat) set" where
  "sorted_payloads s bs = {(a + block_meta, n) |a n. (a, n, True) \<in> set (blocks_at (trusted s + allocator_meta) bs)}"

lemma blocks_at_append: "blocks_at a (xs @ ys) = blocks_at a xs @ blocks_at (a + span xs) ys"
  by (induction a xs rule: blocks_at.induct) (simp_all add: add.assoc)

lemma blocks_at_split: "(b, n, c) \<in> set (blocks_at a bs) \<Longrightarrow> \<exists>xs ys. bs = xs @ (n, c) # ys \<and> b = a + span xs"
proof (induction a bs rule: blocks_at.induct)
  case (2 a m d bs)
  show ?case
  proof (cases "(b, n, c) = (a, m, d)")
    case True
    then show ?thesis by (intro exI [of _ "[]"] exI [of _ bs]) simp
  next
    case False
    then obtain xs ys where "bs = xs @ (n, c) # ys" "b = a + block_meta + m + span xs" using 2 by auto
    then show ?thesis by (intro exI [of _ "(m, d) # xs"] exI [of _ ys]) simp
  qed
qed simp

lemma blocks_at_bounds: "(b, n, c) \<in> set (blocks_at a bs) \<Longrightarrow> a \<le> b \<and> b + block_meta + n \<le> a + span bs"
  by (induction a bs rule: blocks_at.induct) auto

lemma blocks_at_apart:
  "(b, n, c) \<in> set (blocks_at a bs) \<Longrightarrow> (b', n', c') \<in> set (blocks_at a bs) \<Longrightarrow> (b, n, c) \<noteq> (b', n', c') \<Longrightarrow>
     b + block_meta + n \<le> b' \<or> b' + block_meta + n' \<le> b"
  by (induction a bs rule: blocks_at.induct) (auto dest: blocks_at_bounds)

lemma occupied_carve:
  "n + block_meta \<le> m \<Longrightarrow> \<exists>k. n \<le> k \<and> {(b, j). (b, j, True) \<in> set (blocks_at a (carve n m))} = {(a, k)}"
  by (auto simp: carve_def)

lemma occupied_join_right:
  "(b, j, True) \<in> set (blocks_at a (join_right n ys)) \<longleftrightarrow> (b, j, True) \<in> set (blocks_at (a + block_meta + n) ys)"
  by (cases ys rule: join_right_cases) (auto simp: add.assoc)

lemma occupied_release:
  "(b, j, True) \<in> set (blocks_at a (release xs n ys)) \<longleftrightarrow>
     (b, j, True) \<in> set (blocks_at a xs) \<or> (b, j, True) \<in> set (blocks_at (a + span xs + block_meta + n) ys)"
proof (cases "xs \<noteq> [] \<and> \<not> snd (last xs)")
  case True
  then obtain xs' k where "xs = xs' @ [(k, False)]" by (cases xs rule: rev_cases) auto
  then show ?thesis by (simp add: release_def blocks_at_append occupied_join_right ac_simps)
next
  case False
  then show ?thesis by (auto simp: release_def blocks_at_append occupied_join_right)
qed

lemma sorted_allocated:
  assumes r: "sorted_rep s bs" and n: "n < 2 ^ 63"
  shows "(do_allocate_sm s n = Some (Inl Bad_alloc) \<and> (\<forall>k. (k, False) \<in> set bs \<longrightarrow> k < n + block_meta)) \<or>
    (\<exists>s' xs m ys. bs = xs @ (m, False) # ys \<and> fits_choice (fit s) (n + block_meta) xs m ys \<and>
       do_allocate_sm s n = Some (Inr (s', trusted s + allocator_meta + span xs + block_meta)) \<and>
       sorted_rep s' (xs @ carve n m @ ys) \<and> trusted s' = trusted s \<and> space_size s' = space_size s)"
proof -
  define a where "a = trusted s + allocator_meta"
  have ok: "blocks_ok (sizes s) (nexts s) (trusted s) a bs nullptr" "first_free s = free_of a bs nullptr"
    using r by (simp_all add: sorted_rep_def a_def)
  have need: "size_add n block_meta = n + block_meta" using n by (simp add: block_meta_def)
  obtain x where x: "for_free (search_step (fit s) (size_add n block_meta)) s nullptr (first_free s) (nullptr, nullptr, 0) = Some (found x)"
    "case x of None \<Rightarrow> \<forall>k. (k, False) \<in> set bs \<longrightarrow> k < n + block_meta
     | Some (p, b, m) \<Rightarrow> \<exists>xs ys. bs = xs @ (m, False) # ys \<and> b = a + span xs \<and> p = last_free None a xs \<and>
         fits_choice (fit s) (n + block_meta) xs m ys"
    using search_rep [OF ok(1), of "n + block_meta"] unfolding ok(2) need by blast
  show ?thesis
  proof (cases x rule: found.cases)
    case 1
    then show ?thesis using x by (simp add: do_allocate_sm_def)
  next
    case (2 p b m)
    then obtain xs ys where xy: "bs = xs @ (m, False) # ys" "b = a + span xs" "p = last_free None a xs"
        "fits_choice (fit s) (n + block_meta) xs m ys"
      using x(2) by auto
    then have "n + block_meta \<le> m" by (simp add: fits_choice_def)
    from sorted_allocate_spec [OF r [unfolded xy(1)] this] show ?thesis
      using x(1) 2 xy unfolding a_def by auto
  qed
qed

interpretation free_list: memory_resource "\<lambda>s bs. sorted_rep s bs \<and> trusted s = address \<and> space_size s = bytes"
    do_allocate_sm do_deallocate_sm sorted_payloads "\<lambda>n. n < 2 ^ 63" for address bytes
proof
  fix s bs x y
  assume "x \<in> sorted_payloads s bs" "y \<in> sorted_payloads s bs" "x \<noteq> y"
  then show "apart x y \<and> fst x \<noteq> fst y"
    using blocks_at_apart [of _ _ _ "trusted s + allocator_meta" bs]
    by (fastforce simp: sorted_payloads_def apart_def block_meta_def)
next
  fix s bs and n :: nat assume r: "sorted_rep s bs \<and> trusted s = address \<and> space_size s = bytes" "n < 2 ^ 63"
  from sorted_allocated [of s bs n] r consider "do_allocate_sm s n = Some (Inl Bad_alloc)"
    | s' xs m ys where "bs = xs @ (m, False) # ys" "n + block_meta \<le> m"
       "do_allocate_sm s n = Some (Inr (s', trusted s + allocator_meta + span xs + block_meta))"
       "sorted_rep s' (xs @ carve n m @ ys)" "trusted s' = trusted s" "space_size s' = space_size s"
    by (auto simp: fits_choice_def)
  then show "do_allocate_sm s n = Some (Inl Bad_alloc) \<or>
      (\<exists>s' p b' m. do_allocate_sm s n = Some (Inr (s', p)) \<and> (sorted_rep s' b' \<and> trusted s' = address \<and> space_size s' = bytes) \<and> n \<le> m \<and>
        (p, m) \<notin> sorted_payloads s bs \<and> sorted_payloads s' b' = insert (p, m) (sorted_payloads s bs))"
  proof cases
    case 2
    let ?a = "trusted s + allocator_meta"
    obtain k where k: "n \<le> k" "{(b, j). (b, j, True) \<in> set (blocks_at (?a + span xs) (carve n m))} = {(?a + span xs, k)}"
      using occupied_carve [OF 2(2)] by blast
    have "sorted_payloads s' (xs @ carve n m @ ys) = insert (?a + span xs + block_meta, k) (sorted_payloads s bs)"
      using k(2) span_carve [OF 2(2)] 2(1,5)
      by (auto simp: sorted_payloads_def blocks_at_append set_eq_iff add.assoc)
    moreover have "(?a + span xs + block_meta, k) \<notin> sorted_payloads s bs"
      using blocks_at_apart [of "?a + span xs" m False ?a bs "?a + span xs" k True] 2(1)
      by (auto simp: sorted_payloads_def blocks_at_append block_meta_def)
    ultimately show ?thesis using 2(3-6) k(1) r(1) by blast
  qed blast
next
  fix s bs p m assume r: "sorted_rep s bs \<and> trusted s = address \<and> space_size s = bytes" "(p, m) \<in> sorted_payloads s bs"
  then obtain xs ys where b: "bs = xs @ (m, True) # ys" "p = trusted s + allocator_meta + span xs + block_meta"
    using blocks_at_split [of _ m True] by (fastforce simp: sorted_payloads_def)
  obtain s' where s': "do_deallocate_sm s p = Some (Inr s')" "sorted_rep s' (release xs m ys)" "trusted s' = trusted s" "space_size s' = space_size s"
    using sorted_deallocate_spec [of s xs m ys] r(1) b by blast
  have "sorted_payloads s' (release xs m ys) = sorted_payloads s bs - {(p, m)}"
    using s'(3) b by (auto simp: sorted_payloads_def occupied_release blocks_at_append block_meta_def dest: blocks_at_bounds)
  then show "\<exists>s' b'. do_deallocate_sm s p = Some (Inr s') \<and> (sorted_rep s' b' \<and> trusted s' = address \<and> space_size s' = bytes) \<and> sorted_payloads s' b' = sorted_payloads s bs - {(p, m)}"
    using s' r(1) by blast
qed

subsection \<open>Properties\<close>

lemma construct_rep:
  "address + allocator_meta + block_meta + n < 2 ^ 64 \<Longrightarrow> sorted_rep (construct address n logging mode) [(n, False)]"
  by (simp add: sorted_rep_def construct_def Let_def set_size_def set_next_ptr_def)

lemma construct_simps [simp]:
  "trusted (construct address n logging mode) = address" "space_size (construct address n logging mode) = n"
  "fit (construct address n logging mode) = mode" "has_logger (construct address n logging mode) = logging"
  by (simp_all add: construct_def Let_def set_size_def set_next_ptr_def)

lemma sorted_payloads_bounds:
  "sorted_rep s bs \<Longrightarrow> (p, m) \<in> sorted_payloads s bs \<Longrightarrow>
     trusted s + allocator_meta + block_meta \<le> p \<and> p + m \<le> trusted s + allocator_meta + block_meta + space_size s"
  using blocks_at_bounds [of _ m True "trusted s + allocator_meta" bs]
  by (fastforce simp: sorted_payloads_def sorted_rep_def)


text \<open>Deallocating an occupied block merges it with the free blocks on either side; the blocks tile the
  memory again, no two free blocks are neighbours, and the free list is sorted by address.\<close>
theorem sorted_deallocate:
  assumes "sorted_rep s (xs @ (n, True) # ys)"
  shows "\<exists>s'. do_deallocate_sm s (trusted s + allocator_meta + span xs + block_meta) = Some (Inr s') \<and>
    sorted_rep s' (release xs n ys)"
  using sorted_deallocate_spec [OF assms] by blast

lemma release_carve:
  assumes "no_free_pair (xs @ (m, False) # ys)" "n + block_meta \<le> m"
  shows "\<exists>k rest. carve n m = (k, True) # rest \<and> release xs k (rest @ ys) = xs @ (m, False) # ys"
proof -
  have l: "xs = [] \<or> snd (last xs)" and y: "ys = [] \<or> snd (hd ys)"
    using assms(1) by (auto simp: successively_append_iff successively_Cons)
  have "join_right m ys = (m, False) # ys" using y by (cases ys rule: join_right_cases) auto
  then show ?thesis using l assms(2) by (auto simp: carve_def release_def)
qed



text \<open>A list of free blocks that leads to itself.\<close>

lemma for_free_loops:
  assumes "nexts s b = Some (Some b)" "sizes s b = Some n" "\<And>p. body (p, b, n) acc = (acc, False)"
  shows "for_free body s p (Some b) acc = None"
proof -
  have "for_free body s p (Some b) acc \<noteq> Some y" for y
  proof
    assume run: "for_free body s p (Some b) acc = Some y"
    have "\<not> (body = body \<and> s = s \<and> Some b = Some b \<and> acc = acc)"
    proof (rule for_free.raw_induct [where P = "\<lambda>body' s' p' it acc' y. \<not> (body' = body \<and> s' = s \<and> it = Some b \<and> acc' = acc)"])
      fix f body' s' p' it acc' y'
      assume IH: "\<And>body' s' p' it acc' y'. f body' s' p' it acc' = Some y' \<Longrightarrow> \<not> (body' = body \<and> s' = s \<and> it = Some b \<and> acc' = acc)"
        and step: "(case it of None \<Rightarrow> Some acc' | Some a \<Rightarrow> sizes s' a \<bind> (\<lambda>sz. case body' (p', a, sz) acc' of (acc'', stop) \<Rightarrow>
          if stop then Some acc'' else get_next_ptr s' it \<bind> (\<lambda>nx. f body' s' it nx acc''))) = Some y'"
      have "f body s (Some b) (Some b) acc = Some y'" if "body' = body" "s' = s" "it = Some b" "acc' = acc"
        using step assms unfolding that by (simp add: get_next_ptr_def)
      then show "\<not> (body' = body \<and> s' = s \<and> it = Some b \<and> acc' = acc)" using IH by blast
    qed (rule run)
    then show False by simp
  qed
  then show ?thesis by (cases "for_free body s p (Some b) acc") auto
qed


text \<open>A memory of 100 bytes, and one of 116 bytes holding two blocks.\<close>

definition memory100 :: sorted where "memory100 = construct 0 100 False The_best_fit"

definition memory_two :: sorted where
  "memory_two = \<lparr>sizes = [76 \<mapsto> 40, 132 \<mapsto> 60], nexts = [76 \<mapsto> Some 0, 132 \<mapsto> Some 0], trusted = 0, fit = First_fit,
     space_size = 116, first_free = nullptr, has_logger = False\<rparr>"

lemma memory100_rep: "sorted_rep memory100 [(100, False)]"
  unfolding memory100_def by (rule construct_rep) (simp add: allocator_meta_def block_meta_def)

lemma memory_two_rep: "sorted_rep memory_two [(40, True), (60, True)]"
  by (simp add: sorted_rep_def memory_two_def allocator_meta_def block_meta_def)


theorem sorted_deallocate_witness:
  "\<exists>s'. do_deallocate_sm memory_two 148 = Some (Inr s') \<and> sorted_rep s' [(40, True), (60, False)]"
  using sorted_deallocate [of memory_two "[(40, True)]" 60 "[]"] memory_two_rep
  by (simp add: release_def memory_two_def allocator_meta_def block_meta_def)




end
