(* ===== verification/BigInt.thy ===== *)
theory BigInt
  imports Main "HOL-Library.Word"
begin

text \<open>
  The signed big integers of arithmetic/big_integer (big_int.h, big_int.cpp): a sign and a vector of
  32-bit digits, least significant first. This theory holds the data, the constructors from machine
  integers and vectors, optimise, the comparison, the bit operations, the shifts, addition and
  subtraction, with the 64-bit intermediate sums and differences of the code, and their meaning on
  the integers. A \<open>for\<close> loop over an index is a \<open>fold\<close> over the list of its values; a loop over the
  digits is a recursion over the list.
\<close>

unbundle bit_operations_syntax

subsection \<open>The data\<close>

type_synonym uint32 = "32 word"
type_synonym uint64 = "64 word"

record big_int =
  sign :: bool
  digits :: "uint32 list"

definition BASE :: uint64 where
  "BASE = push_bit 32 1"

definition is_zero :: "big_int \<Rightarrow> bool" where
  "is_zero b \<longleftrightarrow> length (digits b) = 1 \<and> digits b ! 0 = 0"

function pop_zeros :: "uint32 list \<Rightarrow> uint32 list" where
  "pop_zeros ds = (if length ds > 1 \<and> last ds = 0 then pop_zeros (butlast ds) else ds)"
  by auto
termination
  by (relation "measure length") auto

declare pop_zeros.simps [simp del]

definition optimise :: "big_int \<Rightarrow> big_int" where
  "optimise b =
     (let b = b\<lparr>digits := pop_zeros (digits b)\<rparr> in
      if is_zero b then b\<lparr>sign := True\<rparr> else b)"

subsection \<open>Constructors\<close>

definition of_digits :: "uint32 list \<Rightarrow> bool \<Rightarrow> big_int" where
  "of_digits ds s = optimise \<lparr>sign = s, digits = ds @ [0]\<rparr>"

definition zero :: big_int where
  "zero = \<lparr>sign = True, digits = [0]\<rparr>"

text \<open>The digits of a 64-bit number.\<close>

function split_number :: "uint64 \<Rightarrow> uint32 list" where
  "split_number n = (if 0 < n then ucast (n mod BASE) # split_number (n div BASE) else [])"
  by auto
termination
proof (relation "measure unat")
  fix n :: uint64
  assume "0 < n"
  then have "n div BASE < n"
    by (simp add: BASE_def word_less_nat_alt unat_div unat_gt_0)
  then show "(n div BASE, n) \<in> measure unat"
    by (simp add: word_less_nat_alt)
qed simp

declare split_number.simps [simp del]

text \<open>\<open>big_int(long long)\<close> and \<open>big_int(unsigned long long)\<close>, the argument as its 64 bits.\<close>

definition of_long :: "uint64 \<Rightarrow> big_int" where
  "of_long d =
     (let number = (if d <s 0 then - d else d) in
      optimise \<lparr>sign = (0 \<le>s d), digits = split_number number @ [0]\<rparr>)"

definition of_ulong :: "uint64 \<Rightarrow> big_int" where
  "of_ulong d = optimise \<lparr>sign = True, digits = split_number d @ [0]\<rparr>"

subsection \<open>Comparison\<close>

datatype ordering = Less | Equal | Greater

definition cmp_nat :: "nat \<Rightarrow> nat \<Rightarrow> ordering" where
  "cmp_nat a b = (if a < b then Less else if a = b then Equal else Greater)"

definition cmp_digit :: "uint32 \<Rightarrow> uint32 \<Rightarrow> ordering" where
  "cmp_digit a b = (if a < b then Less else if a = b then Equal else Greater)"

text \<open>The loop from the index \<open>n - 1\<close> down to 0.\<close>

primrec cmp_loop :: "bool \<Rightarrow> uint32 list \<Rightarrow> uint32 list \<Rightarrow> nat \<Rightarrow> ordering" where
  "cmp_loop is_pos xs ys 0 = Equal"
| "cmp_loop is_pos xs ys (Suc i) =
     (if xs ! i \<noteq> ys ! i then (if is_pos then cmp_digit (xs ! i) (ys ! i) else cmp_digit (ys ! i) (xs ! i))
      else cmp_loop is_pos xs ys i)"

definition compare :: "big_int \<Rightarrow> big_int \<Rightarrow> ordering" where
  "compare this other =
     (if sign this \<noteq> sign other then (if sign this then Greater else Less)
      else
        (let is_pos = sign this in
         if length (digits this) \<noteq> length (digits other)
         then (if is_pos then cmp_nat (length (digits this)) (length (digits other))
               else cmp_nat (length (digits other)) (length (digits this)))
         else cmp_loop is_pos (digits this) (digits other) (length (digits this))))"

definition equals :: "big_int \<Rightarrow> big_int \<Rightarrow> bool" where
  "equals this other \<longleftrightarrow> Equal = compare this other"

definition to_bool :: "big_int \<Rightarrow> bool" where
  "to_bool b \<longleftrightarrow> \<not> is_zero b"

subsection \<open>Bit operations and shifts\<close>

definition resize :: "nat \<Rightarrow> uint32 list \<Rightarrow> uint32 list" where
  "resize n ds = take n ds @ replicate (n - length ds) 0"

definition bit_not :: "big_int \<Rightarrow> big_int" where
  "bit_not this = optimise (this\<lparr>digits := map (\<lambda>d. NOT d) (digits this)\<rparr>)"

definition and_assign :: "big_int \<Rightarrow> big_int \<Rightarrow> big_int" where
  "and_assign this other =
     (let min_size = min (length (digits this)) (length (digits other));
          ds = fold (\<lambda>i ds. ds[i := ds ! i AND digits other ! i]) [0..<min_size]
                 (resize min_size (digits this))
      in optimise (this\<lparr>digits := ds\<rparr>))"

definition or_assign :: "big_int \<Rightarrow> big_int \<Rightarrow> big_int" where
  "or_assign this other =
     (let max_size = max (length (digits this)) (length (digits other));
          ds = fold (\<lambda>i ds. ds[i := ds ! i OR (if i < length (digits other) then digits other ! i else 0)])
                 [0..<max_size] (resize max_size (digits this))
      in optimise (this\<lparr>digits := ds\<rparr>))"

definition xor_assign :: "big_int \<Rightarrow> big_int \<Rightarrow> big_int" where
  "xor_assign this other =
     (let max_size = max (length (digits this)) (length (digits other));
          ds = fold (\<lambda>i ds. ds[i := ds ! i XOR (if i < length (digits other) then digits other ! i else 0)])
                 [0..<max_size] (resize max_size (digits this))
      in optimise (this\<lparr>digits := ds\<rparr>))"

primrec shl_loop :: "nat \<Rightarrow> uint32 list \<Rightarrow> uint64 \<Rightarrow> uint32 list \<times> uint64" where
  "shl_loop bit_shift [] carry = ([], carry)"
| "shl_loop bit_shift (d # ds) carry =
     (let v = push_bit bit_shift (ucast d) OR carry;
          (ds', carry') = shl_loop bit_shift ds (v div BASE)
      in (ucast (v mod BASE) # ds', carry'))"

definition shl_assign :: "big_int \<Rightarrow> nat \<Rightarrow> big_int" where
  "shl_assign this shift =
     (if shift = 0 \<or> (length (digits this) = 1 \<and> digits this ! 0 = 0) then this
      else
        (let int_shift = shift div 32;
             bit_shift = shift mod 32;
             ds = (if int_shift > 0 then replicate int_shift 0 @ digits this else digits this);
             ds = (if bit_shift > 0 then
                     (let (ds', carry) = shl_loop bit_shift ds 0
                      in if carry > 0 then ds' @ [ucast carry] else ds')
                   else ds)
         in optimise (this\<lparr>digits := ds\<rparr>)))"

text \<open>The loop from the most significant digit down: the carry comes from the digits above.\<close>

primrec shr_loop :: "nat \<Rightarrow> uint32 list \<Rightarrow> uint32 list \<times> uint64" where
  "shr_loop bit_shift [] = ([], 0)"
| "shr_loop bit_shift (d # ds) =
     (let (ds', carry) = shr_loop bit_shift ds;
          v = push_bit 32 carry OR ucast d
      in (ucast (drop_bit bit_shift v) # ds', v AND (push_bit bit_shift 1 - 1)))"

definition shr_assign :: "big_int \<Rightarrow> nat \<Rightarrow> big_int" where
  "shr_assign this shift =
     (if shift = 0 \<or> (length (digits this) = 1 \<and> digits this ! 0 = 0) then this
      else
        (let int_shift = shift div 32; bit_shift = shift mod 32 in
         if int_shift \<ge> length (digits this) then optimise (this\<lparr>digits := [0]\<rparr>)
         else
           (let ds = (if int_shift > 0 then drop int_shift (digits this) else digits this);
                ds = (if bit_shift > 0 then fst (shr_loop bit_shift ds) else ds)
            in optimise (this\<lparr>digits := ds\<rparr>))))"

subsection \<open>Addition and subtraction\<close>

definition add_step :: "uint32 list \<Rightarrow> nat \<Rightarrow> nat \<Rightarrow> uint32 list \<times> uint64 \<Rightarrow> uint32 list \<times> uint64" where
  "add_step other shift i s =
     (let (ds, carry) = s;
          sum = carry;
          sum = (if i < length ds then sum + ucast (ds ! i) else sum);
          sum = (if i \<ge> shift \<and> i - shift < length other then sum + ucast (other ! (i - shift)) else sum)
      in (ds[i := ucast (sum mod BASE)], sum div BASE))"

text \<open>One digit of the difference; \<open>borrow\<close> is the long long 0 or -1.\<close>

definition sub_step :: "uint32 list \<Rightarrow> uint32 list \<Rightarrow> nat \<Rightarrow> uint32 list \<times> uint64 \<Rightarrow> uint32 list \<times> uint64" where
  "sub_step this other i s =
     (let (result, borrow) = s;
          difference = borrow;
          difference = (if i < length this then difference + ucast (this ! i) else difference);
          difference = (if i < length other then difference - ucast (other ! i) else difference);
          (difference, borrow) = (if difference <s 0 then (difference + BASE, - 1) else (difference, 0))
      in (result[i := ucast difference], borrow))"

function plus_assign :: "big_int \<Rightarrow> big_int \<Rightarrow> nat \<Rightarrow> big_int"
  and minus_assign :: "big_int \<Rightarrow> big_int \<Rightarrow> nat \<Rightarrow> big_int" where
  "plus_assign this other shift =
     (if length (digits other) = 1 \<and> digits other ! 0 = 0 then this
      else
        (let this =
           (if sign this = sign other then
              (let max_size = max (length (digits this)) (length (digits other) + shift);
                   (ds, carry) = fold (add_step (digits other) shift) [0..<max_size]
                                   (resize max_size (digits this), 0);
                   ds = (if carry > 0 then ds @ [ucast carry] else ds)
               in this\<lparr>digits := ds\<rparr>)
            else minus_assign this (other\<lparr>sign := sign this\<rparr>) shift);
             this = optimise this
         in if is_zero this then this\<lparr>sign := True\<rparr> else this))"
| "minus_assign this other shift =
     (if is_zero other then this
      else if sign this \<noteq> sign other then plus_assign this (other\<lparr>sign := sign this\<rparr>) shift
      else
        (let abs_this = this\<lparr>sign := True\<rparr>;
             abs_other = shl_assign (other\<lparr>sign := True\<rparr>) shift;
             less = (compare abs_this abs_other = Less);
             result_sign = (if less then \<not> sign this else sign this);
             (a, b) = (if less then (digits abs_other, digits abs_this) else (digits abs_this, digits abs_other));
             max_size = max (length a) (length b);
             (result, _) = fold (sub_step a b) [0..<max_size] (replicate max_size 0, 0);
             this = optimise (this\<lparr>digits := result, sign := result_sign\<rparr>)
         in if is_zero this then this\<lparr>sign := True\<rparr> else this))"
  by pat_completeness auto
termination
  by (relation "measure (\<lambda>x. case x of Inl (a, b, _) \<Rightarrow> if sign a = sign b then 0 else 1
                                     | Inr (a, b, _) \<Rightarrow> if sign a = sign b then 0 else 1)") auto

declare plus_assign.simps [simp del] minus_assign.simps [simp del]

definition plus :: "big_int \<Rightarrow> big_int \<Rightarrow> big_int" where
  "plus this other = plus_assign this other 0"

definition minus :: "big_int \<Rightarrow> big_int \<Rightarrow> big_int" where
  "minus this other = minus_assign this other 0"

definition increment :: "big_int \<Rightarrow> big_int" where
  "increment this = plus this (of_long 1)"

definition decrement :: "big_int \<Rightarrow> big_int" where
  "decrement this = minus this (of_long 1)"

subsection \<open>The number a digit vector denotes\<close>

abbreviation B :: int where
  "B \<equiv> 4294967296"

primrec val :: "uint32 list \<Rightarrow> int" where
  "val [] = 0"
| "val (d # ds) = uint d + B * val ds"

definition "value" :: "big_int \<Rightarrow> int" where
  "value b = (if sign b then val (digits b) else - val (digits b))"

definition dig :: "uint32 list \<Rightarrow> nat \<Rightarrow> int" where
  "dig ds j = (if j < length ds then uint (ds ! j) else 0)"

definition normal :: "uint32 list \<Rightarrow> bool" where
  "normal ds \<longleftrightarrow> ds \<noteq> [] \<and> (1 < length ds \<longrightarrow> last ds \<noteq> 0)"

definition wf :: "big_int \<Rightarrow> bool" where
  "wf b \<longleftrightarrow> normal (digits b) \<and> (digits b = [0] \<longrightarrow> sign b)"

lemma BASE_numeral: "BASE = 4294967296"
  by (simp add: BASE_def push_bit_eq_mult)

lemma uint_ucast [simp]: "uint (ucast (d :: uint32) :: uint64) = uint d"
  by (rule uint_up_ucast) (simp add: is_up)

lemma uint32_bounds: "0 \<le> uint (d :: uint32) \<and> uint d < B"
  using uint_lt2p [of d] by simp

lemma le_div_int: "0 < d \<Longrightarrow> q \<le> n div d \<longleftrightarrow> q * d \<le> (n :: int)"
proof
  assume d: "0 < d" and "q \<le> n div d"
  then have "q * d \<le> n div d * d" by (intro mult_right_mono) simp_all
  also have "\<dots> \<le> n" using pos_mod_sign [OF d, of n] div_mult_mod_eq [of n d] by linarith
  finally show "q * d \<le> n" .
next
  assume "0 < d" "q * d \<le> n"
  then show "q \<le> n div d" using zdiv_mono1 [of "q * d" n d] by simp
qed

lemma digit_pos: "(d :: uint32) \<noteq> 0 \<Longrightarrow> 1 \<le> uint d"
  using uint32_bounds [of d] by (metis int_one_le_iff_zero_less order_le_less uint_0_iff)

lemma uint_low: "uint (ucast (x mod BASE :: uint64) :: uint32) = uint x mod B"
  by (simp add: BASE_numeral unsigned_ucast_eq uint_mod_distrib take_bit_eq_mod)

lemma uint_high: "uint (x div BASE :: uint64) = uint x div B"
  by (simp add: BASE_numeral uint_div_distrib)

lemma val_append: "val (xs @ ys) = val xs + B ^ length xs * val ys"
  by (induction xs) (simp_all add: algebra_simps)

lemma val_replicate [simp]: "val (replicate n 0) = 0"
  by (induction n) simp_all

lemma val_nonneg [simp]: "0 \<le> val ds"
  by (induction ds) simp_all

lemma val_less: "val ds < B ^ length ds"
proof (induction ds)
  case (Cons d ds)
  have "uint d + B * val ds < B + B * val ds" using uint32_bounds [of d] by simp
  also have "\<dots> = B * (val ds + 1)" by simp
  also have "\<dots> \<le> B * B ^ length ds" using Cons by (intro mult_left_mono) simp_all
  finally show ?case by simp
qed simp

lemma dig_Cons [simp]: "dig (d # ds) 0 = uint d" "dig (d # ds) (Suc j) = dig ds j"
  by (simp_all add: dig_def)

lemma dig_bounds: "0 \<le> dig ds j" "dig ds j < B"
  using uint32_bounds by (simp_all add: dig_def)

lemma val_sum: "length ds \<le> n \<Longrightarrow> val ds = (\<Sum>j<n. dig ds j * B ^ j)"
proof (induction ds arbitrary: n)
  case Nil
  then show ?case by (simp add: dig_def)
next
  case (Cons d ds)
  then obtain m where n: "n = Suc m" by (cases n) auto
  with Cons have "val ds = (\<Sum>j<m. dig ds j * B ^ j)" by simp
  then show ?case unfolding n sum.lessThan_Suc_shift by (simp add: sum_distrib_left algebra_simps)
qed

lemma val_resize: "length ds \<le> n \<Longrightarrow> val (resize n ds) = val ds"
  by (simp add: resize_def val_append)

lemma length_resize [simp]: "length (resize n ds) = n"
  by (simp add: resize_def)

lemma dig_resize: "length ds \<le> n \<Longrightarrow> dig (resize n ds) j = dig ds j"
  by (auto simp: resize_def dig_def nth_append)

subsection \<open>Normal forms\<close>

lemma pop_zeros_val [simp]: "val (pop_zeros ds) = val ds"
proof (induction ds rule: pop_zeros.induct)
  case (1 ds)
  show ?case
  proof (cases "1 < length ds \<and> last ds = 0")
    case True
    then have "ds = butlast ds @ [0]" by (metis append_butlast_last_id list.size(3) not_one_less_zero)
    then have "val ds = val (butlast ds)" by (metis add.right_neutral mult_zero_right val.simps val_append unsigned_0)
    then show ?thesis using 1 True by (simp add: pop_zeros.simps [of ds])
  next
    case False
    then show ?thesis by (subst pop_zeros.simps) auto
  qed
qed

lemma pop_zeros_normal: "ds \<noteq> [] \<Longrightarrow> normal (pop_zeros ds)"
proof (induction ds rule: pop_zeros.induct)
  case (1 ds)
  show ?case
  proof (cases "1 < length ds \<and> last ds = 0")
    case True
    then have "butlast ds \<noteq> []" by (metis One_nat_def length_butlast list.size(3) zero_less_diff less_numeral_extra(3))
    then show ?thesis using 1 True by (simp add: pop_zeros.simps [of ds])
  qed (use 1(2) in \<open>subst pop_zeros.simps, auto simp: normal_def\<close>)
qed

lemma is_zero_digits: "is_zero b \<longleftrightarrow> digits b = [0]"
  by (auto simp: is_zero_def length_Suc_conv)

lemma optimise_wf: "digits b \<noteq> [] \<Longrightarrow> wf (optimise b)"
  using pop_zeros_normal [of "digits b"] by (auto simp: optimise_def wf_def Let_def is_zero_digits)

lemma optimise_value [simp]: "value (optimise b) = value b"
  using pop_zeros_val [of "digits b"]
  by (auto simp: optimise_def value_def Let_def is_zero_digits simp del: pop_zeros_val)

lemma normal_zero [simp]: "normal [0]"
  by (simp add: normal_def)

lemma wf_zero [simp]: "wf zero" "value zero = 0"
  by (simp_all add: wf_def zero_def value_def)

lemma normal_lower: "normal ds \<Longrightarrow> 1 < length ds \<Longrightarrow> B ^ (length ds - 1) \<le> val ds"
proof -
  assume n: "normal ds" "1 < length ds"
  then have "ds = butlast ds @ [last ds]" "last ds \<noteq> 0" by (auto simp: normal_def)
  then have e: "val ds = val (butlast ds) + B ^ (length ds - 1) * uint (last ds)"
    by (metis length_butlast mult_zero_right val.simps val_append add.right_neutral)
  have "1 \<le> uint (last ds)" using \<open>last ds \<noteq> 0\<close> by (rule digit_pos)
  then have "B ^ (length ds - 1) * 1 \<le> B ^ (length ds - 1) * uint (last ds)" by (intro mult_left_mono) simp_all
  then show ?thesis unfolding e using val_nonneg [of "butlast ds"] by linarith
qed

lemma val_zero_normal: "normal ds \<Longrightarrow> val ds = 0 \<longleftrightarrow> ds = [0]"
proof
  assume n: "normal ds" and v: "val ds = 0"
  have "\<not> 1 < length ds"
  proof
    assume l: "1 < length ds"
    have "0 < B ^ (length ds - 1)" by simp
    then show False using normal_lower [OF n l] v by linarith
  qed
  then obtain d where "ds = [d]" using n by (cases ds) (auto simp: normal_def)
  then show "ds = [0]" using v by (simp add: uint_0_iff)
qed simp

lemma wf_sign: "wf b \<Longrightarrow> sign b \<longleftrightarrow> 0 \<le> value b"
  using val_zero_normal [of "digits b"] order_antisym [OF _ val_nonneg [of "digits b"]]
  by (auto simp: wf_def value_def)

lemma wf_is_zero: "wf b \<Longrightarrow> is_zero b \<longleftrightarrow> value b = 0"
  using val_zero_normal [of "digits b"] by (auto simp: wf_def value_def is_zero_digits)

subsection \<open>Comparison\<close>

definition cmp_int :: "int \<Rightarrow> int \<Rightarrow> ordering" where
  "cmp_int a b = (if a < b then Less else if a = b then Equal else Greater)"

lemma cmp_int_neg: "cmp_int (- a) (- b) = cmp_int b a"
  by (auto simp: cmp_int_def)

lemma cmp_digit_int: "cmp_digit a b = cmp_int (uint a) (uint b)"
  by (simp add: cmp_digit_def cmp_int_def word_less_def word_uint_eq_iff)

lemma val_take_Suc: "n < length ds \<Longrightarrow> val (take (Suc n) ds) = val (take n ds) + B ^ n * uint (ds ! n)"
  by (simp add: take_Suc_conv_app_nth val_append)

lemma digit_decides:
  assumes "a < b" "0 \<le> r" "r < M" "0 \<le> s" "s < (M::int)"
  shows "r + M * a < s + M * b"
proof -
  have "r + M * a < M * (a + 1)" using assms by (simp add: algebra_simps)
  also have "\<dots> \<le> M * b" using assms by (intro mult_left_mono) simp_all
  finally show ?thesis using assms by simp
qed

lemma cmp_loop_val:
  "n \<le> length xs \<Longrightarrow> n \<le> length ys \<Longrightarrow>
   cmp_loop p xs ys n = (if p then cmp_int (val (take n xs)) (val (take n ys))
                          else cmp_int (val (take n ys)) (val (take n xs)))"
proof (induction n)
  case 0
  then show ?case by (simp add: cmp_int_def)
next
  case (Suc n)
  have b: "val (take n xs) < B ^ n" "val (take n ys) < B ^ n"
    using val_less [of "take n xs"] val_less [of "take n ys"] Suc.prems by simp_all
  have ne: "xs ! n \<noteq> ys ! n \<longleftrightarrow> uint (xs ! n) < uint (ys ! n) \<or> uint (ys ! n) < uint (xs ! n)"
    by (metis linorder_neq_iff word_uint_eq_iff)
  have l: "uint (xs ! n) < uint (ys ! n) \<Longrightarrow> val (take (Suc n) xs) < val (take (Suc n) ys)"
    "uint (ys ! n) < uint (xs ! n) \<Longrightarrow> val (take (Suc n) ys) < val (take (Suc n) xs)"
    using digit_decides [OF _ val_nonneg b(1) val_nonneg b(2)]
      digit_decides [OF _ val_nonneg b(2) val_nonneg b(1)] Suc.prems by (simp_all add: val_take_Suc)
  show ?case
  proof (cases "xs ! n = ys ! n")
    case True
    then show ?thesis using Suc by (simp add: val_take_Suc cmp_int_def)
  next
    case False
    then show ?thesis using l ne by (auto simp: cmp_digit_int cmp_int_def)
  qed
qed

lemma shorter_less:
  assumes "normal xs" "normal ys" "length xs < length ys"
  shows "val xs < val ys"
proof -
  have "xs \<noteq> []" using assms(1) by (simp add: normal_def)
  then have l: "1 < length ys" using assms(3) by (cases xs) auto
  have "val xs < B ^ length xs" by (rule val_less)
  also have "\<dots> \<le> B ^ (length ys - 1)" using assms(3) by (intro power_increasing) simp_all
  also have "\<dots> \<le> val ys" by (rule normal_lower [OF assms(2) l])
  finally show ?thesis .
qed

lemma compare_value:
  assumes "wf a" "wf b"
  shows "compare a b = cmp_int (value a) (value b)"
proof -
  have n: "normal (digits a)" "normal (digits b)" using assms by (simp_all add: wf_def)
  consider "sign a \<noteq> sign b" | "sign a = sign b" "length (digits a) \<noteq> length (digits b)"
    | "sign a = sign b" "length (digits a) = length (digits b)" by blast
  then show ?thesis
  proof cases
    case 1
    then show ?thesis using wf_sign [OF assms(1)] wf_sign [OF assms(2)] by (auto simp: compare_def cmp_int_def)
  next
    case 2
    then show ?thesis using shorter_less [OF n] shorter_less [OF n(2,1)]
      by (auto simp: compare_def cmp_int_def cmp_nat_def Let_def value_def)
  next
    case 3
    then show ?thesis
      by (simp add: compare_def Let_def cmp_loop_val value_def cmp_int_neg)
  qed
qed

lemma equals_value: "wf a \<Longrightarrow> wf b \<Longrightarrow> equals a b \<longleftrightarrow> value a = value b"
  by (auto simp: equals_def compare_value cmp_int_def)

lemma cmp_int_eq [simp]: "cmp_int a b = Less \<longleftrightarrow> a < b" "cmp_int a b = Equal \<longleftrightarrow> a = b"
  "cmp_int a b = Greater \<longleftrightarrow> b < a"
  by (auto simp: cmp_int_def)

text \<open>A well-formed number is determined by its value.\<close>

lemma normal_unique: "normal xs \<Longrightarrow> normal ys \<Longrightarrow> val xs = val ys \<Longrightarrow> xs = ys"
proof -
  assume n: "normal xs" "normal ys" and v: "val xs = val ys"
  then have "length xs = length ys" using shorter_less [of xs ys] shorter_less [of ys xs] by linarith
  then show ?thesis using v
  proof (induction xs ys rule: list_induct2)
    case (Cons x xs y ys)
    have e: "uint x + B * val xs = uint y + B * val ys" using Cons.prems by simp
    have "(uint x + B * val xs) mod B = uint x mod B" "(uint y + B * val ys) mod B = uint y mod B"
      by simp_all
    then have "uint x mod B = uint y mod B" unfolding e by simp
    moreover have "uint x mod B = uint x" "uint y mod B = uint y"
      using uint32_bounds [of x] uint32_bounds [of y] by (metis mod_pos_pos_trivial)+
    ultimately have u: "uint x = uint y" by simp
    then have "val xs = val ys" using e by simp
    then show ?case using Cons.IH u by (simp add: word_uint_eq_iff)
  qed simp
qed

lemma wf_unique: "wf a \<Longrightarrow> wf b \<Longrightarrow> value a = value b \<Longrightarrow> a = b"
proof -
  assume w: "wf a" "wf b" and v: "value a = value b"
  then have s: "sign a = sign b" using wf_sign [OF w(1)] wf_sign [OF w(2)] by simp
  then have "val (digits a) = val (digits b)" using v by (simp add: value_def split: if_splits)
  then have "digits a = digits b" using w normal_unique [of "digits a" "digits b"] by (simp add: wf_def)
  with s show "a = b" by simp
qed

subsection \<open>The order of the numbers\<close>

text \<open>The comparison of two numbers in normal form is the order of the integers they denote, and two
  numbers that compare equal have the same sign and the same digits.\<close>
theorem compare_is_integer_order:
  assumes "wf a" "wf b"
  shows "(compare a b = Less \<longleftrightarrow> value a < value b) \<and> (compare a b = Greater \<longleftrightarrow> value b < value a) \<and>
         (equals a b \<longleftrightarrow> value a = value b) \<and> (equals a b \<longleftrightarrow> a = b)"
  using compare_value [OF assms] equals_value [OF assms] wf_unique [OF assms] by auto

theorem compare_is_integer_order_witness:
  "compare \<lparr>sign = False, digits = [0, 1]\<rparr> \<lparr>sign = False, digits = [7]\<rparr> = Less"
  using compare_is_integer_order [of "\<lparr>sign = False, digits = [0, 1]\<rparr>" "\<lparr>sign = False, digits = [7]\<rparr>"]
  by (simp add: wf_def normal_def value_def)

end
