(* ===== verification/BigIntAdd.thy ===== *)
theory BigIntAdd
  imports BigInt
begin

text \<open>
  Addition, subtraction, the comparison and the shifts of big_int compute with the integers the
  numbers denote: the 64-bit sums, differences and carries of the loops never wrap, and every result is
  normalised.
\<close>

subsection \<open>Addition of magnitudes\<close>

lemma val_take_dig: "val (take (Suc n) ds) = val (take n ds) + B ^ n * dig ds n"
  by (cases "n < length ds") (simp_all add: val_take_Suc dig_def)

text \<open>The digit of the second operand that position \<open>j\<close> of the sum takes.\<close>

definition shifted :: "nat \<Rightarrow> uint32 list \<Rightarrow> nat \<Rightarrow> int" where
  "shifted shift ds j = (if shift \<le> j then dig ds (j - shift) else 0)"

lemma shifted_bounds: "0 \<le> shifted k ds j" "shifted k ds j < B"
  using dig_bounds [of ds] by (simp_all add: shifted_def)

lemma shifted_take_Suc:
  "B ^ k * val (take (Suc n - k) ds) = B ^ k * val (take (n - k) ds) + B ^ n * shifted k ds n"
proof (cases "k \<le> n")
  case True
  then have "Suc n - k = Suc (n - k)" "B ^ n = B ^ k * B ^ (n - k)"
    by (simp_all add: power_add [symmetric])
  then show ?thesis using True by (simp only: val_take_dig) (simp add: shifted_def algebra_simps)
qed (simp add: shifted_def)

text \<open>The 64-bit sum of a carry and two digits does not wrap.\<close>

lemma uint_add3:
  assumes "uint (c :: uint64) \<le> 1" "uint x < B" "uint y < B"
  shows "uint (c + x + y) = uint c + uint x + uint y"
proof -
  have "uint (c + x) = uint c + uint x"
    using assms by (intro iffD1 [OF uint_add_lem]) simp
  moreover from this have "uint (c + x + y) = uint (c + x) + uint y"
    using assms by (intro iffD1 [OF uint_add_lem]) simp
  ultimately show ?thesis by simp
qed

definition opt_digit :: "bool \<Rightarrow> uint32 \<Rightarrow> uint64" where
  "opt_digit c d = (if c then ucast d else 0)"

lemma opt_digit_bounds: "0 \<le> uint (opt_digit c d)" "uint (opt_digit c d) < B"
  using uint32_bounds [of d] by (simp_all add: opt_digit_def)

lemma add_step_spec:
  assumes "add_step other k i (ds, carry) = (ds', carry')" "uint carry \<le> 1" "i < length ds"
  shows "ds' = ds[i := ds' ! i] \<and> uint carry' \<le> 1 \<and>
         uint (ds' ! i) + B * uint carry' = uint carry + dig ds i + shifted k other i"
proof -
  define x y where "x = opt_digit (i < length ds) (ds ! i)"
    and "y = opt_digit (k \<le> i \<and> i - k < length other) (other ! (i - k))"
  have xy: "uint x = dig ds i" "uint y = shifted k other i"
    by (simp_all add: x_def y_def opt_digit_def dig_def shifted_def)
  have s: "add_step other k i (ds, carry) =
      (ds[i := ucast ((carry + x + y) mod BASE)], (carry + x + y) div BASE)"
    by (simp add: add_step_def Let_def x_def y_def opt_digit_def)
  have u: "uint (carry + x + y) = uint carry + dig ds i + shifted k other i"
    unfolding xy [symmetric] x_def y_def by (rule uint_add3 [OF assms(2)]) (rule opt_digit_bounds)+
  have "ds' ! i = ucast ((carry + x + y) mod BASE)" "ds' = ds[i := ds' ! i]"
    "carry' = (carry + x + y) div BASE"
    using assms(1,3) unfolding s by auto
  then show ?thesis
    using u assms(2) dig_bounds [of ds i] shifted_bounds [of k other i] by (simp add: uint_low uint_high)
qed

lemma add_fold_spec:
  assumes "n \<le> length ds" "fold (add_step other k) [0..<n] (ds, 0) = (ds', carry)"
  shows "length ds' = length ds \<and> drop n ds' = drop n ds \<and> uint carry \<le> 1 \<and>
         val (take n ds') + B ^ n * uint carry = val (take n ds) + B ^ k * val (take (n - k) other)"
  using assms
proof (induction n arbitrary: ds' carry)
  case (Suc n)
  obtain ds1 c1 where f: "fold (add_step other k) [0..<n] (ds, 0) = (ds1, c1)" by fastforce
  then have st: "add_step other k n (ds1, c1) = (ds', carry)" using Suc.prems by simp
  have IH: "length ds1 = length ds" "drop n ds1 = drop n ds" "uint c1 \<le> 1"
    "val (take n ds1) + B ^ n * uint c1 = val (take n ds) + B ^ k * val (take (n - k) other)"
    using Suc.IH [OF _ f] Suc.prems(1) by simp_all
  have l: "n < length ds1" using IH(1) Suc.prems(1) by simp
  have "dig ds1 n = dig ds n"
    using IH(1,2) l by (metis (no_types) dig_def hd_drop_conv_nth)
  moreover have sp: "ds' = ds1[n := ds' ! n]" "uint carry \<le> 1"
    "uint (ds' ! n) + B * uint carry = uint c1 + dig ds1 n + shifted k other n"
    using add_step_spec [OF st IH(3) l] by simp_all
  moreover have len: "length ds' = length ds1" using sp(1) by (metis length_list_update)
  moreover have "take n ds' = take n ds1" "drop (Suc n) ds' = drop (Suc n) ds1"
    using sp(1) by (metis le_refl take_update_cancel) (metis sp(1) drop_update_cancel lessI)
  moreover have "drop (Suc n) ds1 = drop (Suc n) ds" using IH(2) by (metis drop_Suc drop_tl tl_drop)
  moreover have "val (take (Suc n) ds') + B ^ Suc n * uint carry =
      val (take n ds') + B ^ n * (uint (ds' ! n) + B * uint carry)"
    using len l by (simp add: val_take_Suc algebra_simps)
  ultimately show ?case
    using IH(1,4) by (simp add: shifted_take_Suc [of k n other, unfolded mult.commute [of "B ^ k"]] val_take_dig [of n ds] algebra_simps)
qed simp

lemma add_magnitudes:
  assumes "m = max (length xs) (length ys + k)"
    and "fold (add_step ys k) [0..<m] (resize m xs, 0) = (ds, carry)"
  shows "val (if carry > 0 then ds @ [ucast carry] else ds) = val xs + B ^ k * val ys \<and> length ds = m"
proof -
  have s: "length ds = m" "uint carry \<le> 1"
    "val (take m ds) + B ^ m * uint carry = val (take m (resize m xs)) + B ^ k * val (take (m - k) ys)"
    using add_fold_spec [of m "resize m xs", OF _ assms(2)] unfolding length_resize by blast+
  have v: "val ds + B ^ m * uint carry = val xs + B ^ k * val ys"
  proof -
    have "length xs \<le> m" "length ys \<le> m - k" using assms(1) by simp_all
    then show ?thesis using s by (simp add: val_resize)
  qed
  have u: "uint (ucast carry :: uint32) = uint carry"
    using s(2) by (simp add: unsigned_ucast_eq take_bit_eq_mod)
  show ?thesis
  proof (cases "0 < carry")
    case True
    then show ?thesis using v s(1) u by (simp add: val_append)
  next
    case False
    then have "carry = 0" by (simp add: word_gt_0)
    then show ?thesis using v s(1) by simp
  qed
qed

subsection \<open>Subtraction of magnitudes\<close>

lemma sint_small: "- B - 1 \<le> d \<Longrightarrow> d \<le> B \<Longrightarrow> sint (word_of_int d :: uint64) = d"
  by (subst sint_sbintrunc') (rule signed_take_bit_int_eq_self, simp_all)

lemma sless_zero: "- B - 1 \<le> d \<Longrightarrow> d \<le> B \<Longrightarrow> (word_of_int d :: uint64) <s 0 \<longleftrightarrow> d < 0"
  by (simp add: word_sless_alt sint_small)

lemma ucast_of_int: "(ucast (d :: uint32) :: uint64) = word_of_int (uint d)"
  by simp

lemma low_of_int: "0 \<le> e \<Longrightarrow> e < B \<Longrightarrow> uint (ucast (word_of_int e :: uint64) :: uint32) = e"
  by (simp add: unsigned_ucast_eq uint_word_of_int_eq take_bit_int_eq_self)

text \<open>The borrow as the number taken from the next digit.\<close>

definition borrowed :: "uint64 \<Rightarrow> int" where
  "borrowed b = (if b = 0 then 0 else 1)"

lemma sub_step_spec:
  assumes "sub_step xs ys i (ds, bw) = (ds', bw')" "bw = word_of_int (- borrowed bw)" "i < length ds"
  shows "ds' = ds[i := ds' ! i] \<and> bw' = word_of_int (- borrowed bw') \<and>
         uint (ds' ! i) - B * borrowed bw' = dig xs i - dig ys i - borrowed bw"
proof -
  define d where "d = dig xs i - dig ys i - borrowed bw"
  have b: "borrowed bw = 0 \<or> borrowed bw = 1" by (simp add: borrowed_def)
  then have r: "- B - 1 \<le> d" "d \<le> B" "- B \<le> d" "d < B"
    using dig_bounds [of xs i] dig_bounds [of ys i] by (auto simp: d_def)
  have df: "(let difference = bw;
          difference = (if i < length xs then difference + ucast (xs ! i) else difference)
      in (if i < length ys then difference - ucast (ys ! i) else difference)) = (word_of_int d :: uint64)"
    by (subst assms(2)) (simp add: d_def dig_def Let_def)
  show ?thesis
  proof (cases "d < 0")
    case True
    have "sub_step xs ys i (ds, bw) = (ds[i := ucast (word_of_int (d + B) :: uint64)], - 1)"
      using df True sless_zero [OF r(1,2)] by (simp add: sub_step_def Let_def BASE_numeral)
    then show ?thesis using assms(1,3) r True low_of_int [of "d + B"]
      by (auto simp: borrowed_def d_def)
  next
    case False
    have "sub_step xs ys i (ds, bw) = (ds[i := ucast (word_of_int d :: uint64)], 0)"
      using df False sless_zero [OF r(1,2)] by (simp add: sub_step_def Let_def)
    then show ?thesis using assms(1,3) r False low_of_int [of d]
      by (auto simp: borrowed_def d_def)
  qed
qed

lemma sub_fold_spec:
  assumes "n \<le> length ds" "fold (sub_step xs ys) [0..<n] (ds, 0) = (ds', bw)"
  shows "length ds' = length ds \<and> bw = word_of_int (- borrowed bw) \<and>
         val (take n ds') - B ^ n * borrowed bw = val (take n xs) - val (take n ys)"
  using assms
proof (induction n arbitrary: ds' bw)
  case (Suc n)
  obtain ds1 c1 where f: "fold (sub_step xs ys) [0..<n] (ds, 0) = (ds1, c1)" by fastforce
  then have st: "sub_step xs ys n (ds1, c1) = (ds', bw)" using Suc.prems by simp
  have IH: "length ds1 = length ds" "c1 = word_of_int (- borrowed c1)"
    "val (take n ds1) - B ^ n * borrowed c1 = val (take n xs) - val (take n ys)"
    using Suc.IH [OF _ f] Suc.prems(1) by simp_all
  have l: "n < length ds1" using IH(1) Suc.prems(1) by simp
  have sp: "ds' = ds1[n := ds' ! n]" "bw = word_of_int (- borrowed bw)"
    "uint (ds' ! n) - B * borrowed bw = dig xs n - dig ys n - borrowed c1"
    using sub_step_spec [OF st IH(2) l] by simp_all
  have len: "length ds' = length ds1" using sp(1) by (metis length_list_update)
  have t: "take n ds' = take n ds1" using sp(1) by (metis le_refl take_update_cancel)
  have "val (take (Suc n) ds') - B ^ Suc n * borrowed bw =
      val (take n ds') + B ^ n * (uint (ds' ! n) - B * borrowed bw)"
    using len l by (simp add: val_take_Suc algebra_simps)
  also have "\<dots> = val (take n ds1) - B ^ n * borrowed c1 + B ^ n * dig xs n - B ^ n * dig ys n"
    unfolding sp(3) t by (simp add: algebra_simps)
  finally show ?case using IH(1,3) sp(2) len by (simp add: val_take_dig)
qed (simp add: borrowed_def)

lemma sub_magnitudes:
  assumes "val ys \<le> val xs" "m = max (length xs) (length ys)"
    and "fold (sub_step xs ys) [0..<m] (replicate m 0, 0) = (ds, bw)"
  shows "val ds = val xs - val ys \<and> length ds = m"
proof -
  have s: "length ds = m" "val (take m ds) - B ^ m * borrowed bw = val (take m xs) - val (take m ys)"
    using sub_fold_spec [of m "replicate m 0", OF _ assms(3)] unfolding length_replicate by blast+
  have v: "val ds - B ^ m * borrowed bw = val xs - val ys"
    using s assms(2) by simp
  have "borrowed bw = 0"
  proof (rule ccontr)
    assume "borrowed bw \<noteq> 0"
    then have "val ds = B ^ m + (val xs - val ys)" using v by (simp add: borrowed_def split: if_splits)
    then show False using val_less [of ds] s(1) assms(1) by simp
  qed
  then show ?thesis using v s(1) by simp
qed

subsection \<open>Left shift\<close>

lemma push_or_carry:
  assumes "s < 32" "uint (c :: uint64) < 2 ^ s"
  shows "uint (push_bit s (ucast (d :: uint32)) OR c) = 2 ^ s * uint d + uint c"
proof -
  have z: "push_bit s (uint d) AND uint c = 0"
  proof (rule bit_eqI)
    fix n
    have "take_bit s (uint c) = uint c" using assms(2) by (simp add: take_bit_int_eq_self)
    then have "bit (uint c) n \<Longrightarrow> n < s" by (metis bit_take_bit_iff)
    then show "bit (push_bit s (uint d) AND uint c) n = bit 0 n" by (auto simp: bit_and_iff bit_push_bit_iff)
  qed
  have "uint d < 2 ^ 32" using uint32_bounds [of d] by simp
  then have "2 ^ s * uint d < 2 ^ s * (2 ^ 32 :: int)" by simp
  also have "\<dots> \<le> 2 ^ 31 * 2 ^ 32" using assms(1) by (intro mult_right_mono power_increasing) simp_all
  finally have lt: "2 ^ s * uint d < 2 ^ 64" by simp
  have "uint (push_bit s (ucast d) :: uint64) = take_bit 64 (push_bit s (uint d))"
    by (simp add: unsigned_push_bit_eq)
  also have "\<dots> = push_bit s (uint d)"
    using lt by (simp add: take_bit_int_eq_self push_bit_eq_mult mult.commute)
  finally have u: "uint (push_bit s (ucast d) :: uint64) = push_bit s (uint d)" .
  have "uint (push_bit s (ucast d) OR c) = push_bit s (uint d) OR uint c"
    by (simp only: unsigned_or_eq u)
  also have "\<dots> = push_bit s (uint d) + uint c"
    by (rule disjunctive_add_eq_or [OF z, symmetric])
  finally show ?thesis by (simp only: push_bit_eq_mult mult.commute)
qed

lemma shl_loop_spec:
  assumes "s < 32" "uint c < 2 ^ s" "shl_loop s ds c = (ds', c')"
  shows "val ds' + B ^ length ds * uint c' = 2 ^ s * val ds + uint c \<and> length ds' = length ds \<and> uint c' < 2 ^ s"
  using assms(2,3)
proof (induction ds arbitrary: c ds' c')
  case (Cons d ds)
  define v where "v = push_bit s (ucast d) OR c"
  obtain es where r: "shl_loop s ds (v div BASE) = (es, c')" "ds' = ucast (v mod BASE) # es"
    using Cons.prems(2) by (auto simp: Let_def v_def split: prod.splits)
  have v: "uint v = 2 ^ s * uint d + uint c"
    unfolding v_def by (rule push_or_carry [OF assms(1) Cons.prems(1)])
  have "2 ^ s * uint d + uint c < 2 ^ s * uint d + 2 ^ s" using Cons.prems(1) by simp
  also have "\<dots> = 2 ^ s * (uint d + 1)" by (simp add: algebra_simps)
  also have "\<dots> \<le> 2 ^ s * B" using uint32_bounds [of d] by (intro mult_left_mono) simp_all
  finally have "uint v < B * 2 ^ s" using v by simp
  then have c1: "uint (v div BASE) < 2 ^ s"
    unfolding uint_high by (simp add: div_less_iff_less_mult mult.commute)
  have IH: "val es + B ^ length ds * uint c' = 2 ^ s * val ds + uint (v div BASE)"
    "length es = length ds" "uint c' < 2 ^ s"
    using Cons.IH [OF c1 r(1)] by simp_all
  have "val ds' + B ^ length (d # ds) * uint c' = uint v mod B + B * (val es + B ^ length ds * uint c')"
    by (simp add: r(2) uint_low algebra_simps)
  also have "\<dots> = uint v mod B + B * (uint v div B) + B * (2 ^ s * val ds)"
    unfolding IH(1) uint_high by (simp add: algebra_simps)
  also have "\<dots> = uint v + B * (2 ^ s * val ds)" by simp
  finally show ?case using v IH(2,3) r(2) by (simp add: algebra_simps)
qed simp

lemma shl_value:
  assumes "wf b"
  shows "wf (shl_assign b n) \<and> value (shl_assign b n) = value b * 2 ^ n"
proof (cases "n = 0 \<or> is_zero b")
  case True
  then show ?thesis using assms wf_is_zero [OF assms] by (auto simp: shl_assign_def is_zero_def)
next
  case False
  define i s where "i = n div 32" and "s = n mod 32"
  define ds where "ds = (if i > 0 then replicate i 0 @ digits b else digits b)"
  define es where "es = (if s > 0 then (let (ds', carry) = shl_loop s ds 0
                        in if carry > 0 then ds' @ [ucast carry] else ds') else ds)"
  have r: "shl_assign b n = optimise (b\<lparr>digits := es\<rparr>)"
    using False unfolding shl_assign_def is_zero_def Let_def i_def s_def ds_def es_def by (simp only: if_False)
  have d: "val ds = B ^ i * val (digits b)" "ds \<noteq> []"
    using assms by (auto simp: ds_def val_append wf_def normal_def)
  have e: "val es = 2 ^ s * val ds \<and> es \<noteq> []"
  proof (cases "s > 0")
    case True
    obtain ds' c where l: "shl_loop s ds 0 = (ds', c)" by fastforce
    have sp: "val ds' + B ^ length ds * uint c = 2 ^ s * val ds" "length ds' = length ds" "uint c < 2 ^ s"
      using shl_loop_spec [OF _ _ l] by (simp_all add: s_def)
    have "(2 :: int) ^ s \<le> 2 ^ 32" by (intro power_increasing) (simp_all add: s_def)
    then have "uint (ucast c :: uint32) = uint c"
      using sp(3) by (simp add: unsigned_ucast_eq take_bit_int_eq_self)
    then show ?thesis using sp True d(2) l
      by (auto simp: es_def val_append word_gt_0 simp flip: length_greater_0_conv)
  qed (use d in \<open>simp add: es_def\<close>)
  have "B ^ i * 2 ^ s = 2 ^ (32 * i + s)" by (simp add: power_add power_mult)
  then have "2 ^ s * (B ^ i * val (digits b)) = 2 ^ n * val (digits b)"
    by (simp add: i_def s_def algebra_simps)
  then show ?thesis
    using optimise_wf [of "b\<lparr>digits := es\<rparr>"] e d by (simp add: r) (simp add: value_def algebra_simps)
qed

subsection \<open>The signed operations\<close>

lemma wf_digits_nonempty: "wf b \<Longrightarrow> digits b \<noteq> []"
  by (simp add: wf_def normal_def)

lemma normal_nonempty: "normal ds \<Longrightarrow> ds \<noteq> []"
  by (simp add: normal_def)

lemma wf_abs: "wf b \<Longrightarrow> wf (b\<lparr>sign := True\<rparr>)"
  by (simp add: wf_def)

lemma value_abs: "value (b\<lparr>sign := True\<rparr>) = val (digits b)"
  by (simp add: value_def)

lemma value_flip: "sign a \<noteq> sign b \<Longrightarrow> value (b\<lparr>sign := sign a\<rparr>) = - value b"
  by (auto simp: value_def)

lemma wf_flip: "wf b \<Longrightarrow> \<not> is_zero b \<Longrightarrow> wf (b\<lparr>sign := s\<rparr>)"
  by (simp add: wf_def is_zero_digits)

lemma is_zero_sign [simp]: "is_zero (b\<lparr>sign := s\<rparr>) = is_zero b"
  by (simp add: is_zero_def)

lemma set_sign_zero: "wf b \<Longrightarrow> (if is_zero b then b\<lparr>sign := True\<rparr> else b) = b"
  by (auto simp: wf_def is_zero_digits)

lemma shl_sign: "wf b \<Longrightarrow> sign b \<Longrightarrow> sign (shl_assign b n)"
  using shl_value [of b n] wf_sign [of b] wf_sign [of "shl_assign b n"] by simp

lemma minus_same_sign:
  assumes "wf a" "wf b" "sign a = sign b"
  shows "wf (minus_assign a b k) \<and> value (minus_assign a b k) = value a - 2 ^ k * value b"
proof (cases "is_zero b")
  case True
  then show ?thesis using assms wf_is_zero [OF assms(2)] by (simp add: minus_assign.simps)
next
  case False
  define ao where "ao = shl_assign (b\<lparr>sign := True\<rparr>) k"
  have ao: "wf ao" "val (digits ao) = 2 ^ k * val (digits b)"
    using shl_value [OF wf_abs [OF assms(2)], of k] shl_sign [OF wf_abs [OF assms(2)], of k]
    by (simp_all add: ao_def value_def)
  define ls where "ls = (compare (a\<lparr>sign := True\<rparr>) ao = Less)"
  have ls: "ls \<longleftrightarrow> val (digits a) < val (digits ao)"
    using compare_value [OF wf_abs [OF assms(1)] ao(1)] shl_sign [OF wf_abs [OF assms(2)], of k]
    by (simp add: ls_def value_def ao_def)
  define x y where "x = (if ls then digits ao else digits a)" and "y = (if ls then digits a else digits ao)"
  define m where "m = max (length x) (length y)"
  obtain ds bw where f: "fold (sub_step x y) [0..<m] (replicate m 0, 0) = (ds, bw)" by fastforce
  have d: "val ds = val x - val y" "length ds = m"
    using sub_magnitudes [OF _ m_def f] ls by (auto simp: x_def y_def)
  define r where "r = optimise (a\<lparr>digits := ds, sign := (if ls then \<not> sign a else sign a)\<rparr>)"
  have "ds \<noteq> []" using d(2) wf_digits_nonempty [OF assms(1)] by (auto simp: m_def x_def y_def split: if_splits)
  then have r: "wf r" by (simp add: r_def optimise_wf)
  have "minus_assign a b k = (if is_zero r then r\<lparr>sign := True\<rparr> else r)"
  proof -
    have p: "(if ls then (digits ao, digits (a\<lparr>sign := True\<rparr>)) else (digits (a\<lparr>sign := True\<rparr>), digits ao)) = (x, y)"
      by (simp add: x_def y_def)
    show ?thesis
      using False assms(3) f unfolding minus_assign.simps [of a b k]
      by (simp only: Let_def ao_def [symmetric] ls_def [symmetric] big_int.simps p prod.case m_def [symmetric] if_False simp_thms r_def)
  qed
  moreover have "value r = value a - 2 ^ k * value b"
    using d(1) ao(2) assms(3) unfolding r_def optimise_value by (auto simp: value_def x_def y_def)
  ultimately show ?thesis using set_sign_zero [OF r] r by simp
qed

lemma plus_assign_unfold:
  "\<not> is_zero other \<Longrightarrow> plus_assign this other shift =
     (let this =
        (if sign this = sign other then
           (let max_size = max (length (digits this)) (length (digits other) + shift);
                (ds, carry) = fold (add_step (digits other) shift) [0..<max_size]
                                (resize max_size (digits this), 0);
                ds = (if carry > 0 then ds @ [ucast carry] else ds)
            in this\<lparr>digits := ds\<rparr>)
         else minus_assign this (other\<lparr>sign := sign this\<rparr>) shift);
          this = optimise this
      in if is_zero this then this\<lparr>sign := True\<rparr> else this)"
  by (subst plus_assign.simps) (simp only: is_zero_def if_False)

lemma plus_assign_value:
  assumes "wf a" "wf b"
  shows "wf (plus_assign a b k) \<and>
    value (plus_assign a b k) = value a + (if sign a = sign b then B ^ k else 2 ^ k) * value b"
proof (cases "is_zero b")
  case True
  then show ?thesis using assms wf_is_zero [OF assms(2)] by (simp add: plus_assign.simps is_zero_def)
next
  case nz: False
  show ?thesis
  proof (cases "sign a = sign b")
    case True
    define m where "m = max (length (digits a)) (length (digits b) + k)"
    obtain ds c where f: "fold (add_step (digits b) k) [0..<m] (resize m (digits a), 0) = (ds, c)" by fastforce
    define es where "es = (if c > 0 then ds @ [ucast c] else ds)"
    have e: "val es = val (digits a) + B ^ k * val (digits b)" "length ds = m"
      using add_magnitudes [OF m_def f] by (simp_all add: es_def)
    then have ne: "es \<noteq> []" using wf_digits_nonempty [OF assms(1)] by (auto simp: es_def m_def)
    define r where "r = optimise (a\<lparr>digits := es\<rparr>)"
    have r: "wf r" "value r = value a + B ^ k * value b"
      using ne e(1) True by (simp_all add: r_def optimise_wf) (auto simp: value_def algebra_simps)
    have "plus_assign a b k = (if is_zero r then r\<lparr>sign := True\<rparr> else r)"
      using True f by (subst plus_assign_unfold [OF nz]) (simp add: Let_def r_def es_def m_def)
    then show ?thesis using set_sign_zero [OF r(1)] r True by simp
  next
    case False
    have s: "sign a = sign (b\<lparr>sign := sign a\<rparr>)" by simp
    define q where "q = minus_assign a (b\<lparr>sign := sign a\<rparr>) k"
    have q: "wf q" "value q = value a + 2 ^ k * value b"
      using minus_same_sign [OF assms(1) wf_flip [OF assms(2) nz] s] value_flip [OF False]
      by (simp_all add: q_def)
    define r where "r = optimise q"
    have r: "wf r" "value r = value q" using q wf_digits_nonempty [of q] by (simp_all add: r_def optimise_wf)
    have "plus_assign a b k = (if is_zero r then r\<lparr>sign := True\<rparr> else r)"
      using False by (subst plus_assign_unfold [OF nz]) (simp add: Let_def r_def q_def)
    then show ?thesis using set_sign_zero [OF r(1)] r q False by simp
  qed
qed

lemma minus_assign_value:
  assumes "wf a" "wf b"
  shows "wf (minus_assign a b k) \<and>
    value (minus_assign a b k) = value a - (if sign a = sign b then 2 ^ k else B ^ k) * value b"
proof (cases "is_zero b \<or> sign a = sign b")
  case True
  then show ?thesis
    using minus_same_sign [OF assms] wf_is_zero [OF assms(2)] assms(1)
    by (auto simp: minus_assign.simps)
next
  case False
  then have "minus_assign a b k = plus_assign a (b\<lparr>sign := sign a\<rparr>) k"
    by (subst minus_assign.simps) simp
  then show ?thesis
    using plus_assign_value [OF assms(1) wf_flip [OF assms(2)], of "sign a" k] False
      value_flip [of a b] by simp
qed

lemma plus_value [simp]: "wf a \<Longrightarrow> wf b \<Longrightarrow> value (plus a b) = value a + value b"
  and plus_wf [simp]: "wf a \<Longrightarrow> wf b \<Longrightarrow> wf (plus a b)"
  using plus_assign_value [of a b 0] by (simp_all add: plus_def)

lemma minus_value [simp]: "wf a \<Longrightarrow> wf b \<Longrightarrow> value (minus a b) = value a - value b"
  and minus_wf [simp]: "wf a \<Longrightarrow> wf b \<Longrightarrow> wf (minus a b)"
  using minus_assign_value [of a b 0] by (simp_all add: minus_def)

subsection \<open>Numbers from machine integers\<close>

lemma split_number_val: "val (split_number n) = uint n"
proof (induction n rule: split_number.induct)
  case (1 n)
  show ?case
  proof (cases "0 < n")
    case True
    then have "val (split_number n) = uint n mod B + B * uint (n div BASE)"
      using 1 by (subst split_number.simps) (simp add: uint_low)
    then show ?thesis by (simp add: uint_high)
  next
    case False
    then have "n = 0" by (simp add: word_gt_0)
    then show ?thesis by (subst split_number.simps) simp
  qed
qed

lemma of_ulong_value [simp]: "wf (of_ulong n)" "value (of_ulong n) = uint n"
  by (simp_all add: of_ulong_def optimise_wf) (simp add: value_def val_append split_number_val)

lemma of_long_value [simp]: "wf (of_long d)" and of_long_pos: "0 \<le>s d \<Longrightarrow> value (of_long d) = uint d"
proof -
  show "wf (of_long d)" by (simp add: of_long_def optimise_wf Let_def)
  assume "0 \<le>s d"
  then show "value (of_long d) = uint d"
    by (auto simp: of_long_def Let_def value_def [of "\<lparr>sign = _, digits = _\<rparr>"] val_append split_number_val
        word_sless_alt word_sle_eq)
qed

lemma of_digits_value [simp]: "wf (of_digits ds s)" "value (of_digits ds s) = (if s then val ds else - val ds)"
  by (simp_all add: of_digits_def optimise_wf) (simp add: value_def val_append)

lemma of_long_1 [simp]: "value (of_long 1) = 1"
  by (simp add: of_long_pos word_sle_eq)

lemma increment_value: "wf b \<Longrightarrow> wf (increment b) \<and> value (increment b) = value b + 1"
  by (simp add: increment_def)

lemma decrement_value: "wf b \<Longrightarrow> wf (decrement b) \<and> value (decrement b) = value b - 1"
  by (simp add: decrement_def)

subsection \<open>The properties of addition and subtraction\<close>

text \<open>C32: Addition and subtraction of numbers in normal form are exact, for operands of any size and
  sign, and give numbers in normal form; so subtracting what was added, and decrementing what was
  incremented, restores the number digit by digit.\<close>
theorem sum_and_difference_exact:
  assumes "wf a" "wf b"
  shows "value (plus a b) = value a + value b \<and> value (minus a b) = value a - value b \<and>
         wf (plus a b) \<and> wf (minus a b) \<and> minus (plus a b) b = a \<and> decrement (increment a) = a"
proof -
  have "minus (plus a b) b = a" using assms by (intro wf_unique) simp_all
  moreover have "decrement (increment a) = a"
    using assms increment_value decrement_value by (intro wf_unique) simp_all
  ultimately show ?thesis using assms by simp
qed

text \<open>4294967295 + 1 carries into a second digit; taking 1 away again drops it.\<close>
theorem sum_and_difference_exact_witness:
  "value (plus \<lparr>sign = True, digits = [4294967295]\<rparr> \<lparr>sign = True, digits = [1]\<rparr>) = 4294967296 \<and>
   minus (plus \<lparr>sign = True, digits = [4294967295]\<rparr> \<lparr>sign = True, digits = [1]\<rparr>) \<lparr>sign = True, digits = [1]\<rparr>
     = \<lparr>sign = True, digits = [4294967295]\<rparr>"
  using sum_and_difference_exact [of "\<lparr>sign = True, digits = [4294967295]\<rparr>" "\<lparr>sign = True, digits = [1]\<rparr>"]
  by (simp add: wf_def normal_def value_def [of "\<lparr>sign = True, digits = _\<rparr>"])

text \<open>The shift parameter of plus_assign and minus_assign, documented as a number of digits, is one
  only where the magnitudes are added; where they are subtracted it is a number of bits.\<close>
theorem shift_is_digits_or_bits:
  assumes "wf a" "wf b"
  shows "value (plus_assign a b k) = value a + value b * (if sign a = sign b then 2 ^ (32 * k) else 2 ^ k) \<and>
         value (minus_assign a b k) = value a - value b * (if sign a = sign b then 2 ^ k else 2 ^ (32 * k))"
  using plus_assign_value [OF assms, of k] minus_assign_value [OF assms, of k]
  by (simp add: power_mult)

theorem shift_is_digits_or_bits_witness:
  "value (plus_assign \<lparr>sign = True, digits = [5]\<rparr> \<lparr>sign = True, digits = [1]\<rparr> 1) = 5 + 4294967296 \<and>
   value (plus_assign \<lparr>sign = True, digits = [5]\<rparr> \<lparr>sign = False, digits = [1]\<rparr> 1) = 5 - 2"
  using shift_is_digits_or_bits [of "\<lparr>sign = True, digits = [5]\<rparr>" "\<lparr>sign = True, digits = [1]\<rparr>" 1]
    shift_is_digits_or_bits [of "\<lparr>sign = True, digits = [5]\<rparr>" "\<lparr>sign = False, digits = [1]\<rparr>" 1]
  by (simp add: wf_def normal_def value_def [of "\<lparr>sign = _, digits = _\<rparr>"])

end
