(* ===== verification/BigIntMul.thy ===== *)
theory BigIntMul
  imports BigIntAdd "HOL-Library.Monad_Syntax"
begin

text \<open>
  Multiplication of big_int: the schoolbook loop of multiply_assign, multiply_karatsuba, and
  operator*=, which chooses between the two by the size of the second operand. The third rule,
  Schonhage-Strassen, is never chosen by decide_mult and is not modelled. Reading or writing a digit
  outside a vector has the value None.
\<close>

unbundle bit_operations_syntax

datatype multiplication_rule = Trivial | Karatsuba

subsection \<open>The schoolbook rule\<close>

text \<open>The inner loop, from index \<open>j\<close> of the second operand on.\<close>

function mul_inner :: "uint32 \<Rightarrow> uint32 list \<Rightarrow> nat \<Rightarrow> nat \<Rightarrow> uint32 list \<Rightarrow> uint64 \<Rightarrow> uint32 list option" where
  "mul_inner x ys i j res carry =
     (if j < length ys \<or> carry \<noteq> 0 then
        (if i + j < length res then
           (let prod = ucast (res ! (i + j)) + carry;
                prod = (if j < length ys then prod + ucast x * ucast (ys ! j) else prod)
            in mul_inner x ys i (j + 1) (res[i + j := ucast (prod mod BASE)]) (prod div BASE))
         else None)
      else Some res)"
  by pat_completeness auto
termination
  by (relation "measure (\<lambda>(x, ys, i, j, res, carry). length res - (i + j))") auto

declare mul_inner.simps [simp del]

fun mul_outer :: "uint32 list \<Rightarrow> uint32 list \<Rightarrow> nat list \<Rightarrow> uint32 list \<Rightarrow> uint32 list option" where
  "mul_outer xs ys [] res = Some res"
| "mul_outer xs ys (i # is) res = do {
     res \<leftarrow> mul_inner (xs ! i) ys i 0 res 0;
     mul_outer xs ys is res
   }"

definition multiply_trivial :: "big_int \<Rightarrow> big_int \<Rightarrow> big_int option" where
  "multiply_trivial this other =
     (if is_zero other \<or> is_zero this then Some (optimise (this\<lparr>digits := [0]\<rparr>))
      else do {
        result \<leftarrow> mul_outer (digits this) (digits other) [0..<length (digits this)]
                   (resize (length (digits this) + length (digits other)) (digits zero));
        Some (optimise (this\<lparr>sign := (sign this = sign other), digits := result\<rparr>))
      })"

subsection \<open>Karatsuba's rule\<close>

text \<open>The two parts of a number: a fresh zero whose digits are assigned when there are any.\<close>

definition low_part :: "nat \<Rightarrow> big_int \<Rightarrow> big_int" where
  "low_part max_size a = optimise (zero\<lparr>digits := take (min max_size (length (digits a))) (digits a)\<rparr>)"

definition high_part :: "nat \<Rightarrow> big_int \<Rightarrow> big_int" where
  "high_part max_size a =
     optimise (if length (digits a) > max_size then zero\<lparr>digits := drop max_size (digits a)\<rparr> else zero)"

partial_function (option) multiply_karatsuba :: "big_int \<Rightarrow> big_int \<Rightarrow> big_int option" where
  "multiply_karatsuba a b =
     (if length (digits a) \<le> 8 \<or> length (digits b) \<le> 8 then multiply_trivial a b
      else
        (let max_size = (max (length (digits a)) (length (digits b)) + 1) div 2;
             low1 = low_part max_size a; high1 = high_part max_size a;
             low2 = low_part max_size b; high2 = high_part max_size b
         in do {
           z0 \<leftarrow> multiply_karatsuba low1 low2;
           z2 \<leftarrow> multiply_karatsuba high1 high2;
           z1 \<leftarrow> multiply_karatsuba (plus low1 high1) (plus low2 high2);
           let z1 = minus z1 z0;
           let z1 = minus z1 z2;
           let z2 = shl_assign z2 (max_size * 2);
           let z1 = shl_assign z1 max_size;
           let result = plus (plus z2 z1) z0;
           Some (optimise (result\<lparr>sign := (sign a = sign b)\<rparr>))
         }))"

text \<open>multiply_assign; under the Karatsuba rule it multiplies and then sets the sign again.\<close>

definition multiply_assign :: "big_int \<Rightarrow> big_int \<Rightarrow> multiplication_rule \<Rightarrow> big_int option" where
  "multiply_assign this other rule =
     (case rule of
        Trivial \<Rightarrow> multiply_trivial this other
      | Karatsuba \<Rightarrow>
          (if is_zero other \<or> is_zero this then Some (optimise (this\<lparr>digits := [0]\<rparr>))
           else do {
             result \<leftarrow> multiply_karatsuba this other;
             Some (optimise (this\<lparr>digits := digits result, sign := (sign this = sign other)\<rparr>))
           }))"

definition decide_mult :: "nat \<Rightarrow> multiplication_rule" where
  "decide_mult rhs = (if rhs > 32 then Karatsuba else Trivial)"

definition times :: "big_int \<Rightarrow> big_int \<Rightarrow> big_int option" where
  "times this other = multiply_assign this other (decide_mult (length (digits other)))"

subsection \<open>The schoolbook rule computes the product\<close>

text \<open>One step of the inner loop does not wrap in 64 bits.\<close>

lemma mul_step_uint:
  assumes "uint (c :: uint64) < B"
  shows "uint (ucast (r :: uint32) + c + ucast (x :: uint32) * ucast (y :: uint32) :: uint64) = uint r + uint c + uint x * uint y"
    and "uint (ucast (r :: uint32) + c :: uint64) = uint r + uint c"
proof -
  have b: "uint r \<le> B - 1" "uint c \<le> B - 1" "uint x \<le> B - 1" "uint y \<le> B - 1" "0 \<le> uint x" "0 \<le> uint y"
    using uint32_bounds [of r] uint32_bounds [of x] uint32_bounds [of y] assms by auto
  then have p: "uint x * uint y \<le> (B - 1) * (B - 1)"
    by (intro mult_mono) simp_all
  have m: "uint (ucast x * ucast y :: uint64) = uint x * uint y"
    using p by (subst uint_mult_lem [THEN iffD1]) simp_all
  show rc: "uint (ucast r + c :: uint64) = uint r + uint c"
    using b by (subst uint_add_lem [THEN iffD1]) simp_all
  show "uint (ucast r + c + ucast x * ucast y :: uint64) = uint r + uint c + uint x * uint y"
    using b p by (subst uint_add_lem [THEN iffD1]) (simp_all add: rc m)
qed

lemma val_update:
  "n < length ds \<Longrightarrow> val (ds[n := d]) = val ds + B ^ n * (uint d - uint (ds ! n))"
proof (induction ds arbitrary: n)
  case (Cons e ds)
  show ?case
  proof (cases n)
    case (Suc m)
    then have "val (ds[m := d]) = val ds + B ^ m * (uint d - uint (ds ! m))" using Cons by simp
    then show ?thesis using Suc by (simp add: algebra_simps)
  qed simp
qed simp

text \<open>The number the result denotes when the rest of the loop has been done.\<close>

definition inner_total :: "uint32 \<Rightarrow> uint32 list \<Rightarrow> nat \<Rightarrow> nat \<Rightarrow> uint32 list \<Rightarrow> uint64 \<Rightarrow> int" where
  "inner_total x ys i j res carry = val res + B ^ (i + j) * (uint carry + uint x * val (drop j ys))"

lemma inner_step:
  assumes "uint carry < B" "i + j < length res"
    and "pr = (if j < length ys then ucast (res ! (i + j)) + carry + ucast x * ucast (ys ! j)
                 else ucast (res ! (i + j)) + carry)"
  shows "inner_total x ys i (j + 1) (res[i + j := ucast (pr mod BASE)]) (pr div BASE) =
           inner_total x ys i j res carry \<and> uint (pr div BASE) < B"
proof -
  define y where "y = (if j < length ys then uint (ys ! j) else 0)"
  define r where "r = uint (res ! (i + j))"
  have p: "uint pr = r + uint carry + uint x * y"
    using mul_step_uint [OF assms(1)] by (simp add: assms(3) y_def r_def)
  have d: "val (drop j ys) = y + B * val (drop (j + 1) ys)"
    by (cases "j < length ys") (simp_all add: y_def flip: Cons_nth_drop_Suc)
  have v: "val (res[i + j := ucast (pr mod BASE)]) = val res + B ^ (i + j) * (uint pr mod B - r)"
    using assms(2) by (simp add: val_update uint_low r_def)
  define q m where "q = uint pr div B" and "m = uint pr mod B"
  have qm: "r + uint carry + uint x * y = B * q + m"
    unfolding p [symmetric] q_def m_def by simp
  have "inner_total x ys i (j + 1) (res[i + j := ucast (pr mod BASE)]) (pr div BASE) =
      val res + B ^ (i + j) * (m - r + B * (q + uint x * val (drop (j + 1) ys)))"
    unfolding inner_total_def v uint_high q_def [symmetric] m_def [symmetric] by (simp add: algebra_simps)
  also have "m - r + B * (q + uint x * val (drop (j + 1) ys)) =
      uint carry + uint x * (y + B * val (drop (j + 1) ys))"
    using qm by (simp add: algebra_simps)
  also have "val res + B ^ (i + j) * \<dots> = inner_total x ys i j res carry"
    by (simp only: inner_total_def d)
  finally show ?thesis
    using uint_lt2p [of pr] by (simp add: uint_high)
qed

lemma mul_inner_spec:
  assumes "uint carry < B" "i + length ys < length res"
    and "inner_total x ys i j res carry < B ^ Suc (i + length ys)"
  shows "\<exists>res'. mul_inner x ys i j res carry = Some res' \<and> length res' = length res \<and>
           val res' = inner_total x ys i j res carry"
  using assms
proof (induction x ys i j res carry rule: mul_inner.induct)
  case (1 x ys i j res carry)
  show ?case
  proof (cases "j < length ys \<or> carry \<noteq> 0")
    case True
    define pr where "pr = (if j < length ys then ucast (res ! (i + j)) + carry + ucast x * ucast (ys ! j)
                 else ucast (res ! (i + j)) + carry)"
    have l: "i + j < length res"
    proof (cases "j < length ys")
      case False
      have "0 < uint carry" using True False by (metis uint_0_iff uint_ge_0 order_le_less)
      then have "B ^ (i + j) * 1 \<le> B ^ (i + j) * uint carry" by (intro mult_left_mono) simp_all
      also have "\<dots> \<le> inner_total x ys i j res carry" using False by (simp add: inner_total_def)
      finally have "B ^ (i + j) < B ^ Suc (i + length ys)" using "1.prems"(3) by simp
      then have "i + j < Suc (i + length ys)" by (rule power_less_imp_less_exp [rotated]) simp
      then show ?thesis using "1.prems"(2) by simp
    qed (use "1.prems"(2) in simp)
    note st = inner_step [OF "1.prems"(1) l pr_def]
    have "mul_inner x ys i j res carry = mul_inner x ys i (j + 1) (res[i + j := ucast (pr mod BASE)]) (pr div BASE)"
      using True l by (subst mul_inner.simps) (simp add: Let_def pr_def)
    moreover have "\<exists>res'. mul_inner x ys i (j + 1) (res[i + j := ucast (pr mod BASE)]) (pr div BASE) = Some res' \<and>
        length res' = length (res[i + j := ucast (pr mod BASE)]) \<and>
        val res' = inner_total x ys i (j + 1) (res[i + j := ucast (pr mod BASE)]) (pr div BASE)"
      by (rule "1.IH" [OF True l refl]) (use st "1.prems" in \<open>simp_all add: pr_def\<close>)
    ultimately show ?thesis using st by simp
  next
    case False
    then show ?thesis by (subst mul_inner.simps) (simp add: inner_total_def)
  qed
qed

lemma mul_outer_spec:
  assumes "n \<le> length xs" "length res = length xs + length ys" "ys \<noteq> []"
    and "val res = val (take (length xs - n) xs) * val ys"
  shows "\<exists>res'. mul_outer xs ys [length xs - n..<length xs] res = Some res' \<and>
           length res' = length res \<and> val res' = val xs * val ys"
  using assms
proof (induction n arbitrary: res)
  case (Suc n)
  define i where "i = length xs - Suc n"
  have i: "i < length xs" "Suc i = length xs - n" using Suc.prems(1) by (simp_all add: i_def)
  have t: "inner_total (xs ! i) ys i 0 res 0 = val (take (Suc i) xs) * val ys"
    using Suc.prems(4) i(1) by (simp add: inner_total_def i_def [symmetric] val_take_Suc algebra_simps)
  have "val (take (Suc i) xs) * val ys \<le> val (take (Suc i) xs) * B ^ length ys"
    using val_less [of ys] by (intro mult_left_mono) simp_all
  also have "\<dots> < B ^ Suc i * B ^ length ys"
    using val_less [of "take (Suc i) xs"] i(1) by (intro mult_strict_right_mono) simp_all
  finally have b: "inner_total (xs ! i) ys i 0 res 0 < B ^ Suc (i + length ys)"
    unfolding t by (simp add: power_add)
  obtain res1 where r: "mul_inner (xs ! i) ys i 0 res 0 = Some res1" "length res1 = length res"
      "val res1 = val (take (Suc i) xs) * val ys"
    using mul_inner_spec [OF _ _ b] Suc.prems(2,3) i(1) t by auto
  have "[i..<length xs] = i # [Suc i..<length xs]" using i(1) by (rule upt_conv_Cons)
  then show ?case
    using Suc.IH [of res1] r Suc.prems i by (simp add: i_def [symmetric])
qed simp

lemma multiply_trivial_value:
  assumes "wf a" "wf b"
  shows "\<exists>r. multiply_trivial a b = Some r \<and> wf r \<and> value r = value a * value b"
proof (cases "is_zero b \<or> is_zero a")
  case True
  then have "value a * value b = 0" using assms wf_is_zero by auto
  then show ?thesis using True
    by (simp add: multiply_trivial_def optimise_wf) (simp add: value_def [of "a\<lparr>digits := _\<rparr>"])
next
  case False
  obtain ds where d: "mul_outer (digits a) (digits b) [0..<length (digits a)]
      (resize (length (digits a) + length (digits b)) (digits zero)) = Some ds"
      "length ds = length (digits a) + length (digits b)" "val ds = val (digits a) * val (digits b)"
    using mul_outer_spec [of "length (digits a)" "digits a" "resize (length (digits a) + length (digits b)) (digits zero)" "digits b"]
      wf_digits_nonempty [OF assms(1)] wf_digits_nonempty [OF assms(2)]
    by (auto simp: val_resize zero_def Suc_le_eq)
  have "ds \<noteq> []" using d(2) wf_digits_nonempty [OF assms(1)] by auto
  then show ?thesis
    using False d by (simp add: multiply_trivial_def optimise_wf) (auto simp: value_def)
qed

lemma times_value:
  assumes "wf a" "wf b" "length (digits b) \<le> 32"
  shows "\<exists>r. times a b = Some r \<and> wf r \<and> value r = value a * value b"
  using multiply_trivial_value [OF assms(1,2)] assms(3) by (simp add: times_def decide_mult_def multiply_assign_def)

lemma normal_length: "normal ds \<Longrightarrow> val ds < B ^ Suc n \<Longrightarrow> length ds \<le> Suc n"
proof (rule ccontr)
  assume n: "normal ds" "val ds < B ^ Suc n" and "\<not> length ds \<le> Suc n"
  then have "B ^ Suc n \<le> B ^ (length ds - 1)" by (intro power_increasing) simp_all
  also have "\<dots> \<le> val ds" using \<open>\<not> length ds \<le> Suc n\<close> n(1) by (intro normal_lower) simp_all
  finally show False using n(2) by simp
qed

lemma wf_length: "wf b \<Longrightarrow> \<bar>value b\<bar> < B ^ Suc n \<Longrightarrow> length (digits b) \<le> Suc n"
  by (rule normal_length) (simp_all add: wf_def value_def split: if_splits)

subsection \<open>Karatsuba's rule\<close>

lemma value_record [simp]: "value \<lparr>sign = s, digits = ds\<rparr> = (if s then val ds else - val ds)"
  by (simp add: value_def)

lemma low_part_wf: "wf a \<Longrightarrow> 0 < m \<Longrightarrow> wf (low_part m a)"
  unfolding low_part_def using wf_digits_nonempty [of a] by (intro optimise_wf) auto

lemma low_part_val: "value (low_part m a) = val (take m (digits a))"
  by (simp add: low_part_def zero_def min_def)

lemma high_part_wf: "wf (high_part m a)"
  unfolding high_part_def by (intro optimise_wf) (auto simp: zero_def)

lemma high_part_val: "value (high_part m a) = val (drop m (digits a))"
  by (simp add: high_part_def zero_def)

text \<open>One level of the recursion, from the values of the three products.\<close>

lemma karatsuba_step:
  assumes "wf a" "wf b" "8 < length (digits a)" "8 < length (digits b)"
    and "m = (max (length (digits a)) (length (digits b)) + 1) div 2"
    and "multiply_karatsuba (low_part m a) (low_part m b) = Some z0" "wf z0"
    and "multiply_karatsuba (high_part m a) (high_part m b) = Some z2" "wf z2"
    and "multiply_karatsuba (plus (low_part m a) (high_part m a)) (plus (low_part m b) (high_part m b)) = Some z1" "wf z1"
    and v: "v = value z2 * 2 ^ (m * 2) + (value z1 - value z0 - value z2) * 2 ^ m + value z0" "0 \<le> v"
  shows "\<exists>r. multiply_karatsuba a b = Some r \<and> wf r \<and> value r = (if sign a = sign b then v else - v)"
proof -
  define y1 where "y1 = shl_assign (minus (minus z1 z0) z2) m"
  define y2 where "y2 = shl_assign z2 (m * 2)"
  have w: "wf y1" "wf y2" "value y1 = (value z1 - value z0 - value z2) * 2 ^ m" "value y2 = value z2 * 2 ^ (m * 2)"
    using shl_value [of "minus (minus z1 z0) z2" m] shl_value [of z2 "m * 2"] assms(7,9,11)
    by (simp_all add: y1_def y2_def)
  define s where "s = plus (plus y2 y1) z0"
  have "wf s" "value s = value y2 + value y1 + value z0"
    unfolding s_def using w(1,2) assms(7) by simp_all
  then have s: "wf s" "value s = v" unfolding w(3,4) v(1) by simp_all
  have "0 \<le> value s" using s(2) v(2) by simp
  then have "sign s" using wf_sign [OF s(1)] by simp
  then have "val (digits s) = v" using s(2) by (simp add: value_def)
  moreover have "multiply_karatsuba a b = Some (optimise (s\<lparr>sign := (sign a = sign b)\<rparr>))"
    using assms(3,4) unfolding multiply_karatsuba.simps [of a b] Let_def assms(5) [symmetric]
    by (simp add: assms(6,8,10) s_def y1_def y2_def del: One_nat_def)
  ultimately show ?thesis
    using wf_digits_nonempty [OF s(1)] by (simp add: optimise_wf) (simp add: value_def)
qed

text \<open>The number with \<open>n\<close> zero digits below a one.\<close>

definition power_number :: "nat \<Rightarrow> big_int" where
  "power_number n = \<lparr>sign = True, digits = replicate n 0 @ [1]\<rparr>"

lemma power_number [simp]: "wf (power_number n)" "value (power_number n) = B ^ n"
    "length (digits (power_number n)) = Suc n" "sign (power_number n)"
  by (auto simp: power_number_def wf_def normal_def value_def val_append append_eq_Cons_conv)

lemma power_number_digits: "digits (power_number n) = replicate n 0 @ [1]"
  by (simp add: power_number_def)

lemma power_number_parts:
  "0 < m \<Longrightarrow> m \<le> n \<Longrightarrow> low_part m (power_number n) = zero \<and> high_part m (power_number n) = power_number (n - m)"
proof
  assume m: "0 < m" "m \<le> n"
  show "low_part m (power_number n) = zero"
    using m low_part_val [of m "power_number n"] low_part_wf [of "power_number n" m]
    by (intro wf_unique) (simp_all add: power_number_digits)
  show "high_part m (power_number n) = power_number (n - m)"
    using m high_part_val [of m "power_number n"] high_part_wf [of m "power_number n"]
    by (intro wf_unique) (simp_all add: power_number_digits val_append)
qed

lemma plus_zero_left: "wf b \<Longrightarrow> plus zero b = b"
  by (intro wf_unique) simp_all

lemma karatsuba_small:
  "wf a \<Longrightarrow> wf b \<Longrightarrow> length (digits a) \<le> 8 \<Longrightarrow>
   \<exists>r. multiply_karatsuba a b = Some r \<and> wf r \<and> value r = value a * value b"
  using multiply_trivial_value [of a b] by (simp add: multiply_karatsuba.simps)

lemma karatsuba_zero: "\<exists>z. multiply_karatsuba zero zero = Some z \<and> wf z \<and> value z = 0"
proof -
  have "length (digits zero) \<le> 8" by (simp add: zero_def)
  then show ?thesis using karatsuba_small [of zero zero] by simp
qed

lemma karatsuba_powers:
  assumes "8 \<le> n" "m = (n + 2) div 2" "j = n - m"
    and "\<exists>z. multiply_karatsuba (power_number j) (power_number j) = Some z \<and> wf z \<and> value z = u" "0 \<le> u"
  shows "\<exists>r. multiply_karatsuba (power_number n) (power_number n) = Some r \<and> wf r \<and> value r = u * 2 ^ (m * 2)"
proof -
  obtain z where z: "multiply_karatsuba (power_number (n - m)) (power_number (n - m)) = Some z" "wf z" "value z = u"
    using assms(3,4) by blast
  obtain z0 where z0: "multiply_karatsuba zero zero = Some z0" "wf z0" "value z0 = 0"
    using karatsuba_zero by blast
  have p: "low_part m (power_number n) = zero" "high_part m (power_number n) = power_number (n - m)"
    using power_number_parts [of m n] assms(1,2) by simp_all
  show ?thesis
    using karatsuba_step [of "power_number n" "power_number n" m z0 z z "u * 2 ^ (m * 2)"] p z z0 assms(1,2,5)
    by (simp add: plus_zero_left)
qed

lemma times_powers: "\<exists>r. times (power_number 32) (power_number 32) = Some r \<and> wf r \<and> value r = 2 ^ 498"
proof -
  have k7: "\<exists>z. multiply_karatsuba (power_number 7) (power_number 7) = Some z \<and> wf z \<and> value z = B ^ 7 * B ^ 7"
    using karatsuba_small [of "power_number 7" "power_number 7"] unfolding power_number(2) by simp
  have k15: "\<exists>z. multiply_karatsuba (power_number 15) (power_number 15) = Some z \<and> wf z \<and> value z = B ^ 7 * B ^ 7 * 2 ^ (8 * 2)"
    by (rule karatsuba_powers [OF _ _ _ k7]) simp_all
  have "\<exists>z. multiply_karatsuba (power_number 32) (power_number 32) = Some z \<and> wf z \<and> value z = B ^ 7 * B ^ 7 * 2 ^ (8 * 2) * 2 ^ (17 * 2)"
    by (rule karatsuba_powers [OF _ _ _ k15]) simp_all
  then obtain r where r: "multiply_karatsuba (power_number 32) (power_number 32) = Some r" "wf r"
      "value r = B ^ 7 * B ^ 7 * 2 ^ (8 * 2) * 2 ^ (17 * 2)" by blast
  have "0 \<le> value r" unfolding r(3) by simp
  then have s: "sign r" using wf_sign [OF r(2)] by simp
  then have v: "value (optimise (power_number 32\<lparr>digits := digits r, sign := True\<rparr>)) = B ^ 7 * B ^ 7 * 2 ^ (8 * 2) * 2 ^ (17 * 2)"
    unfolding optimise_value using r(3) by (simp add: value_def)
  have "\<not> is_zero (power_number 32)" using wf_is_zero [of "power_number 32"] by simp
  then have "times (power_number 32) (power_number 32) =
      Some (optimise (power_number 32\<lparr>digits := digits r, sign := True\<rparr>))"
    using r(1) by (simp add: times_def decide_mult_def multiply_assign_def)
  then show ?thesis
    using v optimise_wf [of "power_number 32\<lparr>digits := digits r, sign := True\<rparr>"] wf_digits_nonempty [OF r(2)]
    by simp
qed

text \<open>C35: The product is exact when the second operand has at most 32 digits: no index leaves a vector, no
  64-bit product or carry wraps, and the result is in normal form.\<close>
theorem product_exact:
  assumes "wf a" "wf b" "length (digits b) \<le> 32"
  shows "\<exists>r. times a b = Some r \<and> wf r \<and> value r = value a * value b"
  by (rule times_value [OF assms])

text \<open>4294967295 squared, whose partial products fill the 64 bits.\<close>
theorem product_exact_witness:
  "\<exists>r. times \<lparr>sign = False, digits = [4294967295]\<rparr> \<lparr>sign = True, digits = [4294967295]\<rparr> = Some r \<and>
       value r = - 18446744065119617025"
  using product_exact [of "\<lparr>sign = False, digits = [4294967295]\<rparr>" "\<lparr>sign = True, digits = [4294967295]\<rparr>"]
  by (auto simp: wf_def normal_def)

text \<open>With 33 digits operator*= takes Karatsuba's rule, whose shifts by digits are shifts by bits: the
  square of \<open>2 ^ 1024\<close> is computed as \<open>2 ^ 498\<close>.\<close>
theorem karatsuba_loses_the_product:
  "\<exists>r. times (power_number 32) (power_number 32) = Some r \<and> value (power_number 32) = 2 ^ 1024 \<and>
       value r = 2 ^ 498 \<and> value r \<noteq> value (power_number 32) * value (power_number 32)"
proof -
  obtain r where r: "times (power_number 32) (power_number 32) = Some r" "value r = 2 ^ 498"
    using times_powers by blast
  have p: "value (power_number 32) = (2 :: int) ^ 1024" by (simp only: power_number(2)) simp
  have "(2 :: int) ^ 498 < 2 ^ 2048" by (rule power_strict_increasing) simp_all
  moreover have "(2 :: int) ^ 1024 * 2 ^ 1024 = 2 ^ 2048" by (simp only: power_add [symmetric]) simp
  ultimately have "value r \<noteq> value (power_number 32) * value (power_number 32)" unfolding r(2) p by linarith
  then show ?thesis using r p by blast
qed

end
