(* ===== verification/BigIntDiv.thy ===== *)
theory BigIntDiv
  imports BigIntMul
begin

text \<open>
  Division and remainder of big_int: long division from the most significant digit, each quotient digit
  found by a binary search between 0 and BASE. A logic_error is an \<open>Inl\<close>; None would be a search
  that never ends or a digit outside a vector.
\<close>

datatype big_exn = LogicError string | InvalidArgument string

subsection \<open>The code\<close>

partial_function (option) quotient_search ::
  "big_int \<Rightarrow> big_int \<Rightarrow> uint64 \<Rightarrow> uint64 \<Rightarrow> uint64 \<Rightarrow> uint64 option" where
  "quotient_search abs_other remain left right q =
     (if left \<le> right then
        (let mid = left + (right - left) div 2 in do {
           temp \<leftarrow> times abs_other (of_long mid);
           (if compare remain temp \<noteq> Less then quotient_search abs_other remain (mid + 1) right mid
            else quotient_search abs_other remain left (mid - 1) q)
         })
      else Some q)"

text \<open>One digit: it is prepended to the remainder, from which the digit's multiple is taken.\<close>

definition division_step :: "big_int \<Rightarrow> uint32 \<Rightarrow> big_int \<Rightarrow> (big_int \<times> uint64) option" where
  "division_step abs_other d remain =
     (let remain = optimise (remain\<lparr>digits := d # digits remain\<rparr>) in do {
        q \<leftarrow> quotient_search abs_other remain 0 BASE 0;
        (if q > 0 then do {
           temp \<leftarrow> times abs_other (of_long q);
           Some (minus remain temp, q)
         }
         else Some (remain, q))
      })"

fun divide_loop :: "big_int \<Rightarrow> uint32 list \<Rightarrow> nat list \<Rightarrow> big_int \<Rightarrow> uint32 list \<Rightarrow> (big_int \<times> uint32 list) option" where
  "divide_loop abs_other ds [] remain quot = Some (remain, quot)"
| "divide_loop abs_other ds (i # is) remain quot = do {
     (remain, q) \<leftarrow> division_step abs_other (ds ! i) remain;
     divide_loop abs_other ds is remain (quot[i := ucast q])
   }"

definition divide_assign :: "big_int \<Rightarrow> big_int \<Rightarrow> (big_exn + big_int) option" where
  "divide_assign this other =
     (if is_zero this then Some (Inr this)
      else if is_zero other then Some (Inl (LogicError ''Division by zero''))
      else
        (let abs_this = this\<lparr>sign := True\<rparr>; abs_other = other\<lparr>sign := True\<rparr> in
         if compare abs_this abs_other = Less then Some (Inr (optimise (this\<lparr>digits := [0]\<rparr>)))
         else do {
           (_, quot) \<leftarrow> divide_loop abs_other (digits this) (rev [0..<length (digits this)])
                             (of_long 0) (replicate (length (digits this)) 0);
           Some (Inr (optimise (this\<lparr>sign := (sign this = sign other), digits := quot\<rparr>)))
         }))"

text \<open>modulo_assign runs the same loop and keeps no quotient.\<close>

fun modulo_loop :: "big_int \<Rightarrow> uint32 list \<Rightarrow> nat list \<Rightarrow> big_int \<Rightarrow> big_int option" where
  "modulo_loop abs_other ds [] remain = Some remain"
| "modulo_loop abs_other ds (i # is) remain = do {
     (remain, _) \<leftarrow> division_step abs_other (ds ! i) remain;
     modulo_loop abs_other ds is remain
   }"

definition modulo_assign :: "big_int \<Rightarrow> big_int \<Rightarrow> (big_exn + big_int) option" where
  "modulo_assign this other =
     (if is_zero this then Some (Inr this)
      else if is_zero other then Some (Inl (LogicError ''Division by zero''))
      else
        (let abs_this = this\<lparr>sign := True\<rparr>; abs_other = other\<lparr>sign := True\<rparr> in
         if compare abs_this abs_other = Less then Some (Inr (this\<lparr>sign := True\<rparr>))
         else do {
           remain \<leftarrow> modulo_loop abs_other (digits this) (rev [0..<length (digits this)]) (of_long 0);
           Some (Inr (optimise (this\<lparr>digits := digits remain, sign := True\<rparr>)))
         }))"

subsection \<open>The binary search\<close>

text \<open>Products with a number of one or two digits.\<close>

lemma times_of_long:
  assumes "wf b" "uint m \<le> B"
  shows "\<exists>r. times b (of_long m) = Some r \<and> wf r \<and> value r = value b * uint m"
proof -
  have v: "value (of_long m) = uint m"
    using sint_small [of "uint m"] assms(2) order_trans [OF _ uint_ge_0 [of m], of "- B - 1"]
    by (intro of_long_pos) (simp add: word_sle_eq)
  then have "length (digits (of_long m)) \<le> Suc 1"
    using assms(2) by (intro wf_length) simp_all
  then show ?thesis using times_value [OF assms(1), of "of_long m"] v by simp
qed

lemma mid_bounds:
  assumes "left \<le> right" "uint right \<le> B"
  shows "uint (left + (right - left) div 2 :: uint64) = (uint left + uint right) div 2"
proof -
  have le: "uint left \<le> uint right" using assms(1) by (simp add: word_le_def)
  have s: "uint (right - left) = uint right - uint left"
    using le by (subst uint_sub_lem [THEN iffD1]) simp_all
  have h: "uint ((right - left) div 2) = (uint right - uint left) div 2"
    by (simp add: uint_div_distrib s)
  have "uint left + (uint right - uint left) div 2 = (uint left + uint right) div 2"
    by linarith
  moreover have "uint (left + (right - left) div 2) = uint left + (uint right - uint left) div 2"
    using le assms(2) uint_ge_0 [of left] by (subst uint_add_lem [THEN iffD1]) (simp_all add: h)
  ultimately show ?thesis by simp
qed

lemma quotient_search_spec:
  assumes "wf b" "0 < value b" "wf r" "0 \<le> value r"
    and "uint left \<le> value r div value b + 1" "value r div value b \<le> uint right" "uint right \<le> B"
    and "uint left = 0 \<or> uint q = uint left - 1"
  shows "\<exists>q'. quotient_search b r left right q = Some q' \<and> uint q' = value r div value b"
  using assms(5-)
proof (induction "nat (uint right - uint left + 1)" arbitrary: left right q rule: less_induct)
  case less
  define Q where "Q = value r div value b"
  have Q: "0 \<le> Q" using assms(2,4) by (simp add: Q_def pos_imp_zdiv_nonneg_iff)
  show ?case
  proof (cases "left \<le> right")
    case True
    define mid where "mid = left + (right - left) div 2"
    have le: "uint left \<le> uint right" using True by (simp add: word_le_def)
    have m: "uint mid = (uint left + uint right) div 2"
      unfolding mid_def by (rule mid_bounds [OF True less.prems(3)])
    then have mb: "uint left \<le> uint mid" "uint mid \<le> uint right" using le by linarith+
    obtain temp where t: "times b (of_long mid) = Some temp" "wf temp" "value temp = value b * uint mid"
      using times_of_long [OF assms(1), of mid] mb less.prems(3) by auto
    have c: "compare r temp \<noteq> Less \<longleftrightarrow> uint mid \<le> Q"
      using assms(2) le_div_int [of "value b" "uint mid" "value r"] compare_value [OF assms(3) t(2)]
      by (auto simp: t(3) Q_def not_less mult.commute)
    show ?thesis
    proof (cases "uint mid \<le> Q")
      case True
      have s: "uint (mid + 1) = uint mid + 1"
        using mb less.prems(3) by (subst uint_add_lem [THEN iffD1]) simp_all
      have "\<exists>q'. quotient_search b r (mid + 1) right mid = Some q' \<and> uint q' = value r div value b"
        using True mb less.prems s by (intro less.hyps) (simp_all add: Q_def)
      then show ?thesis using True c t(1) \<open>left \<le> right\<close>
        by (subst quotient_search.simps) (simp add: Let_def mid_def)
    next
      case False
      have s: "uint (mid - 1) = uint mid - 1"
        using False Q by (subst uint_sub_lem [THEN iffD1]) simp_all
      have "\<exists>q'. quotient_search b r left (mid - 1) q = Some q' \<and> uint q' = value r div value b"
        using False mb less.prems s by (intro less.hyps) (simp_all add: Q_def)
      then show ?thesis using False c t(1) \<open>left \<le> right\<close>
        by (subst quotient_search.simps) (simp add: Let_def mid_def)
    qed
  next
    case False
    then have "uint right < uint left" by (simp add: word_le_def)
    then have "uint q = Q" using less.prems Q unfolding Q_def by linarith
    then show ?thesis using False by (subst quotient_search.simps) (simp add: Q_def)
  qed
qed

subsection \<open>Long division\<close>

lemma wf_nonneg_sign: "wf b \<Longrightarrow> 0 \<le> value b \<Longrightarrow> val (digits b) = value b \<and> sign b"
  using wf_sign [of b] by (simp add: value_def)

lemma division_step_spec:
  assumes "wf b" "0 < value b" "wf r" "0 \<le> value r" "value r < value b"
  shows "\<exists>r' q. division_step b d r = Some (r', q) \<and> wf r' \<and> uint q < B \<and>
           0 \<le> value r' \<and> value r' < value b \<and> uint d + B * value r = value b * uint q + value r'"
proof -
  define r1 where "r1 = optimise (r\<lparr>digits := d # digits r\<rparr>)"
  have r1: "wf r1" "value r1 = uint d + B * value r"
    using wf_nonneg_sign [OF assms(3,4)] by (simp_all add: r1_def optimise_wf) (simp add: value_def)
  then have p: "0 \<le> value r1" using assms(4) uint32_bounds [of d] by simp
  have "value r1 < B * value b"
  proof -
    have "value r1 < B * (value r + 1)" using r1(2) uint32_bounds [of d] by simp
    also have "\<dots> \<le> B * value b" using assms(5) by (intro mult_left_mono) simp_all
    finally show ?thesis .
  qed
  then have Q: "0 \<le> value r1 div value b" "value r1 div value b < B"
    using assms(2) p le_div_int [of "value b" B "value r1"] by (simp_all add: pos_imp_zdiv_nonneg_iff not_le [symmetric])
  obtain q where q: "quotient_search b r1 0 BASE 0 = Some q" "uint q = value r1 div value b"
    using quotient_search_spec [OF assms(1,2) r1(1) p, of 0 BASE 0] Q by (auto simp: BASE_numeral)
  have dm: "value r1 = value b * uint q + value r1 mod value b"
    unfolding q(2) by simp
  have mb: "0 \<le> value r1 mod value b" "value r1 mod value b < value b" using assms(2) by simp_all
  show ?thesis
  proof (cases "q > 0")
    case True
    obtain t where t: "times b (of_long q) = Some t" "wf t" "value t = value b * uint q"
      using times_of_long [OF assms(1), of q] q(2) Q by auto
    have "division_step b d r = Some (minus r1 t, q)"
      using q(1) t(1) True by (simp add: division_step_def r1_def [symmetric])
    moreover have "value (minus r1 t) = value r1 mod value b" using r1(1) t(2,3) dm by simp
    ultimately show ?thesis using r1 t(2) q(2) Q dm mb by simp
  next
    case False
    then have "q = 0" by (simp add: word_gt_0)
    moreover from this have "division_step b d r = Some (r1, q)"
      using q(1) by (simp add: division_step_def r1_def [symmetric])
    moreover have "value r1 = value r1 mod value b" using dm \<open>q = 0\<close> by simp
    ultimately show ?thesis using r1 mb Q(2) q(2) by simp
  qed
qed

lemma divide_loop_spec:
  assumes "wf b" "0 < value b" "wf r" "0 \<le> value r" "value r < value b"
    and "n \<le> length ds" "length qs = length ds"
  shows "\<exists>r' qs'. divide_loop b ds (rev [0..<n]) r qs = Some (r', qs') \<and> wf r' \<and>
           modulo_loop b ds (rev [0..<n]) r = Some r' \<and>
           length qs' = length ds \<and> drop n qs' = drop n qs \<and> 0 \<le> value r' \<and> value r' < value b \<and>
           B ^ n * value r + val (take n ds) = value b * val (take n qs') + value r'"
  using assms(3-)
proof (induction n arbitrary: r qs)
  case (Suc n)
  obtain r1 q where s: "division_step b (ds ! n) r = Some (r1, q)" "wf r1" "uint q < B"
      "0 \<le> value r1" "value r1 < value b" "uint (ds ! n) + B * value r = value b * uint q + value r1"
    using division_step_spec [OF assms(1,2) Suc.prems(1-3), of "ds ! n"] by blast
  obtain r' qs' where IH: "divide_loop b ds (rev [0..<n]) r1 (qs[n := ucast q]) = Some (r', qs')" "wf r'"
      "modulo_loop b ds (rev [0..<n]) r1 = Some r'"
      "length qs' = length ds" "drop n qs' = drop n (qs[n := ucast q])" "0 \<le> value r'" "value r' < value b"
      "B ^ n * value r1 + val (take n ds) = value b * val (take n qs') + value r'"
    using Suc.IH [OF s(2,4,5), of "qs[n := ucast q]"] Suc.prems by auto
  have n: "n < length qs" "n < length ds" using Suc.prems by simp_all
  have "qs' ! n = qs[n := ucast q] ! n"
    using arg_cong [OF IH(5), of hd] n IH(4) by (simp add: hd_drop_conv_nth)
  then have qn: "uint (qs' ! n) = uint q"
    using s(3) n by (simp add: unsigned_ucast_eq take_bit_int_eq_self)
  have "drop (Suc n) qs' = drop (Suc n) (qs[n := ucast q])"
    using IH(5) by (metis drop_Suc tl_drop)
  then have dr: "drop (Suc n) qs' = drop (Suc n) qs" by simp
  have "B ^ Suc n * value r + val (take (Suc n) ds) =
      B ^ n * (uint (ds ! n) + B * value r) + val (take n ds)"
    using n by (simp add: val_take_Suc algebra_simps)
  also have "\<dots> = value b * val (take (Suc n) qs') + value r'"
    using IH(8) n IH(4) Suc.prems(5) unfolding s(6) by (simp add: val_take_Suc qn algebra_simps)
  finally show ?case
    using IH s(1) dr by simp
qed simp

lemma long_division:
  assumes "wf a" "wf b" "value b \<noteq> 0"
  shows "\<exists>r qs. divide_loop (b\<lparr>sign := True\<rparr>) (digits a) (rev [0..<length (digits a)]) (of_long 0)
             (replicate (length (digits a)) 0) = Some (r, qs) \<and>
           modulo_loop (b\<lparr>sign := True\<rparr>) (digits a) (rev [0..<length (digits a)]) (of_long 0) = Some r \<and>
           wf r \<and> qs \<noteq> [] \<and> val qs = \<bar>value a\<bar> div \<bar>value b\<bar> \<and> value r = \<bar>value a\<bar> mod \<bar>value b\<bar>"
proof -
  have ab: "value (b\<lparr>sign := True\<rparr>) = \<bar>value b\<bar>" "val (digits a) = \<bar>value a\<bar>"
    by (simp_all add: value_def)
  have z: "value (of_long 0) = 0" by (simp add: of_long_pos word_sle_eq)
  obtain r qs where l: "divide_loop (b\<lparr>sign := True\<rparr>) (digits a) (rev [0..<length (digits a)]) (of_long 0)
             (replicate (length (digits a)) 0) = Some (r, qs)"
      "modulo_loop (b\<lparr>sign := True\<rparr>) (digits a) (rev [0..<length (digits a)]) (of_long 0) = Some r"
      "wf r" "length qs = length (digits a)" "0 \<le> value r" "value r < \<bar>value b\<bar>"
      "\<bar>value a\<bar> = \<bar>value b\<bar> * val qs + value r"
    using divide_loop_spec [OF wf_abs [OF assms(2)], of "of_long 0" "length (digits a)" "digits a"
        "replicate (length (digits a)) 0"] assms(3) by (auto simp: ab z)
  have "\<bar>value a\<bar> div \<bar>value b\<bar> = val qs" "\<bar>value a\<bar> mod \<bar>value b\<bar> = value r"
    unfolding l(7) using l(5,6) by (simp_all add: div_pos_pos_trivial mod_pos_pos_trivial)
  moreover have "qs \<noteq> []" using l(4) wf_digits_nonempty [OF assms(1)] by auto
  ultimately show ?thesis using l(1-3) by auto
qed

definition sgn_mult :: "int \<Rightarrow> int \<Rightarrow> int \<Rightarrow> int" where
  "sgn_mult a b q = (if (0 \<le> a) = (0 \<le> b) then q else - q)"

lemma divide_value:
  assumes "wf a" "wf b" "value b \<noteq> 0"
  shows "\<exists>r. divide_assign a b = Some (Inr r) \<and> wf r \<and>
           value r = sgn_mult (value a) (value b) (\<bar>value a\<bar> div \<bar>value b\<bar>)"
proof -
  have nz: "\<not> is_zero b" using wf_is_zero [OF assms(2)] assms(3) by simp
  have ab: "value (b\<lparr>sign := True\<rparr>) = \<bar>value b\<bar>" "value (a\<lparr>sign := True\<rparr>) = \<bar>value a\<bar>"
    by (simp_all add: value_def)
  have s: "sign a \<longleftrightarrow> 0 \<le> value a" "sign b \<longleftrightarrow> 0 \<le> value b" using assms wf_sign by blast+
  consider "is_zero a" | "\<not> is_zero a" "\<bar>value a\<bar> < \<bar>value b\<bar>" | "\<not> is_zero a" "\<not> \<bar>value a\<bar> < \<bar>value b\<bar>" by blast
  then show ?thesis
  proof cases
    case 1
    then show ?thesis using assms wf_is_zero [OF assms(1)] by (simp add: divide_assign_def sgn_mult_def)
  next
    case 2
    have "wf (optimise (a\<lparr>digits := [0]\<rparr>))" by (rule optimise_wf) simp
    moreover have "divide_assign a b = Some (Inr (optimise (a\<lparr>digits := [0]\<rparr>)))"
      using 2 nz compare_value [OF wf_abs [OF assms(1)] wf_abs [OF assms(2)]]
      by (simp add: divide_assign_def ab)
    moreover have "value (a\<lparr>digits := [0]\<rparr>) = 0" by (simp add: value_def)
    ultimately show ?thesis using 2 by (simp add: sgn_mult_def div_pos_pos_trivial)
  next
    case 3
    obtain r qs where l: "divide_loop (b\<lparr>sign := True\<rparr>) (digits a) (rev [0..<length (digits a)]) (of_long 0)
             (replicate (length (digits a)) 0) = Some (r, qs)"
        "qs \<noteq> []" "val qs = \<bar>value a\<bar> div \<bar>value b\<bar>"
      using long_division [OF assms] by blast
    have "divide_assign a b = Some (Inr (optimise (a\<lparr>sign := (sign a = sign b), digits := qs\<rparr>)))"
      using 3 nz l(1) compare_value [OF wf_abs [OF assms(1)] wf_abs [OF assms(2)]]
      by (simp add: divide_assign_def ab)
    moreover have "value (a\<lparr>sign := (sign a = sign b), digits := qs\<rparr>) = sgn_mult (value a) (value b) (val qs)"
      by (subst value_def) (simp add: s sgn_mult_def)
    ultimately show ?thesis using l by (simp add: optimise_wf)
  qed
qed

lemma modulo_value:
  assumes "wf a" "wf b" "value b \<noteq> 0"
  shows "\<exists>r. modulo_assign a b = Some (Inr r) \<and> wf r \<and> value r = \<bar>value a\<bar> mod \<bar>value b\<bar>"
proof -
  have nz: "\<not> is_zero b" using wf_is_zero [OF assms(2)] assms(3) by simp
  have ab: "value (b\<lparr>sign := True\<rparr>) = \<bar>value b\<bar>" "value (a\<lparr>sign := True\<rparr>) = \<bar>value a\<bar>"
    by (simp_all add: value_def)
  consider "is_zero a" | "\<not> is_zero a" "\<bar>value a\<bar> < \<bar>value b\<bar>" | "\<not> is_zero a" "\<not> \<bar>value a\<bar> < \<bar>value b\<bar>" by blast
  then show ?thesis
  proof cases
    case 1
    then show ?thesis using assms wf_is_zero [OF assms(1)] by (simp add: modulo_assign_def)
  next
    case 2
    then show ?thesis
      using nz wf_abs [OF assms(1)] compare_value [OF wf_abs [OF assms(1)] wf_abs [OF assms(2)]]
      by (simp add: modulo_assign_def ab mod_pos_pos_trivial)
  next
    case 3
    obtain r where l: "modulo_loop (b\<lparr>sign := True\<rparr>) (digits a) (rev [0..<length (digits a)]) (of_long 0) = Some r"
        "wf r" "value r = \<bar>value a\<bar> mod \<bar>value b\<bar>"
      using long_division [OF assms] by blast
    have "modulo_assign a b = Some (Inr (optimise (a\<lparr>digits := digits r, sign := True\<rparr>)))"
      using 3 nz l(1) compare_value [OF wf_abs [OF assms(1)] wf_abs [OF assms(2)]]
      by (simp add: modulo_assign_def ab)
    moreover have "val (digits r) = value r"
      using wf_nonneg_sign [OF l(2)] assms(3) by (simp add: l(3))
    then have "value (a\<lparr>digits := digits r, sign := True\<rparr>) = value r"
      by (subst value_def) simp
    ultimately show ?thesis using l wf_digits_nonempty [OF l(2)] by (simp add: optimise_wf)
  qed
qed

text \<open>C27: Division and remainder of numbers in normal form end and never leave a vector. They throw exactly
  when the divisor is zero and the dividend is not; otherwise the quotient is the one rounded towards
  zero and the remainder is that of the magnitudes, whatever the signs.\<close>
theorem division_and_remainder:
  assumes "wf a" "wf b"
  shows "if value a = 0 then divide_assign a b = Some (Inr a) \<and> modulo_assign a b = Some (Inr a)
         else if value b = 0 then
           divide_assign a b = Some (Inl (LogicError ''Division by zero'')) \<and>
           modulo_assign a b = Some (Inl (LogicError ''Division by zero''))
         else \<exists>q r. divide_assign a b = Some (Inr q) \<and> modulo_assign a b = Some (Inr r) \<and> wf q \<and> wf r \<and>
           value q = sgn (value a) * sgn (value b) * (\<bar>value a\<bar> div \<bar>value b\<bar>) \<and>
           value r = \<bar>value a\<bar> mod \<bar>value b\<bar>"
proof -
  have "0 = value a \<or> 0 = value b \<or>
      sgn_mult (value a) (value b) (\<bar>value a\<bar> div \<bar>value b\<bar>) = sgn (value a) * sgn (value b) * (\<bar>value a\<bar> div \<bar>value b\<bar>)"
    by (auto simp: sgn_mult_def sgn_if)
  then show ?thesis
    using divide_value [OF assms] modulo_value [OF assms] wf_is_zero [OF assms(1)] wf_is_zero [OF assms(2)]
    by (auto simp: divide_assign_def modulo_assign_def)
qed

text \<open>-7 / 2 is -3 and -7 % 2 is 1, so the quotient times the divisor plus the remainder is -5.\<close>
theorem division_and_remainder_witness:
  "\<exists>q r. divide_assign \<lparr>sign = False, digits = [7]\<rparr> \<lparr>sign = True, digits = [2]\<rparr> = Some (Inr q) \<and>
         modulo_assign \<lparr>sign = False, digits = [7]\<rparr> \<lparr>sign = True, digits = [2]\<rparr> = Some (Inr r) \<and>
         value q = - 3 \<and> value r = 1 \<and> value q * 2 + value r \<noteq> - 7"
  using division_and_remainder [of "\<lparr>sign = False, digits = [7]\<rparr>" "\<lparr>sign = True, digits = [2]\<rparr>"]
  by (auto simp: wf_def normal_def)

end
