(* ===== verification/BigIntText.thy ===== *)
theory BigIntText
  imports BigIntDiv
begin

text \<open>
  big_int and text: the constructor from a string in a radix between 2 and 36, and to_string. The
  string is read digit by digit with a 64-bit product and carry; it is written by repeated remainder
  and division by ten.
\<close>

unbundle bit_operations_syntax

subsection \<open>Reading\<close>

text \<open>The value of a digit or letter, -1 for another character.\<close>

definition char_digit :: "char \<Rightarrow> int" where
  "char_digit c =
     (let n = of_char c :: int in
      if 48 \<le> n \<and> n \<le> 57 then n - 48
      else if 65 \<le> n \<and> n \<le> 90 then n - 65 + 10
      else if 97 \<le> n \<and> n \<le> 122 then n - 97 + 10
      else - 1)"

definition is_valid_digit :: "char \<Rightarrow> uint32 \<Rightarrow> bool" where
  "is_valid_digit c radix \<longleftrightarrow> 0 \<le> char_digit c \<and> word_of_int (char_digit c) < radix"

definition char_to_value :: "char \<Rightarrow> big_exn + uint32" where
  "char_to_value c =
     (if 0 \<le> char_digit c then Inr (word_of_int (char_digit c))
      else Inl (InvalidArgument (''Invalid character: '' @ [c])))"

fun dec :: "nat \<Rightarrow> string" where
  "dec n = (if n < 10 then [char_of (48 + n)] else dec (n div 10) @ [char_of (48 + n mod 10)])"

declare dec.simps [simp del]

primrec mul_add :: "uint32 \<Rightarrow> uint32 list \<Rightarrow> uint32 \<Rightarrow> uint32 list \<times> uint32" where
  "mul_add radix [] carry = ([], carry)"
| "mul_add radix (d # ds) carry =
     (let pr = ucast d * ucast radix + ucast carry :: uint64;
          (ds', carry') = mul_add radix ds (ucast (drop_bit 32 pr))
      in (ucast (pr AND 4294967295) # ds', carry'))"

fun read_chars :: "uint32 \<Rightarrow> string \<Rightarrow> uint32 list \<Rightarrow> big_exn + uint32 list" where
  "read_chars radix [] ds = Inr ds"
| "read_chars radix (c # cs) ds =
     (if \<not> is_valid_digit c radix
      then Inl (InvalidArgument (''Invalid character '' @ [CHR 0x27, c, CHR 0x27] @ '' for radix '' @ dec (unat radix)))
      else
        (case char_to_value c of
           Inl e \<Rightarrow> Inl e
         | Inr digit \<Rightarrow>
             (let (ds', carry) = mul_add radix ds digit
              in read_chars radix cs (if carry > 0 then ds' @ [carry] else ds'))))"

text \<open>The loop that skips leading zeros, on the characters from \<open>start\<close> on.\<close>

fun skip_zeros :: "string \<Rightarrow> string" where
  "skip_zeros [] = []"
| "skip_zeros (c # cs) = (if cs \<noteq> [] \<and> c = CHR ''0'' then skip_zeros cs else c # cs)"

definition of_string :: "string \<Rightarrow> uint32 \<Rightarrow> big_exn + big_int" where
  "of_string num radix =
     (if radix < 2 \<or> radix > 36 then Inl (InvalidArgument ''Radix must be between 2 and 36'')
      else if num = [] then Inr \<lparr>sign = True, digits = [0]\<rparr>
      else
        (let sgn = (hd num \<noteq> CHR ''-'');
             rest = (if hd num = CHR ''-'' \<or> hd num = CHR ''+'' then tl num else num);
             num_view = skip_zeros rest
         in
           if num_view = [] \<or> num_view = ''0'' then Inr \<lparr>sign = True, digits = [0]\<rparr>
           else
             (case read_chars radix num_view [] of
                Inl e \<Rightarrow> Inl e
              | Inr ds \<Rightarrow> Inr \<lparr>sign = sgn, digits = ds\<rparr>)))"

subsection \<open>Writing\<close>

partial_function (option) to_string_loop :: "big_int \<Rightarrow> string \<Rightarrow> (big_exn + string) option" where
  "to_string_loop tmp res =
     (if to_bool tmp then do {
        v \<leftarrow> modulo_assign tmp (of_long 10);
        (case v of
           Inl e \<Rightarrow> Some (Inl e)
         | Inr v \<Rightarrow>
             (let res = res @ [char_of (48 + unat (digits v ! 0))] in do {
                t \<leftarrow> divide_assign tmp (of_long 10);
                (case t of Inl e \<Rightarrow> Some (Inl e) | Inr tmp \<Rightarrow> to_string_loop tmp res)
              }))
      }
      else Some (Inr res))"

definition to_string :: "big_int \<Rightarrow> (big_exn + string) option" where
  "to_string this =
     (if is_zero this then Some (Inr ''0'')
      else do {
        r \<leftarrow> to_string_loop (this\<lparr>sign := True\<rparr>) [];
        Some (case r of
                Inl e \<Rightarrow> Inl e
              | Inr res \<Rightarrow> Inr (rev (if sign this then res else res @ ''-'')))
      })"

subsection \<open>What reading computes\<close>

definition number :: "int \<Rightarrow> string \<Rightarrow> int" where
  "number radix s = foldl (\<lambda>n c. n * radix + char_digit c) 0 s"

lemma char_digit_bounds: "char_digit c < 36" "- 1 \<le> char_digit c"
  by (simp_all add: char_digit_def Let_def)

lemma valid_digit: "is_valid_digit c radix \<longleftrightarrow> 0 \<le> char_digit c \<and> char_digit c < uint radix"
proof -
  have "0 \<le> char_digit c \<Longrightarrow> uint (word_of_int (char_digit c) :: uint32) = char_digit c"
    using char_digit_bounds [of c] by (simp add: uint_word_of_int_eq take_bit_int_eq_self)
  then show ?thesis by (auto simp: is_valid_digit_def word_less_def)
qed

lemma char_to_value_spec:
  "0 \<le> char_digit c \<Longrightarrow> \<exists>d. char_to_value c = Inr d \<and> uint d = char_digit c"
  using char_digit_bounds [of c]
  by (simp add: char_to_value_def uint_word_of_int_eq take_bit_int_eq_self)

lemma mul_add_word:
  "uint (ucast (d :: uint32) * ucast (r :: uint32) + ucast (c :: uint32) :: uint64) = uint d * uint r + uint c"
proof -
  have b: "uint d \<le> B - 1" "uint r \<le> B - 1" "uint c \<le> B - 1" "0 \<le> uint d" "0 \<le> uint r"
    using uint32_bounds [of d] uint32_bounds [of r] uint32_bounds [of c] by auto
  then have p: "uint d * uint r \<le> (B - 1) * (B - 1)" by (intro mult_mono) simp_all
  have m: "uint (ucast d * ucast r :: uint64) = uint d * uint r"
    using p by (subst uint_mult_lem [THEN iffD1]) simp_all
  show ?thesis using b p by (subst uint_add_lem [THEN iffD1]) (simp_all add: m)
qed

lemma and_low: "uint (ucast (p AND 4294967295 :: uint64) :: uint32) = uint p mod B"
proof -
  have "p AND 4294967295 = take_bit 32 p"
    by (simp add: take_bit_eq_mask mask_numeral)
  then show ?thesis by (simp add: unsigned_ucast_eq take_bit_eq_mod uint_mod_distrib)
qed

lemma drop_high: "uint (ucast (drop_bit 32 (p :: uint64)) :: uint32) = uint p div B"
proof -
  have "0 \<le> uint p div B" "uint p div B < B"
    using uint_lt2p [of p] by (simp_all add: pos_imp_zdiv_nonneg_iff)
  moreover have "uint (drop_bit 32 p) = uint p div B"
    by (simp add: drop_bit_eq_div uint_div_distrib)
  ultimately show ?thesis
    by (simp add: unsigned_ucast_eq take_bit_int_eq_self)
qed

lemma mul_add_spec:
  "mul_add r ds c = (ds', c') \<Longrightarrow>
   val ds' + B ^ length ds * uint c' = val ds * uint r + uint c \<and> length ds' = length ds"
proof (induction ds arbitrary: c ds' c')
  case (Cons d ds)
  define p where "p = (ucast d * ucast r + ucast c :: uint64)"
  obtain es where e: "mul_add r ds (ucast (drop_bit 32 p)) = (es, c')" "ds' = ucast (p AND 4294967295) # es"
    using Cons.prems by (auto simp: Let_def p_def split: prod.splits)
  have up: "uint p = uint d * uint r + uint c" unfolding p_def by (rule mul_add_word)
  have IH: "val es + B ^ length ds * uint c' = val ds * uint r + uint p div B" "length es = length ds"
    using Cons.IH [OF e(1)] by (simp_all add: drop_high)
  have "val ds' + B ^ length (d # ds) * uint c' = uint p mod B + B * (val es + B ^ length ds * uint c')"
    by (simp add: e(2) and_low algebra_simps)
  also have "\<dots> = (uint p mod B + B * (uint p div B)) + B * (val ds * uint r)"
    unfolding IH(1) by (simp add: algebra_simps del: mod_mult_div_eq)
  also have "\<dots> = val (d # ds) * uint r + uint c"
    by (simp add: up algebra_simps)
  finally show ?case using e(2) IH(2) by simp
qed simp

text \<open>No superfluous most significant digit; the empty vector stands for 0 while reading.\<close>

definition canon :: "uint32 list \<Rightarrow> bool" where
  "canon ds \<longleftrightarrow> ds = [] \<or> last ds \<noteq> 0"

lemma val_last: "ds \<noteq> [] \<Longrightarrow> val ds = val (butlast ds) + B ^ (length ds - 1) * uint (last ds)"
  by (cases ds rule: rev_cases) (simp_all add: val_append)

lemma canon_iff: "ds \<noteq> [] \<Longrightarrow> canon ds \<longleftrightarrow> B ^ (length ds - 1) \<le> val ds"
proof
  assume ne: "ds \<noteq> []" and "canon ds"
  then have "1 \<le> uint (last ds)" by (simp add: canon_def digit_pos)
  then have "B ^ (length ds - 1) * 1 \<le> B ^ (length ds - 1) * uint (last ds)" by (intro mult_left_mono) simp_all
  then show "B ^ (length ds - 1) \<le> val ds" using val_last [OF ne] val_nonneg [of "butlast ds"] by linarith
next
  assume ne: "ds \<noteq> []" and le: "B ^ (length ds - 1) \<le> val ds"
  show "canon ds"
  proof (rule ccontr)
    assume "\<not> canon ds"
    then have "val ds = val (butlast ds)" using val_last [OF ne] by (simp add: canon_def)
    then show False using val_less [of "butlast ds"] le by simp
  qed
qed

lemma canon_normal: "canon ds \<Longrightarrow> 0 < val ds \<Longrightarrow> normal ds"
  by (auto simp: canon_def normal_def)

lemma mul_add_canon:
  assumes "mul_add r ds c = (ds', c')" "0 < uint r" "canon ds"
  shows "canon (if c' > 0 then ds' @ [c'] else ds') \<and> val (if c' > 0 then ds' @ [c'] else ds') = val ds * uint r + uint c"
proof -
  have s: "val ds' + B ^ length ds * uint c' = val ds * uint r + uint c" "length ds' = length ds"
    using mul_add_spec [OF assms(1)] by simp_all
  show ?thesis
  proof (cases "c' > 0")
    case True
    then show ?thesis using s by (simp add: canon_def val_append word_gt_0)
  next
    case False
    then have c: "c' = 0" by (simp add: word_gt_0)
    show ?thesis
    proof (cases "ds = []")
      case True
      then show ?thesis using s c by (simp add: canon_def)
    next
      case False
      have "val ds * 1 \<le> val ds * uint r" using assms(2) by (intro mult_left_mono) simp_all
      moreover have "B ^ (length ds - 1) \<le> val ds" using canon_iff [OF False] assms(3) by simp
      moreover have "val ds' = val ds * uint r + uint c" "0 \<le> uint c" using s(1) c by simp_all
      ultimately have "B ^ (length ds - 1) \<le> val ds'" by linarith
      moreover have "ds' \<noteq> []" using s(2) False by auto
      ultimately show ?thesis using canon_iff [of ds'] s c by simp
    qed
  qed
qed

lemma read_chars_spec:
  assumes "0 < uint r" "\<forall>c\<in>set s. is_valid_digit c r" "canon ds"
  shows "\<exists>ds'. read_chars r s ds = Inr ds' \<and> canon ds' \<and> val ds' = foldl (\<lambda>n c. n * uint r + char_digit c) (val ds) s"
  using assms(2,3)
proof (induction s arbitrary: ds)
  case (Cons c s)
  obtain d where d: "char_to_value c = Inr d" "uint d = char_digit c"
    using Cons.prems(1) char_to_value_spec [of c] by (auto simp: valid_digit)
  obtain ds1 c1 where m: "mul_add r ds d = (ds1, c1)" by fastforce
  note mm = mul_add_canon [OF m assms(1) Cons.prems(2)]
  show ?case
    using Cons.IH [of "if c1 > 0 then ds1 @ [c1] else ds1"] Cons.prems(1) mm d m by simp
qed simp

lemma read_chars_invalid:
  "\<exists>c\<in>set s. \<not> is_valid_digit c r \<Longrightarrow> \<exists>e. read_chars r s ds = Inl e"
proof (induction s arbitrary: ds)
  case (Cons c s)
  then show ?case
    by (cases "is_valid_digit c r") (auto split: sum.split prod.split)
qed simp

lemma foldl_number_mono: "0 \<le> r \<Longrightarrow> \<forall>c\<in>set s. 0 \<le> char_digit c \<Longrightarrow> 0 \<le> n \<Longrightarrow>
   n * r ^ length s \<le> foldl (\<lambda>n c. n * r + char_digit c) n s"
proof (induction s arbitrary: n)
  case (Cons c s)
  have "n * r * r ^ length s \<le> (n * r + char_digit c) * r ^ length s"
    using Cons.prems by (intro mult_right_mono) simp_all
  also have "\<dots> \<le> foldl (\<lambda>n c. n * r + char_digit c) n (c # s)"
    using Cons.IH [of "n * r + char_digit c"] Cons.prems by simp
  finally show ?case by (simp add: mult.assoc)
qed simp

lemma zero_digit: "char_digit c = 0 \<longleftrightarrow> c = CHR ''0''"
proof
  assume "char_digit c = 0"
  then have "of_char c = (48 :: int)" by (auto simp: char_digit_def Let_def split: if_splits)
  then have "of_char c = (of_char (CHR ''0'') :: int)" by simp
  then show "c = CHR ''0''" by (simp only: of_char_eq_iff)
qed (simp add: char_digit_def)

lemma skip_zeros_spec:
  "number r (skip_zeros s) = number r s \<and> (skip_zeros s = [] \<longleftrightarrow> s = []) \<and>
   set (skip_zeros s) \<subseteq> set s \<and> (\<forall>c\<in>set s. c \<in> set (skip_zeros s) \<or> c = CHR ''0'') \<and>
   (length (skip_zeros s) \<noteq> 1 \<longrightarrow> hd (skip_zeros s) \<noteq> CHR ''0'' \<or> s = [])"
  by (induction s rule: skip_zeros.induct) (auto simp: number_def zero_digit [THEN iffD2])

text \<open>A string of valid digits after an optional sign.\<close>

lemma of_string_digits:
  assumes "2 \<le> uint radix" "uint radix \<le> 36" "sg \<in> {'''', ''-'', ''+''}"
    and "\<forall>c\<in>set ds. is_valid_digit c radix"
  shows "\<exists>b. of_string (sg @ ds) radix = Inr b \<and> wf b \<and>
           value b = (if sg = ''-'' then - number (uint radix) ds else number (uint radix) ds)"
proof -
  have rad: "\<not> radix < 2" "\<not> radix > 36" using assms(1,2) by (simp_all add: word_less_def)
  define v where "v = skip_zeros ds"
  note sk = skip_zeros_spec [of "uint radix" ds, folded v_def]
  have skn: "number (uint radix) v = number (uint radix) ds" and sks: "set v \<subseteq> set ds"
    and skh: "length v \<noteq> 1 \<Longrightarrow> hd v \<noteq> CHR ''0'' \<or> v = []"
    using sk by auto
  have pm: "\<not> is_valid_digit CHR ''-'' radix" "\<not> is_valid_digit CHR ''+'' radix"
    by (simp_all add: valid_digit char_digit_def)
  have hds: "ds \<noteq> [] \<Longrightarrow> hd ds \<noteq> CHR ''-'' \<and> hd ds \<noteq> CHR ''+''"
    using assms(4) pm by (metis list.set_sel(1))
  have rest: "(if hd (sg @ ds) = CHR ''-'' \<or> hd (sg @ ds) = CHR ''+'' then tl (sg @ ds) else sg @ ds) = ds \<and>
      (hd (sg @ ds) \<noteq> CHR ''-'') = (sg \<noteq> ''-'')" if ne: "sg @ ds \<noteq> []"
  proof -
    consider "sg = ''''" | "sg = ''-''" | "sg = ''+''" using assms(3) by blast
    then show ?thesis using hds ne by cases simp_all
  qed
  have os: "of_string (sg @ ds) radix =
      (if v = [] \<or> v = ''0'' then Inr \<lparr>sign = True, digits = [0]\<rparr>
       else (case read_chars radix v [] of Inl e \<Rightarrow> Inl e | Inr es \<Rightarrow> Inr \<lparr>sign = (sg \<noteq> ''-''), digits = es\<rparr>))"
  proof (cases "sg @ ds = []")
    case True
    then show ?thesis using rad by (simp add: of_string_def v_def)
  next
    case False
    show ?thesis
      unfolding of_string_def Let_def conjunct1 [OF rest [OF False]] conjunct2 [OF rest [OF False]] v_def
      by (simp only: rad False if_False simp_thms)
  qed
  show ?thesis
  proof (cases "v = [] \<or> v = ''0''")
    case True
    then have "number (uint radix) ds = 0"
      unfolding skn [symmetric] using True by (auto simp: number_def char_digit_def)
    then show ?thesis
      using True by (simp add: os wf_def)
  next
    case False
    obtain es where e: "read_chars radix v [] = Inr es" "canon es" "val es = number (uint radix) ds"
      using read_chars_spec [of radix v "[]"] assms(1,4) sks unfolding skn [symmetric]
      by (auto simp: canon_def number_def)
    have "v \<noteq> []" using False by blast
    moreover have "hd v \<noteq> CHR ''0''"
      using False skh by (cases v rule: list.exhaust; cases "tl v"; force)
    ultimately obtain c w where v: "v = c # w" "0 < char_digit c" "\<forall>c\<in>set w. 0 \<le> char_digit c"
      using assms(4) sks zero_digit [of "hd v"] by (cases v) (auto simp: valid_digit order_le_less)
    have "0 < char_digit c * uint radix ^ length w" using v(2) assms(1) by simp
    also have "\<dots> \<le> number (uint radix) v"
      using foldl_number_mono [of "uint radix" w "char_digit c"] v by (simp add: number_def)
    finally have pos: "0 < val es" using skn e(3) by simp
    have "of_string (sg @ ds) radix = Inr \<lparr>sign = (sg \<noteq> ''-''), digits = es\<rparr>"
      using False e(1) by (simp add: os)
    moreover have "wf \<lparr>sign = (sg \<noteq> ''-''), digits = es\<rparr>"
      using canon_normal [OF e(2) pos] pos by (auto simp: wf_def)
    ultimately show ?thesis using e(3) by auto
  qed
qed

subsection \<open>What writing computes\<close>

definition show_int :: "int \<Rightarrow> string" where
  "show_int v = (if v < 0 then ''-'' @ dec (nat (- v)) else dec (nat v))"

lemma dec_digit: "n < 10 \<Longrightarrow> char_digit (char_of (48 + n)) = int n"
proof -
  assume n: "n < 10"
  have "(of_char (char_of (48 + n) :: char) :: nat) = 48 + n"
    using n by (simp add: take_bit_eq_mod)
  then have "(of_char (char_of (48 + n) :: char) :: int) = 48 + int n"
    by (metis of_nat_add of_nat_numeral of_nat_of_char)
  then show ?thesis using n by (simp add: char_digit_def)
qed

lemma dec_small: "n < 10 \<Longrightarrow> dec n = [char_of (48 + n)]"
  and dec_large: "\<not> n < 10 \<Longrightarrow> dec n = dec (n div 10) @ [char_of (48 + n mod 10)]"
  by (subst dec.simps, simp)+

lemma zero_char: "char_of (48 :: nat) = CHR ''0''"
  by code_simp

lemma dec_spec: "(\<forall>c\<in>set (dec n). is_valid_digit c 10) \<and> number 10 (dec n) = int n"
proof (induction n rule: dec.induct)
  case (1 n)
  show ?case
  proof (cases "n < 10")
    case True
    then show ?thesis by (simp add: dec_small valid_digit number_def dec_digit)
  next
    case False
    have "int (n div 10) * 10 + int (n mod 10) = int n" by (simp add: zdiv_int zmod_int)
    then show ?thesis
      using 1 [OF False] False dec_digit [of "n mod 10"]
      by (simp add: dec_large valid_digit number_def)
  qed
qed

lemma first_digit:
  assumes "wf v" "0 \<le> value v" "value v < B"
  shows "unat (digits v ! 0) = nat (value v)"
proof -
  have "length (digits v) \<le> Suc 0" using assms by (intro wf_length) simp_all
  then obtain d where "digits v = [d]" using wf_digits_nonempty [OF assms(1)] by (cases "digits v") auto
  then show ?thesis using wf_nonneg_sign [OF assms(1,2)] by (simp add: unat_eq_nat_uint)
qed

lemma of_long_10 [simp]: "value (of_long 10) = 10"
  by (simp add: of_long_pos word_sle_eq)

lemma to_string_loop_spec:
  assumes "wf b" "0 \<le> value b"
  shows "to_string_loop b res = Some (Inr (res @ (if value b = 0 then [] else rev (dec (nat (value b))))))"
  using assms
proof (induction "nat (value b)" arbitrary: b res rule: less_induct)
  case less
  show ?case
  proof (cases "value b = 0")
    case True
    then show ?thesis using wf_is_zero [OF less.prems(1)] by (subst to_string_loop.simps) (simp add: to_bool_def)
  next
    case False
    then have pos: "0 < value b" using less.prems(2) by simp
    obtain v where v: "modulo_assign b (of_long 10) = Some (Inr v)" "wf v" "value v = value b mod 10"
      using modulo_value [OF less.prems(1), of "of_long 10"] pos by auto
    obtain t where t: "divide_assign b (of_long 10) = Some (Inr t)" "wf t" "value t = value b div 10"
      using divide_value [OF less.prems(1), of "of_long 10"] pos by (auto simp: sgn_mult_def)
    have d: "unat (digits v ! 0) = nat (value b mod 10)"
      using first_digit [OF v(2)] by (simp add: v(3))
    define c where "c = (char_of (48 + unat (digits v ! 0)) :: char)"
    have "to_string_loop t (res @ [c]) =
        Some (Inr ((res @ [c]) @ (if value t = 0 then [] else rev (dec (nat (value t))))))"
      by (rule less.hyps) (use pos t in \<open>simp_all add: pos_imp_zdiv_nonneg_iff\<close>)
    moreover have "to_string_loop b res = to_string_loop t (res @ [c])"
      using False wf_is_zero [OF less.prems(1)] v(1) t(1)
      by (subst to_string_loop.simps) (simp add: to_bool_def c_def)
    moreover have "rev (dec (nat (value b))) = c # (if value t = 0 then [] else rev (dec (nat (value t))))"
    proof (cases "value b < 10")
      case True
      then show ?thesis using pos t(3) by (simp add: dec_small c_def d)
    next
      case False
      then have "nat (value b) div 10 = nat (value t)" "nat (value b) mod 10 = nat (value b mod 10)"
        by (simp_all add: t(3) nat_div_distrib nat_mod_distrib)
      moreover have "\<not> nat (value b) < 10" "value b div 10 \<noteq> 0" using False pos by linarith+
      ultimately show ?thesis using dec_large [of "nat (value b)"] t(3) by (simp add: c_def d)
    qed
    ultimately show ?thesis using False by simp
  qed
qed

lemma to_string_spec:
  assumes "wf b"
  shows "to_string b = Some (Inr (show_int (value b)))"
proof (cases "is_zero b")
  case True
  then have "value b = 0" using wf_is_zero [OF assms] by simp
  then show ?thesis using True by (simp add: to_string_def show_int_def dec_small zero_char)
next
  case False
  then have nz: "value b \<noteq> 0" using wf_is_zero [OF assms] by simp
  have a: "value (b\<lparr>sign := True\<rparr>) = \<bar>value b\<bar>" by (simp add: value_def)
  have l: "to_string_loop (b\<lparr>sign := True\<rparr>) [] = Some (Inr (rev (dec (nat \<bar>value b\<bar>))))"
    using to_string_loop_spec [OF wf_abs [OF assms], of "[]"] nz by (simp add: a)
  show ?thesis
    using False l wf_sign [OF assms] by (simp add: to_string_def show_int_def)
qed

subsection \<open>The properties of the text forms\<close>

text \<open>C33: to_string ends without an exception, and the constructor from a string reads the same number
  back, digit by digit.\<close>
theorem to_string_reads_back:
  assumes "wf b"
  shows "\<exists>s. to_string b = Some (Inr s) \<and> of_string s 10 = Inr b"
proof -
  define sg ds where "sg = (if value b < 0 then ''-'' else '''')"
    and "ds = (if value b < 0 then dec (nat (- value b)) else dec (nat (value b)))"
  have s: "to_string b = Some (Inr (sg @ ds))" using to_string_spec [OF assms] by (simp add: show_int_def sg_def ds_def)
  have n: "\<forall>c\<in>set ds. is_valid_digit c 10" "number 10 ds = \<bar>value b\<bar>"
    using dec_spec [of "nat (- value b)"] dec_spec [of "nat (value b)"] by (simp_all add: ds_def)
  have sgn: "sg \<in> {'''', ''-'', ''+''}" by (simp add: sg_def)
  have ten: "uint (10 :: uint32) = 10" "2 \<le> (10 :: int)" "10 \<le> (36 :: int)" by simp_all
  obtain c where c: "of_string (sg @ ds) 10 = Inr c" "wf c" "value c = (if sg = ''-'' then - number 10 ds else number 10 ds)"
    using of_string_digits [of 10 sg ds] n(1) sgn ten by (auto simp only: numeral_le_iff)
  have "value c = value b" using c(3) n(2) by (simp add: sg_def split: if_splits)
  then have "c = b" using c(2) assms by (intro wf_unique)
  then show ?thesis using s c(1) by blast
qed

theorem to_string_reads_back_witness:
  "\<exists>s. to_string \<lparr>sign = False, digits = [0, 1]\<rparr> = Some (Inr s) \<and> of_string s 10 = Inr \<lparr>sign = False, digits = [0, 1]\<rparr>"
  using to_string_reads_back [of "\<lparr>sign = False, digits = [0, 1]\<rparr>"] by (simp add: wf_def normal_def)

text \<open>In a radix between 2 and 36 the constructor from a string reads an optional sign and digits of the
  radix, of either case, as the number they denote, with leading zeros and without overflow; with a
  character that is no digit of the radix it throws.\<close>
theorem string_constructor_reads_radix:
  assumes "2 \<le> uint radix" "uint radix \<le> 36" "sg \<in> {'''', ''-'', ''+''}"
    and "\<forall>c\<in>set ds. is_valid_digit c radix"
  shows "(\<exists>b. of_string (sg @ ds) radix = Inr b \<and> wf b \<and>
            value b = (if sg = ''-'' then - number (uint radix) ds else number (uint radix) ds)) \<and>
         (\<not> is_valid_digit c radix \<longrightarrow> c \<noteq> CHR ''-'' \<longrightarrow> c \<noteq> CHR ''+'' \<longrightarrow>
            (\<exists>e. of_string (sg @ ds @ [c]) radix = Inl e))"
proof -
  have "\<exists>e. of_string (sg @ ds @ [c]) radix = Inl e"
    if c: "\<not> is_valid_digit c radix" "c \<noteq> CHR ''-''" "c \<noteq> CHR ''+''"
  proof -
    have rad: "\<not> radix < 2" "\<not> radix > 36" using assms(1,2) by (simp_all add: word_less_def)
    have z: "is_valid_digit (CHR ''0'') radix" using assms(1) by (simp add: valid_digit char_digit_def)
    have d: "x \<noteq> CHR ''-'' \<and> x \<noteq> CHR ''+''" if "is_valid_digit x radix" for x
      using that by (auto simp: valid_digit char_digit_def)
    have hd: "hd (ds @ [c]) \<noteq> CHR ''-'' \<and> hd (ds @ [c]) \<noteq> CHR ''+''"
      using c d assms(4) by (cases ds) auto
    define v where "v = skip_zeros (ds @ [c])"
    have "c \<in> set v" using skip_zeros_spec [of "uint radix" "ds @ [c]"] c(1) z by (auto simp: v_def)
    then have "\<exists>e. read_chars radix v [] = Inl e" "v \<noteq> []" "v \<noteq> ''0''"
      using read_chars_invalid [of v radix] c(1) z by auto
    then show ?thesis using rad hd assms(3)
      by (auto simp: of_string_def Let_def v_def split: sum.splits)
  qed
  then show ?thesis using of_string_digits [OF assms] by blast
qed

text \<open>\<open>-0zZ\<close> in radix 36 is -1295.\<close>
theorem string_constructor_reads_radix_witness:
  "\<exists>b. of_string ''-0zZ'' 36 = Inr b \<and> value b = - 1295"
  using string_constructor_reads_radix [of 36 "''-''" "''0zZ''" "CHR ''!''"]
  by (auto simp: valid_digit char_digit_def number_def)

end
