(* ===== verification/BigIntBits.thy ===== *)
theory BigIntBits
  imports BigIntAdd
begin

text \<open>
  The right shift and the bitwise operators of big_int on the magnitudes: shifting divides the
  magnitude by a power of two, and the digit loops of the bitwise operators compute AND, OR and XOR of
  the magnitudes, with the sign of the left operand.
\<close>

unbundle bit_operations_syntax

subsection \<open>Right shift\<close>

lemma shr_step:
  assumes "s < 32" "uint c < 2 ^ s" "v = push_bit 32 c OR ucast (d :: uint32)"
  shows "uint (ucast (drop_bit s (v :: uint64)) :: uint32) = (B * uint c + uint d) div 2 ^ s"
    and "uint (v AND (push_bit s 1 - 1)) = (B * uint c + uint d) mod 2 ^ s"
proof -
  have c: "uint c < 2 ^ 31" using assms(1,2) power_increasing [of s 31 "2 :: int"] by simp
  have z: "push_bit 32 (uint c) AND uint d = 0"
  proof (rule bit_eqI)
    fix n
    have "take_bit 32 (uint d) = uint d" using uint32_bounds [of d] by (simp add: take_bit_int_eq_self)
    then have "bit (uint d) n \<Longrightarrow> n < 32" by (metis bit_take_bit_iff)
    then show "bit (push_bit 32 (uint c) AND uint d) n = bit 0 n" by (auto simp: bit_and_iff bit_push_bit_iff)
  qed
  have "uint (push_bit 32 c) = take_bit 64 (push_bit 32 (uint c))"
    by (simp add: unsigned_push_bit_eq)
  also have "\<dots> = push_bit 32 (uint c)"
    using c by (simp add: take_bit_int_eq_self push_bit_eq_mult)
  finally have u: "uint (push_bit 32 c) = push_bit 32 (uint c)" .
  have v: "uint v = B * uint c + uint d"
    unfolding assms(3) unsigned_or_eq u uint_ucast disjunctive_add_eq_or [OF z, symmetric]
    by (simp add: push_bit_eq_mult)
  have "B * uint c + uint d < B * 2 ^ s"
  proof -
    have "B * uint c + uint d < B * (uint c + 1)" using uint32_bounds [of d] by simp
    also have "\<dots> \<le> B * 2 ^ s" using assms(2) by (intro mult_left_mono) simp_all
    finally show ?thesis .
  qed
  then have q: "0 \<le> uint v div 2 ^ s" "uint v div 2 ^ s < B"
    unfolding v using le_div_int [of "2 ^ s" B "B * uint c + uint d"]
    by (simp_all add: pos_imp_zdiv_nonneg_iff not_le [symmetric])
  have "uint (drop_bit s v) = uint v div 2 ^ s"
    unfolding unsigned_drop_bit_eq take_bit_int_eq_self [OF uint_ge_0 uint_lt2p] by (rule drop_bit_eq_div)
  then show "uint (ucast (drop_bit s v) :: uint32) = (B * uint c + uint d) div 2 ^ s"
    using q by (simp add: unsigned_ucast_eq take_bit_int_eq_self flip: v)
  have "push_bit s 1 - 1 = (mask s :: uint64)"
    by (simp add: mask_eq_exp_minus_1 push_bit_eq_mult)
  then have t: "v AND (push_bit s 1 - 1) = take_bit s v" by (simp add: take_bit_eq_mask)
  show "uint (v AND (push_bit s 1 - 1)) = (B * uint c + uint d) mod 2 ^ s"
    unfolding v [symmetric] t unsigned_take_bit_eq by (rule take_bit_eq_mod)
qed

lemma shr_loop_spec:
  assumes "s < 32"
  shows "shr_loop s ds = (ds', c) \<Longrightarrow> val ds' = val ds div 2 ^ s \<and> uint c = val ds mod 2 ^ s \<and> length ds' = length ds"
proof (induction ds arbitrary: ds' c)
  case (Cons d ds)
  obtain es c1 where e: "shr_loop s ds = (es, c1)" by fastforce
  define v where "v = push_bit 32 c1 OR ucast d"
  have r: "ds' = ucast (drop_bit s v) # es" "c = v AND (push_bit s 1 - 1)"
    using Cons.prems e by (auto simp: Let_def v_def)
  have IH: "val es = val ds div 2 ^ s" "uint c1 = val ds mod 2 ^ s" "length es = length ds"
    using Cons.IH [OF e] by simp_all
  have c1: "uint c1 < 2 ^ s" by (simp add: IH(2))
  note st = shr_step [OF assms c1 v_def]
  have vv: "val (d # ds) = (B * uint c1 + uint d) + 2 ^ s * (B * (val ds div 2 ^ s))"
  proof -
    define q m where "q = val ds div 2 ^ s" and "m = val ds mod 2 ^ s"
    have "val ds = 2 ^ s * q + m" by (simp add: q_def m_def)
    then show ?thesis unfolding IH(2) val.simps q_def [symmetric] m_def [symmetric] by (simp add: algebra_simps)
  qed
  have "val ds' = (B * uint c1 + uint d) div 2 ^ s + B * (val ds div 2 ^ s)"
    using r(1) st(1) IH(1) by simp
  also have "\<dots> = val (d # ds) div 2 ^ s" unfolding vv by simp
  finally have "val ds' = val (d # ds) div 2 ^ s" .
  moreover have "uint c = val (d # ds) mod 2 ^ s" unfolding vv r(2) st(2) by simp
  ultimately show ?case using r(1) IH(3) by simp
qed simp

lemma val_drop: "val (drop n ds) = val ds div B ^ n"
proof (cases "n \<le> length ds")
  case True
  have "val ds = val (take n ds) + B ^ n * val (drop n ds)"
    using True by (metis append_take_drop_id length_take min.absorb2 val_append)
  moreover have "0 \<le> val (take n ds)" "val (take n ds) < B ^ n"
    using val_less [of "take n ds"] True by simp_all
  ultimately show ?thesis by simp
next
  case False
  then have "B ^ length ds \<le> B ^ n" by (intro power_increasing) simp_all
  then have "val ds < B ^ n" using val_less [of ds] by linarith
  then show ?thesis using False by simp
qed

lemma shr_value:
  assumes "wf b"
  shows "wf (shr_assign b n) \<and> \<bar>value (shr_assign b n)\<bar> = \<bar>value b\<bar> div 2 ^ n \<and>
         (0 \<le> value b \<longrightarrow> 0 \<le> value (shr_assign b n)) \<and> (value b \<le> 0 \<longrightarrow> value (shr_assign b n) \<le> 0)"
proof (cases "n = 0 \<or> is_zero b")
  case True
  then show ?thesis using assms wf_is_zero [OF assms] by (auto simp: shr_assign_def is_zero_def)
next
  case False
  define i s where "i = n div 32" and "s = n mod 32"
  have pw: "(2 :: int) ^ n = B ^ i * 2 ^ s"
  proof -
    have "B ^ i * 2 ^ s = 2 ^ (32 * i + s)" by (simp add: power_add power_mult)
    then show ?thesis by (simp add: i_def s_def)
  qed
  define es where "es = (if i \<ge> length (digits b) then [0]
      else if s > 0 then fst (shr_loop s (drop i (digits b))) else drop i (digits b))"
  have r: "shr_assign b n = optimise (b\<lparr>digits := es\<rparr>)"
    using False by (auto simp: shr_assign_def is_zero_def Let_def es_def i_def s_def)
  have e: "val es = val (digits b) div 2 ^ n \<and> es \<noteq> []"
  proof (cases "i \<ge> length (digits b)")
    case True
    then have "val (digits b) div B ^ i = 0" using val_drop [of i "digits b"] by simp
    then have "val (digits b) div 2 ^ n = 0" by (simp add: pw zdiv_zmult2_eq)
    then show ?thesis using True by (simp add: es_def)
  next
    case False
    have "val (digits b) div 2 ^ n = val (drop i (digits b)) div 2 ^ s"
      by (simp add: pw zdiv_zmult2_eq val_drop)
    then show ?thesis
      using False shr_loop_spec [of s "drop i (digits b)"]
      by (cases "shr_loop s (drop i (digits b))") (auto simp: es_def s_def)
  qed
  have "value (b\<lparr>digits := es\<rparr>) = (if sign b then val es else - val es)" by (simp add: value_def)
  moreover have "0 \<le> val es" by simp
  moreover have "\<bar>value b\<bar> = val (digits b)" by (simp add: value_def)
  moreover have "val (digits b) \<le> 0 \<Longrightarrow> val es = 0"
    using e val_nonneg [of "digits b"] by simp
  ultimately show ?thesis
    using e by (auto simp: r optimise_wf value_def [of b])
qed

subsection \<open>Bitwise operators\<close>

lemma fold_update:
  "n \<le> length ds \<Longrightarrow> fold (\<lambda>i ds. ds[i := f i (ds ! i)]) [0..<n] ds = map (\<lambda>i. f i (ds ! i)) [0..<n] @ drop n ds"
proof (induction n)
  case (Suc n)
  then have "drop n ds = ds ! n # drop (Suc n) ds" by (simp add: Cons_nth_drop_Suc)
  then show ?case using Suc by (simp add: nth_append list_update_append)
qed simp

lemma split_word: "0 \<le> x \<Longrightarrow> x < B \<Longrightarrow> take_bit 32 (x + B * y) = x \<and> drop_bit 32 (x + B * y) = (y :: int)"
  by (simp add: take_bit_eq_mod drop_bit_eq_div)

lemma join_word: "k = take_bit 32 k + B * drop_bit 32 (k :: int)"
  by (simp add: take_bit_eq_mod drop_bit_eq_div)

lemma bitwise_Cons:
  fixes x y :: uint32
  assumes "take_bit 32 k = uint (z :: uint32)" "drop_bit 32 k = (w :: int)"
  shows "k = uint z + B * w"
  using join_word [of k] assms by simp

lemma val_bitwise_Cons:
  fixes x y :: uint32
  shows "(uint x + B * u) AND (uint y + B * v) = uint (x AND y) + B * (u AND v)"
    and "(uint x + B * u) OR (uint y + B * v) = uint (x OR y) + B * (u OR v)"
    and "(uint x + B * u) XOR (uint y + B * v) = uint (x XOR y) + B * (u XOR v)"
  using split_word [of "uint x" u] split_word [of "uint y" v] uint32_bounds [of x] uint32_bounds [of y]
  by (intro bitwise_Cons, simp add: unsigned_and_eq unsigned_or_eq unsigned_xor_eq take_bit_and take_bit_or take_bit_xor,
      simp add: drop_bit_and drop_bit_or drop_bit_xor)+

lemma val_map2:
  "length xs = length ys \<Longrightarrow> val (map2 (AND) xs ys) = val xs AND val ys"
  "length xs = length ys \<Longrightarrow> val (map2 (OR) xs ys) = val xs OR val ys"
  "length xs = length ys \<Longrightarrow> val (map2 (XOR) xs ys) = val xs XOR val ys"
  by (induction xs ys rule: list_induct2; simp add: val_bitwise_Cons)+

lemma bitwise_zero: "val (map (\<lambda>d. d AND 0) ds) = 0"
  by (induction ds) simp_all

lemma and_assign_digits:
  "and_assign a b = optimise (a\<lparr>digits := map2 (AND) (take (min (length (digits a)) (length (digits b))) (digits a))
                                              (take (min (length (digits a)) (length (digits b))) (digits b))\<rparr>)"
proof -
  define n where "n = min (length (digits a)) (length (digits b))"
  have "fold (\<lambda>i ds. ds[i := ds ! i AND digits b ! i]) [0..<n] (resize n (digits a)) =
        map (\<lambda>i. resize n (digits a) ! i AND digits b ! i) [0..<n]"
    using fold_update [of n "resize n (digits a)" "\<lambda>i d. d AND digits b ! i"] by simp
  also have "\<dots> = map2 (AND) (take n (digits a)) (take n (digits b))"
    by (rule nth_equalityI) (simp_all add: n_def resize_def nth_append)
  finally show ?thesis by (simp add: and_assign_def Let_def n_def)
qed

lemma padded_loop:
  assumes "n = max (length xs) (length ys)"
  shows "fold (\<lambda>i ds. ds[i := f (ds ! i) (if i < length ys then ys ! i else 0)]) [0..<n] (resize n xs) =
         map2 f (resize n xs) (resize n ys)"
proof -
  have "fold (\<lambda>i ds. ds[i := f (ds ! i) (if i < length ys then ys ! i else 0)]) [0..<n] (resize n xs) =
        map (\<lambda>i. f (resize n xs ! i) (if i < length ys then ys ! i else 0)) [0..<n]"
    using fold_update [of n "resize n xs" "\<lambda>i d. f d (if i < length ys then ys ! i else 0)"] by simp
  also have "\<dots> = map2 f (resize n xs) (resize n ys)"
    using assms by (intro nth_equalityI) (auto simp: resize_def nth_append)
  finally show ?thesis .
qed

lemma val_and_prefix:
  assumes "length xs \<le> length ys"
  shows "val xs AND val (take (length xs) ys) = val xs AND val ys"
proof -
  define k where "k = length ys - length xs"
  have "map2 (AND) (xs @ replicate k 0) ys = map2 (AND) xs (take (length xs) ys) @ replicate k 0"
    using assms by (intro nth_equalityI) (simp_all add: nth_append k_def)
  then have "val (xs @ replicate k 0) AND val ys = val (map2 (AND) xs (take (length xs) ys) @ replicate k 0)"
    using assms by (simp add: k_def flip: val_map2(1))
  then show ?thesis using assms by (simp add: val_append val_map2(1))
qed

lemma val_take_and:
  assumes "n = min (length xs) (length ys)"
  shows "val (take n xs) AND val (take n ys) = val xs AND val ys"
proof (cases "length xs \<le> length ys")
  case True
  then show ?thesis using assms val_and_prefix [of xs ys] by simp
next
  case False
  then have "val (take n xs) AND val (take n ys) = val ys AND val (take (length ys) xs)"
    using assms by (simp add: and.commute)
  also have "\<dots> = val ys AND val xs" using False by (intro val_and_prefix) simp
  finally show ?thesis by (simp add: and.commute)
qed

lemma signed_digits: "ds \<noteq> [] \<Longrightarrow> wf (optimise (a\<lparr>digits := ds\<rparr>)) \<and>
    value (optimise (a\<lparr>digits := ds\<rparr>)) = (if sign a then val ds else - val ds)"
  by (simp add: optimise_wf) (simp add: value_def)

lemma padded_value:
  assumes "wf a" "wf b" "m = max (length (digits a)) (length (digits b))"
    and "c = optimise (a\<lparr>digits := map2 f (resize m (digits a)) (resize m (digits b))\<rparr>)"
    and f: "\<And>xs ys. length xs = length ys \<Longrightarrow> val (map2 f xs ys) = g (val xs) (val ys)"
  shows "wf c \<and> value c = (if sign a then 1 else - 1) * g \<bar>value a\<bar> \<bar>value b\<bar>"
proof -
  have "0 < length (digits a)" using wf_digits_nonempty [OF assms(1)] by simp
  then have "0 < length (map2 f (resize m (digits a)) (resize m (digits b)))" using assms(3) by (simp del: length_greater_0_conv)
  then have "map2 f (resize m (digits a)) (resize m (digits b)) \<noteq> []" unfolding length_greater_0_conv .
  note sd = signed_digits [OF this, of a]
  have "val (map2 f (resize m (digits a)) (resize m (digits b))) = g (val (digits a)) (val (digits b))"
    using f [of "resize m (digits a)" "resize m (digits b)"] assms(3) by (simp add: val_resize)
  moreover have "\<bar>value a\<bar> = val (digits a)" "\<bar>value b\<bar> = val (digits b)" by (simp_all add: value_def)
  ultimately show ?thesis using sd unfolding assms(4) by (simp del: optimise_value)
qed

lemma and_assign_value:
  assumes "wf a" "wf b"
  shows "wf (and_assign a b) \<and> value (and_assign a b) = (if sign a then 1 else - 1) * (\<bar>value a\<bar> AND \<bar>value b\<bar>)"
proof -
  define n where "n = min (length (digits a)) (length (digits b))"
  have "0 < length (digits a)" "0 < length (digits b)"
    using wf_digits_nonempty [OF assms(1)] wf_digits_nonempty [OF assms(2)] by simp_all
  then have "0 < length (map2 (AND) (take n (digits a)) (take n (digits b)))" by (simp only: n_def length_map length_zip length_take)
  then have "map2 (AND) (take n (digits a)) (take n (digits b)) \<noteq> []" unfolding length_greater_0_conv .
  note sd = signed_digits [OF this, of a]
  have v: "val (map2 (AND) (take n (digits a)) (take n (digits b))) = val (digits a) AND val (digits b)"
    using val_map2(1) [of "take n (digits a)" "take n (digits b)"] val_take_and [OF n_def] n_def by simp
  have "\<bar>value a\<bar> = val (digits a)" "\<bar>value b\<bar> = val (digits b)" by (simp_all add: value_def)
  then show ?thesis using sd v unfolding and_assign_digits n_def [symmetric] by (simp del: optimise_value)
qed

lemma or_assign_value:
  assumes "wf a" "wf b"
  shows "wf (or_assign a b) \<and> value (or_assign a b) = (if sign a then 1 else - 1) * (\<bar>value a\<bar> OR \<bar>value b\<bar>)"
proof (rule padded_value [OF assms refl])
  show "or_assign a b = optimise (a\<lparr>digits := map2 (OR) (resize (max (length (digits a)) (length (digits b))) (digits a))
      (resize (max (length (digits a)) (length (digits b))) (digits b))\<rparr>)"
    unfolding or_assign_def Let_def padded_loop [OF refl] ..
qed (rule val_map2)

lemma xor_assign_value:
  assumes "wf a" "wf b"
  shows "wf (xor_assign a b) \<and> value (xor_assign a b) = (if sign a then 1 else - 1) * (\<bar>value a\<bar> XOR \<bar>value b\<bar>)"
proof (rule padded_value [OF assms refl])
  show "xor_assign a b = optimise (a\<lparr>digits := map2 (XOR) (resize (max (length (digits a)) (length (digits b))) (digits a))
      (resize (max (length (digits a)) (length (digits b))) (digits b))\<rparr>)"
    unfolding xor_assign_def Let_def padded_loop [OF refl] ..
qed (rule val_map2)

lemma bit_not_digits: "val (map (\<lambda>d. NOT d) ds) = B ^ length ds - 1 - val ds"
proof (induction ds)
  case (Cons d ds)
  have "uint (NOT d) = B - 1 - uint d"
  proof -
    have "(- uint d - 1) mod B = (B - 1 - uint d) mod B" using mod_add_self2 [of "- uint d - 1" B] by simp
    also have "\<dots> = B - 1 - uint d" using uint32_bounds [of d] by (intro mod_pos_pos_trivial) linarith+
    finally show ?thesis by (simp add: unsigned_not_eq not_int_def take_bit_eq_mod)
  qed
  then show ?case using Cons by (simp add: algebra_simps)
qed simp

lemma bit_not_wf: "wf b \<Longrightarrow> wf (bit_not b)"
  unfolding bit_not_def using wf_digits_nonempty [of b] by (intro optimise_wf) simp

lemma bit_not_value: "value (bit_not b) = (if sign b then 1 else - 1) * (B ^ length (digits b) - 1 - \<bar>value b\<bar>)"
  unfolding bit_not_def optimise_value by (simp add: value_def bit_not_digits)

text \<open>The shifts multiply by a power of two and divide the magnitude by one, rounding towards zero; the
  bitwise operators compute on the magnitudes and keep the sign of the left operand, and the complement
  is taken in the digits the number has.\<close>
theorem shifts_and_bitwise_on_magnitudes:
  assumes "wf a" "wf b"
  shows "value (shl_assign a n) = value a * 2 ^ n \<and>
         \<bar>value (shr_assign a n)\<bar> = \<bar>value a\<bar> div 2 ^ n \<and>
         (0 \<le> value a \<longrightarrow> 0 \<le> value (shr_assign a n)) \<and> (value a \<le> 0 \<longrightarrow> value (shr_assign a n) \<le> 0) \<and>
         value (and_assign a b) = (if sign a then 1 else - 1) * (\<bar>value a\<bar> AND \<bar>value b\<bar>) \<and>
         value (or_assign a b) = (if sign a then 1 else - 1) * (\<bar>value a\<bar> OR \<bar>value b\<bar>) \<and>
         value (xor_assign a b) = (if sign a then 1 else - 1) * (\<bar>value a\<bar> XOR \<bar>value b\<bar>) \<and>
         value (bit_not a) = (if sign a then 1 else - 1) * (2 ^ (32 * length (digits a)) - 1 - \<bar>value a\<bar>)"
  using shl_value [OF assms(1), of n] shr_value [OF assms(1), of n] and_assign_value [OF assms]
    or_assign_value [OF assms] xor_assign_value [OF assms]
  by (simp add: bit_not_value power_mult)

text \<open>The complement of -1 is -4294967294 in place of 0.\<close>
theorem shifts_and_bitwise_on_magnitudes_witness:
  "value (bit_not \<lparr>sign = False, digits = [1]\<rparr>) = - 4294967294 \<and>
   value (and_assign \<lparr>sign = False, digits = [6]\<rparr> \<lparr>sign = True, digits = [3, 1]\<rparr>) = - 2"
  using shifts_and_bitwise_on_magnitudes [of "\<lparr>sign = False, digits = [1]\<rparr>" "\<lparr>sign = False, digits = [1]\<rparr>" 0]
    shifts_and_bitwise_on_magnitudes [of "\<lparr>sign = False, digits = [6]\<rparr>" "\<lparr>sign = True, digits = [3, 1]\<rparr>" 0]
  by (simp add: wf_def normal_def value_def [of "\<lparr>sign = _, digits = _\<rparr>"])

end
