(* ===== verification/BigIntInv.thy ===== *)
theory BigIntInv
  imports BigIntText BigIntBits
begin

text \<open>
  The numbers a program can compute with the constructors and operators of big_int, and their
  invariant: each is in normal form (no leading zero digit, no negative zero), so that the comparison
  of the digits is the comparison of the numbers.
\<close>

subsection \<open>The products\<close>

lemma multiply_trivial_wf: "wf a \<Longrightarrow> wf b \<Longrightarrow> multiply_trivial a b = Some r \<Longrightarrow> wf r"
  using multiply_trivial_value [of a b] by auto

lemma karatsuba_wf:
  assumes "multiply_karatsuba a b = Some r"
  shows "wf a \<and> wf b \<longrightarrow> wf r"
proof (rule multiply_karatsuba.raw_induct [OF _ assms, of "\<lambda>a b r. wf a \<and> wf b \<longrightarrow> wf r"])
  fix mk a b r
  assume 1: "\<And>a b r. mk a b = Some r \<Longrightarrow> wf a \<and> wf b \<longrightarrow> wf r"
    "(if length (digits a) \<le> 8 \<or> length (digits b) \<le> 8 then multiply_trivial a b
      else
        (let max_size = (max (length (digits a)) (length (digits b)) + 1) div 2;
             low1 = low_part max_size a; high1 = high_part max_size a;
             low2 = low_part max_size b; high2 = high_part max_size b
         in do {
           z0 \<leftarrow> mk low1 low2;
           z2 \<leftarrow> mk high1 high2;
           z1 \<leftarrow> mk (plus low1 high1) (plus low2 high2);
           let z1 = minus z1 z0;
               z1 = minus z1 z2;
               z2 = shl_assign z2 (max_size * 2);
               z1 = shl_assign z1 max_size;
               result = plus (plus z2 z1) z0
           in Some (optimise (result\<lparr>sign := (sign a = sign b)\<rparr>))
         })) = Some r"
  show "wf a \<and> wf b \<longrightarrow> wf r"
  proof (intro impI)
    assume w: "wf a \<and> wf b"
    show "wf r"
    proof (cases "length (digits a) \<le> 8 \<or> length (digits b) \<le> 8")
      case True
      then show ?thesis using 1(2) w multiply_trivial_wf [of a b r] by auto
    next
      case False
      define m where "m = (max (length (digits a)) (length (digits b)) + 1) div 2"
      have m: "0 < m" using False by (auto simp: m_def div_greater_zero_iff max_def)
      have p: "wf (low_part m a)" "wf (low_part m b)" "wf (high_part m a)" "wf (high_part m b)"
        using w m by (simp_all add: low_part_wf high_part_wf)
      obtain z0 z2 z1 where z: "mk (low_part m a) (low_part m b) = Some z0"
          "mk (high_part m a) (high_part m b) = Some z2"
          "mk (plus (low_part m a) (high_part m a)) (plus (low_part m b) (high_part m b)) = Some z1"
        and r: "r = optimise ((plus (plus (shl_assign z2 (m * 2)) (shl_assign (minus (minus z1 z0) z2) m)) z0)
                  \<lparr>sign := (sign a = sign b)\<rparr>)"
        using 1(2) False by (auto simp: Let_def m_def split: Option.bind_splits)
      have "wf z0" "wf z2" "wf z1" using 1(1) [OF z(1)] 1(1) [OF z(2)] 1(1) [OF z(3)] p by simp_all
      then have "wf (plus (plus (shl_assign z2 (m * 2)) (shl_assign (minus (minus z1 z0) z2) m)) z0)"
        using shl_value by simp
      then show ?thesis unfolding r by (intro optimise_wf) (simp add: wf_digits_nonempty)
    qed
  qed
qed

lemma multiply_assign_wf: "wf a \<Longrightarrow> wf b \<Longrightarrow> multiply_assign a b rule = Some r \<Longrightarrow> wf r"
proof (cases rule)
  case Karatsuba
  assume w: "wf a" "wf b" and r: "multiply_assign a b rule = Some r"
  show "wf r"
  proof (cases "is_zero b \<or> is_zero a")
    case True
    then show ?thesis using r Karatsuba by (auto simp: multiply_assign_def intro!: optimise_wf)
  next
    case False
    then obtain k where "multiply_karatsuba a b = Some k" "r = optimise (a\<lparr>digits := digits k, sign := (sign a = sign b)\<rparr>)"
      using r Karatsuba by (auto simp: multiply_assign_def split: Option.bind_splits)
    then show ?thesis using karatsuba_wf [of a b k] w wf_digits_nonempty [of k] by (auto intro!: optimise_wf)
  qed
next
  case Trivial
  then show "wf a \<Longrightarrow> wf b \<Longrightarrow> multiply_assign a b rule = Some r \<Longrightarrow> wf r"
    using multiply_trivial_wf [of a b r] by (simp add: multiply_assign_def)
qed

lemma times_wf: "wf a \<Longrightarrow> wf b \<Longrightarrow> times a b = Some r \<Longrightarrow> wf r"
  unfolding times_def by (rule multiply_assign_wf)

subsection \<open>The strings\<close>

lemma read_chars_canon: "0 < uint r \<Longrightarrow> canon ds \<Longrightarrow> read_chars r s ds = Inr ds' \<Longrightarrow>
    canon ds' \<and> (\<forall>c\<in>set s. is_valid_digit c r)"
proof -
  assume a: "0 < uint r" "canon ds" and r: "read_chars r s ds = Inr ds'"
  then have v: "\<forall>c\<in>set s. is_valid_digit c r" using read_chars_invalid [of s r ds] by auto
  then show ?thesis using read_chars_spec [OF a(1) v a(2)] r by auto
qed

subsection \<open>The numbers a program computes\<close>

inductive_set computed :: "big_int set" where
  from_long: "of_long n \<in> computed"
| from_ulong: "of_ulong n \<in> computed"
| from_digits: "of_digits ds s \<in> computed"
| from_zero: "zero \<in> computed"
| from_text: "of_string (sg @ cs) radix = Inr b \<Longrightarrow> sg \<in> {'''', ''-'', ''+''} \<Longrightarrow>
    \<forall>c\<in>set cs. is_valid_digit c radix \<Longrightarrow> b \<in> computed"
| by_plus: "a \<in> computed \<Longrightarrow> b \<in> computed \<Longrightarrow> plus_assign a b k \<in> computed"
| by_minus: "a \<in> computed \<Longrightarrow> b \<in> computed \<Longrightarrow> minus_assign a b k \<in> computed"
| by_times: "a \<in> computed \<Longrightarrow> b \<in> computed \<Longrightarrow> multiply_assign a b rule = Some r \<Longrightarrow> r \<in> computed"
| by_divide: "a \<in> computed \<Longrightarrow> b \<in> computed \<Longrightarrow> divide_assign a b = Some (Inr r) \<Longrightarrow> r \<in> computed"
| by_modulo: "a \<in> computed \<Longrightarrow> b \<in> computed \<Longrightarrow> modulo_assign a b = Some (Inr r) \<Longrightarrow> r \<in> computed"
| by_shl: "a \<in> computed \<Longrightarrow> shl_assign a n \<in> computed"
| by_shr: "a \<in> computed \<Longrightarrow> shr_assign a n \<in> computed"
| by_not: "a \<in> computed \<Longrightarrow> bit_not a \<in> computed"
| by_and: "a \<in> computed \<Longrightarrow> b \<in> computed \<Longrightarrow> and_assign a b \<in> computed"
| by_or: "a \<in> computed \<Longrightarrow> b \<in> computed \<Longrightarrow> or_assign a b \<in> computed"
| by_xor: "a \<in> computed \<Longrightarrow> b \<in> computed \<Longrightarrow> xor_assign a b \<in> computed"

lemma divide_wf: "wf a \<Longrightarrow> wf b \<Longrightarrow> divide_assign a b = Some (Inr r) \<Longrightarrow> wf r"
  using divide_value [of a b] wf_is_zero [of b] by (cases "value b = 0") (auto simp: divide_assign_def split: if_splits)

lemma modulo_wf: "wf a \<Longrightarrow> wf b \<Longrightarrow> modulo_assign a b = Some (Inr r) \<Longrightarrow> wf r"
  using modulo_value [of a b] wf_is_zero [of b] by (cases "value b = 0") (auto simp: modulo_assign_def split: if_splits)

lemma text_wf:
  assumes "of_string (sg @ cs) radix = Inr b" "sg \<in> {'''', ''-'', ''+''}" "\<forall>c\<in>set cs. is_valid_digit c radix"
  shows "wf b"
proof -
  have "\<not> (radix < 2 \<or> radix > 36)"
  proof
    assume "radix < 2 \<or> radix > 36"
    then show False using assms(1) by (simp add: of_string_def)
  qed
  then have "2 \<le> uint radix" "uint radix \<le> 36" by (simp_all add: word_less_def)
  then show ?thesis using of_string_digits [OF _ _ assms(2,3)] assms(1) by auto
qed

lemma computed_wf: "b \<in> computed \<Longrightarrow> wf b"
proof (induction rule: computed.induct)
  case (by_times a b rule r)
  then show ?case using multiply_assign_wf [of a b rule r] by blast
qed (auto intro: text_wf divide_wf modulo_wf bit_not_wf
       simp: plus_assign_value minus_assign_value shl_value shr_value and_assign_value or_assign_value xor_assign_value)

text \<open>C29: Every number that the constructors, the arithmetic, bitwise and shift operators compute is in normal
  form: it has a digit, no leading zero digit and no negative zero. So two computed numbers are
  equal for operator== exactly when they denote the same integer.\<close>
theorem computed_numbers_are_normal:
  assumes "a \<in> computed" "b \<in> computed"
  shows "digits a \<noteq> [] \<and> (1 < length (digits a) \<longrightarrow> last (digits a) \<noteq> 0) \<and> (digits a = [0] \<longrightarrow> sign a) \<and>
         (equals a b \<longleftrightarrow> value a = value b)"
  using computed_wf [OF assms(1)] equals_value [OF computed_wf [OF assms(1)] computed_wf [OF assms(2)]]
  by (simp add: wf_def normal_def)

text \<open>The complement of the largest digit with a minus sign is a zero, and it has no minus sign.\<close>
theorem computed_numbers_are_normal_witness:
  "sign (bit_not (of_digits [4294967295] False)) \<and> equals (bit_not (of_digits [4294967295] False)) zero"
proof -
  have c: "bit_not (of_digits [4294967295] False) \<in> computed" "zero \<in> computed"
    by (rule computed.by_not, rule computed.from_digits, rule computed.from_zero)
  have e: "of_digits [4294967295] False = \<lparr>sign = False, digits = [4294967295]\<rparr>"
    by (rule wf_unique, rule of_digits_value) (simp add: wf_def normal_def, simp)
  have z: "value (bit_not (of_digits [4294967295] False)) = 0"
    unfolding bit_not_value e by simp
  then have "equals (bit_not (of_digits [4294967295] False)) zero"
    using computed_numbers_are_normal [OF c] by simp
  moreover have "sign (bit_not (of_digits [4294967295] False))"
    using wf_sign [OF computed_wf [OF c(1)]] z by simp
  ultimately show ?thesis by simp
qed

end
