(* ===== verification/Fraction.thy ===== *)
theory Fraction
  imports Complex_Main BigIntText
begin

text \<open>
  Fractions of big integers (arithmetic/fraction): the data, reduction to lowest terms, arithmetic,
  comparison, text, and powers. A normal fraction has a numerator that is not negative; the sign is that
  of the denominator. \<open>frac_val\<close> is the rational number a fraction denotes. The product of big integers is
  exact while its second operand has at most 32 digits, so the lemmas ask for parts below 2 to the power
  of 1024 (\<open>short\<close>). The code throws; a result is None where it does not return or is undefined, an
  exception, or a value.
\<close>

datatype frac_exn = Big big_exn | Domain_error string | Runtime_error string

type_synonym 'a outcome = "(frac_exn + 'a) option"

abbreviation return :: "'a \<Rightarrow> 'a outcome" where "return x \<equiv> Some (Inr x)"
abbreviation throw :: "frac_exn \<Rightarrow> 'a outcome" where "throw e \<equiv> Some (Inl e)"

text \<open>\<open>then_do m f\<close> runs \<open>m\<close> and, when it returns a value, \<open>f\<close> on it.\<close>

definition then_do :: "'a outcome \<Rightarrow> ('a \<Rightarrow> 'b outcome) \<Rightarrow> 'b outcome" where
  "then_do m f = Option.bind m (\<lambda>r. case r of Inl e \<Rightarrow> throw e | Inr x \<Rightarrow> f x)"

lemma then_do_simps [simp]:
  "then_do (return x) f = f x" "then_do (throw e) f = throw e" "then_do None f = None"
  by (simp_all add: then_do_def)

lemma then_do_mono [partial_function_mono]:
  fixes m :: "('b \<Rightarrow> 'c option) \<Rightarrow> 'a outcome"
  assumes "mono_option m" "\<And>y. mono_option (\<lambda>f. k y f)"
  shows "mono_option (\<lambda>f. then_do (m f) (\<lambda>y. k y f))"
  unfolding then_do_def
proof (rule bind_mono [OF assms(1)])
  fix r :: "frac_exn + 'a"
  show "mono_option (\<lambda>f. case r of Inl e \<Rightarrow> throw e | Inr x \<Rightarrow> k x f)"
    by (cases r) (simp_all add: assms(2) option.const_mono)
qed

text \<open>The operators of big integers, whose exceptions pass through.\<close>

definition lift_big :: "(big_exn + 'a) option \<Rightarrow> 'a outcome" where
  "lift_big m = map_option (map_sum Big id) m"

definition mul :: "big_int \<Rightarrow> big_int \<Rightarrow> big_int outcome" where
  "mul a b = map_option Inr (times a b)"

text \<open>A machine integer converted to a big integer.\<close>

definition lit :: "int \<Rightarrow> big_int" where
  "lit n = of_long (word_of_int n)"

subsection \<open>The code\<close>

record fraction =
  numerator :: big_int
  denominator :: big_int

definition abs_big :: "big_int \<Rightarrow> big_int" where
  "abs_big numb = (if compare numb (lit 0) = Less then minus (of_ulong 0) numb else numb)"

partial_function (option) gcd_big :: "big_int \<Rightarrow> big_int \<Rightarrow> (frac_exn + big_int) option" where
  "gcd_big a b =
     (if \<not> equals b (lit 0) then then_do (lift_big (modulo_assign a b)) (\<lambda>r. gcd_big b r)
      else return a)"

definition optimise_fr :: "fraction \<Rightarrow> fraction outcome" where
  "optimise_fr f =
     (if equals (denominator f) (lit 0) then throw (Big (InvalidArgument ''Denominator cannot be zero''))
      else if equals (numerator f) (lit 0) then return (f\<lparr>denominator := lit 1\<rparr>)
      else
        (let f = (if compare (numerator f) (lit 0) = Less
                  then f\<lparr>numerator := abs_big (numerator f), denominator := minus (of_ulong 0) (denominator f)\<rparr>
                  else f)
         in then_do (gcd_big (abs_big (numerator f)) (abs_big (denominator f))) (\<lambda>divisor.
            then_do (lift_big (divide_assign (numerator f) divisor)) (\<lambda>n.
            then_do (lift_big (divide_assign (denominator f) divisor)) (\<lambda>d.
            return \<lparr>numerator = n, denominator = d\<rparr>)))))"

definition fraction_of :: "big_int \<Rightarrow> big_int \<Rightarrow> fraction outcome" where
  "fraction_of n d = optimise_fr \<lparr>numerator = n, denominator = d\<rparr>"

definition default_fraction :: fraction where
  "default_fraction = \<lparr>numerator = lit 0, denominator = lit 1\<rparr>"

definition neg_fr :: "fraction \<Rightarrow> fraction outcome" where
  "neg_fr f = optimise_fr (f\<lparr>denominator := minus (of_ulong 0) (denominator f)\<rparr>)"

definition add_fr :: "fraction \<Rightarrow> fraction \<Rightarrow> fraction outcome" where
  "add_fr f other =
     then_do (mul (numerator f) (denominator other)) (\<lambda>x.
     then_do (mul (denominator f) (numerator other)) (\<lambda>y.
     then_do (mul (denominator f) (denominator other)) (\<lambda>d.
     optimise_fr \<lparr>numerator = plus x y, denominator = d\<rparr>)))"

definition sub_fr :: "fraction \<Rightarrow> fraction \<Rightarrow> fraction outcome" where
  "sub_fr f other =
     then_do (mul (numerator f) (denominator other)) (\<lambda>x.
     then_do (mul (denominator f) (numerator other)) (\<lambda>y.
     then_do (mul (denominator f) (denominator other)) (\<lambda>d.
     optimise_fr \<lparr>numerator = minus x y, denominator = d\<rparr>)))"

definition mul_fr :: "fraction \<Rightarrow> fraction \<Rightarrow> fraction outcome" where
  "mul_fr f other =
     then_do (mul (numerator f) (numerator other)) (\<lambda>n.
     then_do (mul (denominator f) (denominator other)) (\<lambda>d.
     optimise_fr \<lparr>numerator = n, denominator = d\<rparr>))"

definition div_fr :: "fraction \<Rightarrow> fraction \<Rightarrow> fraction outcome" where
  "div_fr f other =
     then_do (mul (numerator f) (denominator other)) (\<lambda>n.
     then_do (mul (denominator f) (numerator other)) (\<lambda>d.
     optimise_fr \<lparr>numerator = n, denominator = d\<rparr>))"

definition eq_fr :: "fraction \<Rightarrow> fraction \<Rightarrow> bool" where
  "eq_fr f other \<longleftrightarrow> equals (numerator f) (numerator other) \<and> equals (denominator f) (denominator other)"

definition compare_fr :: "fraction \<Rightarrow> fraction \<Rightarrow> ordering outcome" where
  "compare_fr f other =
     (let this_neg = (compare (denominator f) (lit 0) = Less);
          other_neg = (compare (denominator other) (lit 0) = Less)
      in if this_neg \<noteq> other_neg then return (if this_neg then Less else Greater)
         else
           then_do (mul (numerator f) (abs_big (denominator other))) (\<lambda>lhs.
           then_do (mul (numerator other) (abs_big (denominator f))) (\<lambda>rhs.
           return (if this_neg
                   then (if compare lhs rhs = Less then Greater else if compare lhs rhs = Greater then Less else Equal)
                   else (if compare lhs rhs = Less then Less else if compare lhs rhs = Greater then Greater else Equal)))))"

definition abs_fr :: "fraction \<Rightarrow> fraction outcome" where
  "abs_fr numb =
     then_do (fraction_of (lit 0) (lit 1)) (\<lambda>zero.
     then_do (compare_fr numb zero) (\<lambda>c.
     if c = Less then neg_fr numb else return numb))"

definition to_string_fr :: "fraction \<Rightarrow> string outcome" where
  "to_string_fr f =
     then_do (lift_big (to_string (numerator f))) (\<lambda>n.
     then_do (lift_big (to_string (abs_big (denominator f)))) (\<lambda>d.
     return ((if compare (denominator f) (lit 0) = Less then ''-'' else '''') @ n @ ''/'' @ d)))"

text \<open>The regular expression \<open>^([-+]?[0-9]+)(?:/([-+]?[0-9]+))?$\<close> with its two groups.\<close>

definition is_decimal :: "string \<Rightarrow> bool" where
  "is_decimal s \<longleftrightarrow>
     (let ds = (if s \<noteq> [] \<and> (hd s = CHR ''-'' \<or> hd s = CHR ''+'') then tl s else s)
      in ds \<noteq> [] \<and> (\<forall>c \<in> set ds. 48 \<le> (of_char c :: int) \<and> (of_char c :: int) \<le> 57))"

definition match_fraction :: "string \<Rightarrow> (string \<times> string option) option" where
  "match_fraction input =
     (let n = takeWhile (\<lambda>c. c \<noteq> CHR ''/'') input;
          rest = dropWhile (\<lambda>c. c \<noteq> CHR ''/'') input
      in if \<not> is_decimal n then None
         else if rest = [] then Some (n, None)
         else if is_decimal (tl rest) then Some (n, Some (tl rest)) else None)"

text \<open>\<open>operator>>\<close> on the word that the stream delivers.\<close>

definition read_fr :: "string \<Rightarrow> fraction outcome" where
  "read_fr input =
     (case match_fraction input of
        None \<Rightarrow> throw (Big (InvalidArgument ''Invalid fraction format''))
      | Some (n, d) \<Rightarrow>
          then_do (lift_big (Some (of_string n 10))) (\<lambda>numerator.
          then_do (case d of None \<Rightarrow> return (lit 1) | Some d \<Rightarrow> lift_big (Some (of_string d 10))) (\<lambda>denominator.
          then_do (fraction_of numerator denominator) optimise_fr)))"

partial_function (option) pow_loop :: "fraction \<Rightarrow> fraction \<Rightarrow> nat \<Rightarrow> (frac_exn + fraction) option" where
  "pow_loop base result degree =
     (if 0 < degree then
        then_do (if odd degree then mul_fr result base else return result) (\<lambda>result.
        then_do (mul_fr base base) (\<lambda>base.
        pow_loop base result (degree div 2)))
      else return result)"

definition pow :: "fraction \<Rightarrow> nat \<Rightarrow> fraction outcome" where
  "pow f degree =
     (if degree = 0 then fraction_of (lit 1) (lit 1)
      else then_do (fraction_of (lit 1) (lit 1)) (\<lambda>result. pow_loop f result degree))"

subsection \<open>What a fraction denotes\<close>

abbreviation big0 :: big_int where "big0 \<equiv> of_ulong 0"

definition normal_fr :: "fraction \<Rightarrow> bool" where
  "normal_fr f \<longleftrightarrow> wf (numerator f) \<and> wf (denominator f) \<and> 0 \<le> value (numerator f) \<and> value (denominator f) \<noteq> 0 \<and>
     coprime (value (numerator f)) (value (denominator f)) \<and> (value (numerator f) = 0 \<longrightarrow> value (denominator f) = 1)"

definition frac_val :: "fraction \<Rightarrow> rat" where
  "frac_val f = of_int (value (numerator f)) / of_int (value (denominator f))"

definition short :: "fraction \<Rightarrow> bool" where
  "short f \<longleftrightarrow> \<bar>value (numerator f)\<bar> < 2 ^ 1024 \<and> \<bar>value (denominator f)\<bar> < 2 ^ 1024"

lemma B_32: "(B :: int) ^ 32 = 2 ^ 1024"
proof -
  have "(B :: int) = 2 ^ 32" by simp
  then show ?thesis by (simp only: power_mult [symmetric]) simp
qed

lemma wf_lit [simp]: "wf (lit n)" by (simp add: lit_def)

lemma value_lit [simp]: "- (2 ^ 63) < n \<Longrightarrow> n < 2 ^ 63 \<Longrightarrow> value (lit n) = n"
proof -
  assume n: "- (2 ^ 63) < n" "n < 2 ^ 63"
  show ?thesis
  proof (cases "0 \<le> n")
    case True
    have s: "sint (word_of_int n :: uint64) = n" using n by (simp add: signed_take_bit_int_eq_self sint_sbintrunc')
    then have "0 \<le>s (word_of_int n :: uint64)" "uint (word_of_int n :: uint64) = n"
      using n True by (simp_all add: word_sle_eq uint_word_of_int)
    then show ?thesis by (simp add: lit_def of_long_pos)
  next
    case False
    have s: "sint (word_of_int n :: uint64) = n" using n by (simp add: signed_take_bit_int_eq_self sint_sbintrunc')
    then have "(word_of_int n :: uint64) <s 0" "\<not> 0 \<le>s (word_of_int n :: uint64)" using False by (simp_all add: word_sless_alt word_sle_eq)
    moreover have "uint (- (word_of_int n :: uint64)) = - n"
      unfolding wi_hom_neg uint_word_of_int using n False by simp
    ultimately show ?thesis
      by (simp add: lit_def of_long_def Let_def value_def [of "\<lparr>sign = _, digits = _\<rparr>"] val_append split_number_val)
  qed
qed

lemma compare_lit0 [simp]: "wf a \<Longrightarrow> compare a (lit 0) = Less \<longleftrightarrow> value a < 0"
  by (simp add: compare_value)

lemma equals_lit0 [simp]: "wf a \<Longrightarrow> equals a (lit 0) \<longleftrightarrow> value a = 0"
  by (simp add: equals_value)

lemma abs_big [simp]: "wf a \<Longrightarrow> wf (abs_big a)" "wf a \<Longrightarrow> value (abs_big a) = \<bar>value a\<bar>"
  by (simp_all add: abs_big_def)

lemma mul_value:
  assumes "wf a" "wf b" "\<bar>value b\<bar> < 2 ^ 1024"
  shows "\<exists>r. mul a b = return r \<and> wf r \<and> value r = value a * value b"
proof -
  have e: "Suc 31 = 32" by simp
  have "length (digits b) \<le> 32" using wf_length [OF assms(2), of 31] assms(3) unfolding e B_32 .
  then show ?thesis using times_value [OF assms(1,2)] by (auto simp: mul_def)
qed

lemma modulo_gcd: "wf a \<Longrightarrow> wf b \<Longrightarrow> value b \<noteq> 0 \<Longrightarrow>
    \<exists>r. lift_big (modulo_assign a b) = return r \<and> wf r \<and> value r = \<bar>value a\<bar> mod \<bar>value b\<bar>"
  using modulo_value [of a b] by (auto simp: lift_big_def)

lemma gcd_big_value:
  "wf a \<Longrightarrow> wf b \<Longrightarrow> 0 \<le> value a \<Longrightarrow> 0 \<le> value b \<Longrightarrow>
     \<exists>r. gcd_big a b = return r \<and> wf r \<and> value r = gcd (value a) (value b)"
proof (induction "nat (value b)" arbitrary: a b rule: less_induct)
  case less
  show ?case
  proof (cases "value b = 0")
    case True
    then show ?thesis using less.prems by (simp add: gcd_big.simps [of a b])
  next
    case False
    obtain r where r: "lift_big (modulo_assign a b) = return r" "wf r" "value r = value a mod value b"
      using modulo_gcd [of a b] less.prems False by auto
    then have "\<exists>s. gcd_big b r = return s \<and> wf s \<and> value s = gcd (value b) (value r)"
      using less.prems False by (intro less.hyps) auto
    moreover have "gcd (value b) (value r) = gcd (value a) (value b)" using r(3) gcd_red_int [of "value a" "value b"] by simp
    ultimately show ?thesis using less.prems False r(1) by (simp add: gcd_big.simps [of a b])
  qed
qed

lemma divide_exact:
  assumes "wf a" "wf b" "0 < value b" "value b dvd value a"
  shows "\<exists>r. lift_big (divide_assign a b) = return r \<and> wf r \<and> value r = value a div value b"
proof -
  obtain r where r: "divide_assign a b = Some (Inr r)" "wf r" "value r = sgn_mult (value a) (value b) (\<bar>value a\<bar> div \<bar>value b\<bar>)"
    using divide_value [OF assms(1,2)] assms(3) by auto
  obtain k where "value a = value b * k" using assms(4) by (rule dvdE)
  then have "value r = value a div value b"
    using r(3) assms(3) by (auto simp: sgn_mult_def abs_mult zero_le_mult_iff)
  then show ?thesis using r(1,2) by (simp add: lift_big_def)
qed

lemma optimise_fr_value:
  assumes "wf n" "wf d" "value d \<noteq> 0"
  shows "\<exists>g. optimise_fr \<lparr>numerator = n, denominator = d\<rparr> = return g \<and> normal_fr g \<and>
    frac_val g = of_int (value n) / of_int (value d)"
proof (cases "value n = 0")
  case True
  then show ?thesis using assms by (simp add: optimise_fr_def normal_fr_def frac_val_def)
next
  case False
  define n1 where "n1 = (if value n < 0 then abs_big n else n)"
  define d1 where "d1 = (if value n < 0 then minus (of_ulong 0) d else d)"
  have w: "wf n1" "wf d1" "0 < value n1" "value d1 \<noteq> 0" using assms False by (simp_all add: n1_def d1_def)
  obtain g where g: "gcd_big (abs_big n1) (abs_big d1) = return g" "wf g" "value g = gcd (value n1) (value d1)"
    using gcd_big_value [of "abs_big n1" "abs_big d1"] w by auto
  have gp: "0 < value g" using g(3) w by simp
  obtain n2 where n2: "lift_big (divide_assign n1 g) = return n2" "wf n2" "value n2 = value n1 div value g"
    using divide_exact [OF w(1) g(2) gp] g(3) by auto
  obtain d2 where d2: "lift_big (divide_assign d1 g) = return d2" "wf d2" "value d2 = value d1 div value g"
    using divide_exact [OF w(2) g(2) gp] g(3) by auto
  have "optimise_fr \<lparr>numerator = n, denominator = d\<rparr> = return \<lparr>numerator = n2, denominator = d2\<rparr>"
    using assms False g(1) n2(1) d2(1) by (cases "value n < 0") (simp_all add: optimise_fr_def n1_def d1_def)
  moreover have "normal_fr \<lparr>numerator = n2, denominator = d2\<rparr>"
  proof -
    have "coprime (value n2) (value d2)" using n2(3) d2(3) g(3) w(3) div_gcd_coprime [of "value n1" "value d1"] by simp
    moreover have "0 < value n2" using n2(3) g(3) w(3) gp by (simp add: pos_imp_zdiv_pos_iff zdvd_imp_le)
    moreover have "value d2 \<noteq> 0" using d2(3) g(3) w(4) gp dvd_div_eq_0_iff [of "value g" "value d1"] by simp
    ultimately show ?thesis using n2(2) d2(2) by (simp add: normal_fr_def)
  qed
  moreover have "frac_val \<lparr>numerator = n2, denominator = d2\<rparr> = of_int (value n) / of_int (value d)"
  proof -
    have "value n1 = value n2 * value g" "value d1 = value d2 * value g" using n2(3) d2(3) g(3) by simp_all
    then have "of_int (value n2) / of_int (value d2) = of_int (value n1) / (of_int (value d1) :: rat)" using gp by simp
    also have "\<dots> = of_int (value n) / of_int (value d)" using assms by (simp add: n1_def d1_def)
    finally show ?thesis by (simp add: frac_val_def)
  qed
  ultimately show ?thesis by blast
qed

lemma optimise_fr_zero: "wf d \<Longrightarrow> value d = 0 \<Longrightarrow>
    optimise_fr \<lparr>numerator = n, denominator = d\<rparr> = throw (Big (InvalidArgument ''Denominator cannot be zero''))"
  by (simp add: optimise_fr_def)

lemma normal_fr_unique:
  assumes "normal_fr f" "normal_fr g" "frac_val f = frac_val g"
  shows "f = g"
proof -
  define a b c d where v: "a = value (numerator f)" "b = value (denominator f)" "c = value (numerator g)" "d = value (denominator g)"
  have n: "0 \<le> a" "b \<noteq> 0" "coprime a b" "0 \<le> c" "d \<noteq> 0" "coprime c d" "a = 0 \<longrightarrow> b = 1" "c = 0 \<longrightarrow> d = 1"
    using assms(1,2) by (simp_all add: normal_fr_def v)
  have "of_int (a * d) = (of_int (c * b) :: rat)" using assms(3) n by (simp add: frac_val_def v [symmetric] frac_eq_eq)
  then have e: "a * d = c * b" by (simp only: of_int_eq_iff)
  have "a dvd c" using e n(3) by (metis coprime_dvd_mult_left_iff dvd_triv_left)
  moreover have "c dvd a" using e n(6) by (metis coprime_dvd_mult_left_iff dvd_triv_left)
  ultimately have "a = c" using n(1,4) by (rule zdvd_antisym_nonneg [rotated 2])
  then have "a = c \<and> b = d" using e n(7,8) by (cases "a = 0") auto
  then have "numerator f = numerator g" "denominator f = denominator g"
    using assms(1,2) wf_unique by (auto simp: v normal_fr_def)
  then show ?thesis by simp
qed

subsection \<open>Arithmetic\<close>

lemma normal_frD:
  assumes "normal_fr f"
  shows "wf (numerator f)" "wf (denominator f)" "0 \<le> value (numerator f)" "value (denominator f) \<noteq> 0"
    "(of_int (value (denominator f)) :: rat) \<noteq> 0"
  using assms by (simp_all add: normal_fr_def)

lemma shortD:
  "short f \<Longrightarrow> \<bar>value (numerator f)\<bar> < 2 ^ 1024" "short f \<Longrightarrow> \<bar>value (denominator f)\<bar> < 2 ^ 1024"
  by (simp_all add: short_def)

definition computes :: "fraction outcome \<Rightarrow> rat \<Rightarrow> bool" where
  "computes m r \<longleftrightarrow> (\<exists>f. m = return f \<and> normal_fr f \<and> frac_val f = r)"

lemma computesI: "m = return f \<Longrightarrow> normal_fr f \<Longrightarrow> frac_val f = r \<Longrightarrow> computes m r"
  by (auto simp: computes_def)

lemma computesE: assumes "computes m r" obtains f where "m = return f" "normal_fr f" "frac_val f = r"
  using assms by (auto simp: computes_def)

lemma optimise_computes:
  "wf n \<Longrightarrow> wf d \<Longrightarrow> value d \<noteq> 0 \<Longrightarrow> r = of_int (value n) / of_int (value d) \<Longrightarrow>
     computes (optimise_fr \<lparr>numerator = n, denominator = d\<rparr>) r"
  using optimise_fr_value [of n d] by (auto simp: computes_def)

lemma fraction_of_computes:
  "- (2 ^ 63) < n \<Longrightarrow> n < 2 ^ 63 \<Longrightarrow> - (2 ^ 63) < d \<Longrightarrow> d < 2 ^ 63 \<Longrightarrow> d \<noteq> 0 \<Longrightarrow>
     computes (fraction_of (lit n) (lit d)) (of_int n / of_int d)"
  unfolding fraction_of_def by (rule optimise_computes) simp_all

lemma neg_computes:
  assumes "normal_fr f" shows "computes (neg_fr f) (- frac_val f)"
proof -
  note n = normal_frD [OF assms]
  have "neg_fr f = optimise_fr \<lparr>numerator = numerator f, denominator = minus (of_ulong 0) (denominator f)\<rparr>"
    by (cases f) (simp add: neg_fr_def)
  moreover have "computes \<dots> (- frac_val f)" by (rule optimise_computes) (use n in \<open>simp_all add: frac_val_def\<close>)
  ultimately show ?thesis by simp
qed

lemma add_computes:
  assumes "normal_fr f" "normal_fr g" "short g" shows "computes (add_fr f g) (frac_val f + frac_val g)"
proof -
  note n = normal_frD [OF assms(1)] normal_frD [OF assms(2)] shortD [OF assms(3)]
  obtain x where x: "mul (numerator f) (denominator g) = return x" "wf x" "value x = value (numerator f) * value (denominator g)"
    using mul_value [of "numerator f" "denominator g"] n by auto
  obtain y where y: "mul (denominator f) (numerator g) = return y" "wf y" "value y = value (denominator f) * value (numerator g)"
    using mul_value [of "denominator f" "numerator g"] n by auto
  obtain d where d: "mul (denominator f) (denominator g) = return d" "wf d" "value d = value (denominator f) * value (denominator g)"
    using mul_value [of "denominator f" "denominator g"] n by auto
  have "computes (optimise_fr \<lparr>numerator = plus x y, denominator = d\<rparr>) (frac_val f + frac_val g)"
    by (rule optimise_computes) (use n x y d in \<open>simp_all add: frac_val_def field_simps\<close>)
  then show ?thesis using x y d by (simp add: add_fr_def)
qed

lemma sub_computes:
  assumes "normal_fr f" "normal_fr g" "short g" shows "computes (sub_fr f g) (frac_val f - frac_val g)"
proof -
  note n = normal_frD [OF assms(1)] normal_frD [OF assms(2)] shortD [OF assms(3)]
  obtain x where x: "mul (numerator f) (denominator g) = return x" "wf x" "value x = value (numerator f) * value (denominator g)"
    using mul_value [of "numerator f" "denominator g"] n by auto
  obtain y where y: "mul (denominator f) (numerator g) = return y" "wf y" "value y = value (denominator f) * value (numerator g)"
    using mul_value [of "denominator f" "numerator g"] n by auto
  obtain d where d: "mul (denominator f) (denominator g) = return d" "wf d" "value d = value (denominator f) * value (denominator g)"
    using mul_value [of "denominator f" "denominator g"] n by auto
  have "computes (optimise_fr \<lparr>numerator = minus x y, denominator = d\<rparr>) (frac_val f - frac_val g)"
    by (rule optimise_computes) (use n x y d in \<open>simp_all add: frac_val_def field_simps\<close>)
  then show ?thesis using x y d by (simp add: sub_fr_def)
qed

lemma mul_computes:
  assumes "normal_fr f" "normal_fr g" "short g" shows "computes (mul_fr f g) (frac_val f * frac_val g)"
proof -
  note n = normal_frD [OF assms(1)] normal_frD [OF assms(2)] shortD [OF assms(3)]
  obtain x where x: "mul (numerator f) (numerator g) = return x" "wf x" "value x = value (numerator f) * value (numerator g)"
    using mul_value [of "numerator f" "numerator g"] n by auto
  obtain d where d: "mul (denominator f) (denominator g) = return d" "wf d" "value d = value (denominator f) * value (denominator g)"
    using mul_value [of "denominator f" "denominator g"] n by auto
  have "computes (optimise_fr \<lparr>numerator = x, denominator = d\<rparr>) (frac_val f * frac_val g)"
    by (rule optimise_computes) (use n x d in \<open>simp_all add: frac_val_def field_simps\<close>)
  then show ?thesis using x d by (simp add: mul_fr_def)
qed

lemma frac_zero: "normal_fr g \<Longrightarrow> frac_val g = 0 \<longleftrightarrow> value (numerator g) = 0"
  using normal_frD(4) [of g] by (simp add: frac_val_def)

lemma div_computes:
  assumes "normal_fr f" "normal_fr g" "short g"
  shows "if frac_val g = 0 then div_fr f g = throw (Big (InvalidArgument ''Denominator cannot be zero''))
    else computes (div_fr f g) (frac_val f / frac_val g)"
proof -
  note n = normal_frD [OF assms(1)] normal_frD [OF assms(2)] shortD [OF assms(3)]
  obtain x where x: "mul (numerator f) (denominator g) = return x" "wf x" "value x = value (numerator f) * value (denominator g)"
    using mul_value [of "numerator f" "denominator g"] n by auto
  obtain d where d: "mul (denominator f) (numerator g) = return d" "wf d" "value d = value (denominator f) * value (numerator g)"
    using mul_value [of "denominator f" "numerator g"] n by auto
  show ?thesis
  proof (cases "frac_val g = 0")
    case True
    then show ?thesis using x d frac_zero [OF assms(2)] by (simp add: div_fr_def optimise_fr_zero)
  next
    case False
    then have nz: "value (numerator g) \<noteq> 0" using frac_zero [OF assms(2)] by simp
    have "computes (optimise_fr \<lparr>numerator = x, denominator = d\<rparr>) (frac_val f / frac_val g)"
      by (rule optimise_computes) (use n x d nz in \<open>simp_all add: frac_val_def field_simps\<close>)
    then show ?thesis using x d False by (simp add: div_fr_def)
  qed
qed

subsection \<open>Comparison\<close>

definition cmp_rat :: "rat \<Rightarrow> rat \<Rightarrow> ordering" where
  "cmp_rat a b = (if a < b then Less else if a = b then Equal else Greater)"

lemma cmp_rat_simps [simp]:
  "cmp_rat a b = Less \<longleftrightarrow> a < b" "cmp_rat a b = Equal \<longleftrightarrow> a = b" "cmp_rat a b = Greater \<longleftrightarrow> b < a"
  by (auto simp: cmp_rat_def)

lemma frac_neg_iff: "normal_fr f \<Longrightarrow> frac_val f < 0 \<longleftrightarrow> value (denominator f) < 0"
proof -
  assume f: "normal_fr f"
  show ?thesis
  proof (cases "value (numerator f) = 0")
    case True
    then show ?thesis using f by (simp add: frac_val_def normal_fr_def)
  next
    case False
    then have "0 < value (numerator f)" using normal_frD(3) [OF f] by simp
    then show ?thesis using normal_frD(4) [OF f] by (simp add: frac_val_def divide_less_0_iff)
  qed
qed

lemma frac_abs: "normal_fr f \<Longrightarrow> \<bar>frac_val f\<bar> = of_int (value (numerator f)) / of_int \<bar>value (denominator f)\<bar>"
  using normal_frD(3) [of f] by (simp add: frac_val_def abs_divide)

lemma cmp_cross:
  assumes "0 < b" "0 < (d::int)"
  shows "cmp_int (a * d) (c * b) = cmp_rat (of_int a / of_int b) (of_int c / of_int d)"
proof -
  have "(of_int a / of_int b < (of_int c / of_int d :: rat)) = (a * d < c * b)"
    using assms by (simp add: divide_less_eq less_divide_eq field_simps flip: of_int_mult)
  moreover have "(of_int a / of_int b = (of_int c / of_int d :: rat)) = (a * d = c * b)"
    using assms by (simp add: frac_eq_eq flip: of_int_mult)
  ultimately show ?thesis by (simp add: cmp_int_def cmp_rat_def)
qed

lemma compare_fr_value:
  assumes "normal_fr f" "normal_fr g" "short f" "short g"
  shows "compare_fr f g = return (cmp_rat (frac_val f) (frac_val g))"
proof -
  note n = normal_frD [OF assms(1)] normal_frD [OF assms(2)] shortD [OF assms(3)] shortD [OF assms(4)]
  note s = frac_neg_iff [OF assms(1)] frac_neg_iff [OF assms(2)]
  obtain l where l: "mul (numerator f) (abs_big (denominator g)) = return l" "wf l" "value l = value (numerator f) * \<bar>value (denominator g)\<bar>"
    using mul_value [of "numerator f" "abs_big (denominator g)"] n by auto
  obtain r where r: "mul (numerator g) (abs_big (denominator f)) = return r" "wf r" "value r = value (numerator g) * \<bar>value (denominator f)\<bar>"
    using mul_value [of "numerator g" "abs_big (denominator f)"] n by auto
  have "compare l r = cmp_rat \<bar>frac_val f\<bar> \<bar>frac_val g\<bar>"
    unfolding frac_abs [OF assms(1)] frac_abs [OF assms(2)]
    using l r cmp_cross [of "\<bar>value (denominator f)\<bar>" "\<bar>value (denominator g)\<bar>" "value (numerator f)" "value (numerator g)"] n
    by (simp add: compare_value)
  then show ?thesis
    using l r n s by (auto simp: compare_fr_def cmp_rat_def)
qed

lemma abs_computes:
  assumes "normal_fr f" "short f" shows "computes (abs_fr f) \<bar>frac_val f\<bar>"
proof -
  obtain z where z: "fraction_of (lit 0) (lit 1) = return z" "normal_fr z" "frac_val z = 0"
    using fraction_of_computes [of 0 1] by (auto elim: computesE)
  have "short z" using z(2,3) frac_zero [OF z(2)] by (auto simp: short_def normal_fr_def)
  then have "compare_fr f z = return (cmp_rat (frac_val f) 0)" using compare_fr_value [OF assms(1) z(2) assms(2)] z(3) by simp
  then show ?thesis
    using z(1) neg_computes [OF assms(1)] assms(1) by (auto simp: abs_fr_def computes_def)
qed

subsection \<open>Parts in range\<close>

text \<open>A rational number with a numerator and a denominator below 2 to the power of 1024.\<close>

definition fits :: "rat \<Rightarrow> bool" where
  "fits r \<longleftrightarrow> (\<exists>c d. d \<noteq> 0 \<and> \<bar>c\<bar> < 2 ^ 1024 \<and> \<bar>d\<bar> < 2 ^ 1024 \<and> r = of_int c / of_int d)"

lemma lowest_terms:
  assumes "normal_fr g" "frac_val g = of_int c / of_int d" "d \<noteq> 0"
  shows "\<bar>value (numerator g)\<bar> \<le> \<bar>c\<bar> \<and> \<bar>value (denominator g)\<bar> \<le> \<bar>d\<bar>"
proof -
  define a b where v: "a = value (numerator g)" "b = value (denominator g)"
  have n: "b \<noteq> 0" "coprime a b" using assms(1) by (simp_all add: normal_fr_def v)
  have "of_int (a * d) = (of_int (c * b) :: rat)" using assms(2,3) n by (simp add: frac_val_def v [symmetric] frac_eq_eq)
  then have e: "a * d = c * b" by (simp only: of_int_eq_iff)
  have "a dvd c" using e n(2) by (metis coprime_dvd_mult_left_iff dvd_triv_left)
  then have "\<bar>a\<bar> \<le> \<bar>c\<bar>" using e assms(3) n(1) by (cases "c = 0") (auto intro: dvd_imp_le_int)
  moreover have "b dvd d" using e n(2) by (metis coprime_commute coprime_dvd_mult_right_iff dvd_triv_right)
  then have "\<bar>b\<bar> \<le> \<bar>d\<bar>" using assms(3) by (auto intro: dvd_imp_le_int)
  ultimately show ?thesis by (simp add: v)
qed

lemma fits_short: "normal_fr g \<Longrightarrow> fits (frac_val g) \<Longrightarrow> short g"
  using lowest_terms [of g] by (fastforce simp: fits_def short_def)

lemma fitsI: "d \<noteq> 0 \<Longrightarrow> \<bar>c\<bar> < 2 ^ 1024 \<Longrightarrow> \<bar>d\<bar> < 2 ^ 1024 \<Longrightarrow> fits (of_int c / of_int d)"
  by (auto simp: fits_def)

subsection \<open>Powers\<close>

lemma pow_loop_computes:
  "normal_fr base \<Longrightarrow> normal_fr result \<Longrightarrow> (\<forall>j \<le> n. fits (frac_val base ^ j)) \<Longrightarrow>
     computes (pow_loop base result n) (frac_val result * frac_val base ^ n)"
proof (induction n arbitrary: base result rule: less_induct)
  case (less n)
  show ?case
  proof (cases "n = 0")
    case True
    then show ?thesis using less.prems by (simp add: pow_loop.simps [of base result 0] computes_def)
  next
    case False
    have "fits (frac_val base ^ 1)" using less.prems(3) False by (metis One_nat_def Suc_leI neq0_conv)
    then have sb: "short base" using fits_short less.prems(1) by simp
    have "computes (if odd n then mul_fr result base else return result) (frac_val result * frac_val base ^ (n mod 2))"
      using mul_computes [OF less.prems(2,1) sb] less.prems(2) by (auto simp: computes_def odd_iff_mod_2_eq_one)
    then obtain r where r: "(if odd n then mul_fr result base else return result) = return r" "normal_fr r"
        "frac_val r = frac_val result * frac_val base ^ (n mod 2)" by (rule computesE)
    obtain b where b: "mul_fr base base = return b" "normal_fr b" "frac_val b = frac_val base * frac_val base"
      using mul_computes [OF less.prems(1,1) sb] by (rule computesE)
    have sq: "frac_val b ^ j = frac_val base ^ (2 * j)" for j using b(3) by (simp add: power_mult power2_eq_square)
    have "fits (frac_val b ^ j)" if "j \<le> n div 2" for j unfolding sq using that less.prems(3) by auto
    then have "computes (pow_loop b r (n div 2)) (frac_val r * frac_val b ^ (n div 2))"
      using less.IH [of "n div 2" b r] b(2) r(2) False by simp
    moreover have "frac_val r * frac_val b ^ (n div 2) = frac_val result * frac_val base ^ n"
      unfolding r(3) sq by (simp add: mult.assoc flip: power_add)
    ultimately show ?thesis using False r(1) b(1) by (simp add: pow_loop.simps [of base result n])
  qed
qed

lemma power_below: "\<bar>a\<bar> ^ n < 2 ^ 1024 \<Longrightarrow> j \<le> n \<Longrightarrow> \<bar>(a::int) ^ j\<bar> < 2 ^ 1024"
proof -
  assume a: "\<bar>a\<bar> ^ n < 2 ^ 1024" "j \<le> n"
  show ?thesis
  proof (cases "a = 0")
    case True
    then show ?thesis by (cases j) simp_all
  next
    case False
    then have "\<bar>a\<bar> ^ j \<le> \<bar>a\<bar> ^ n" using a(2) by (intro power_increasing) auto
    then show ?thesis using a(1) by (simp add: power_abs)
  qed
qed

subsection \<open>Text\<close>

lemma decimal_digit: "is_valid_digit c 10 \<longleftrightarrow> 48 \<le> (of_char c :: int) \<and> (of_char c :: int) \<le> 57"
  by (auto simp: valid_digit char_digit_def Let_def)

lemma dec_decimal: "\<forall>c \<in> set (dec n). 48 \<le> (of_char c :: int) \<and> (of_char c :: int) \<le> 57"
  using dec_spec [of n] by (simp add: decimal_digit)

lemma dec_no_slash: "\<forall>c \<in> set (dec n). c \<noteq> CHR ''/''"
  using dec_decimal [of n] by (auto dest: bspec)

lemma dec_not_Nil: "dec n \<noteq> []"
  by (subst dec.simps) simp

lemma is_decimal_dec: "is_decimal (dec n)" "is_decimal (CHR ''-'' # dec n)"
proof -
  have "hd (dec n) \<in> set (dec n)" using dec_not_Nil by simp
  then have "hd (dec n) \<noteq> CHR ''-''" "hd (dec n) \<noteq> CHR ''+''" using dec_decimal [of n] by (auto dest!: bspec)
  then show "is_decimal (dec n)" "is_decimal (CHR ''-'' # dec n)"
    using dec_decimal [of n] dec_not_Nil by (auto simp: is_decimal_def)
qed

lemma of_string_dec:
  "\<exists>b. of_string (dec n) 10 = Inr b \<and> wf b \<and> value b = int n" "\<exists>b. of_string (CHR ''-'' # dec n) 10 = Inr b \<and> wf b \<and> value b = - int n"
proof -
  show "\<exists>b. of_string (dec n) 10 = Inr b \<and> wf b \<and> value b = int n"
    using of_string_digits [of 10 "''''" "dec n"] dec_spec [of n] by auto
  show "\<exists>b. of_string (CHR ''-'' # dec n) 10 = Inr b \<and> wf b \<and> value b = - int n"
    using of_string_digits [of 10 "''-''" "dec n"] dec_spec [of n] by auto
qed

lemma read_signed:
  assumes "sg \<in> {'''', ''-''}" "d \<noteq> 0"
  shows "computes (read_fr (sg @ dec n @ ''/'' @ dec d)) ((if sg = ''-'' then - of_nat n else of_nat n) / of_nat d)"
proof -
  define t where "t = sg @ dec n"
  have slash: "\<forall>c \<in> set t. c \<noteq> CHR ''/''" using assms(1) dec_no_slash [of n] unfolding t_def by (elim insertE emptyE) simp_all
  have "is_decimal t" using assms(1) is_decimal_dec [of n] unfolding t_def by (elim insertE emptyE) simp_all
  moreover have "takeWhile (\<lambda>c. c \<noteq> CHR ''/'') (t @ ''/'' @ dec d) = t" "dropWhile (\<lambda>c. c \<noteq> CHR ''/'') (t @ ''/'' @ dec d) = ''/'' @ dec d"
    using slash by (simp_all add: takeWhile_append2 dropWhile_append2)
  ultimately have m: "match_fraction (t @ ''/'' @ dec d) = Some (t, Some (dec d))"
    using is_decimal_dec [of d] by (simp add: match_fraction_def)
  obtain a where a: "of_string t 10 = Inr a" "wf a" "value a = (if sg = ''-'' then - int n else int n)"
    using assms(1) of_string_dec [of n] unfolding t_def by (elim insertE emptyE) auto
  obtain b where b: "of_string (dec d) 10 = Inr b" "wf b" "value b = int d" using of_string_dec [of d] by blast
  obtain f where f: "fraction_of a b = return f" "normal_fr f" "frac_val f = of_int (value a) / of_int (value b)"
    using optimise_fr_value [OF a(2) b(2)] b(3) assms(2) by (auto simp: fraction_of_def)
  have "optimise_fr f = optimise_fr \<lparr>numerator = numerator f, denominator = denominator f\<rparr>" by (cases f) simp
  then have "computes (optimise_fr f) (frac_val f)"
    using optimise_computes [of "numerator f" "denominator f" "frac_val f"] normal_frD [OF f(2)] by (simp add: frac_val_def)
  then show ?thesis using m a b f by (cases "sg = ''-''") (simp_all add: read_fr_def lift_big_def t_def flip: append_assoc)
qed

subsection \<open>Properties\<close>



text \<open>C31: Reading back the text of a fraction in lowest terms, of any size, gives the fraction.\<close>
theorem fraction_text_reads_back:
  assumes "normal_fr f"
  shows "\<exists>s. to_string_fr f = return s \<and> read_fr s = return f"
proof -
  note n = normal_frD [OF assms]
  define sg where "sg = (if value (denominator f) < 0 then ''-'' else '''')"
  define a b where "a = nat (value (numerator f))" "b = nat \<bar>value (denominator f)\<bar>"
  have "to_string (numerator f) = Some (Inr (dec a))" "to_string (abs_big (denominator f)) = Some (Inr (dec b))"
    using to_string_spec [OF n(1)] to_string_spec [OF abs_big(1) [OF n(2)]] n by (simp_all add: show_int_def a_b_def)
  then have s: "to_string_fr f = return (sg @ dec a @ ''/'' @ dec b)"
    using n(2) by (simp add: to_string_fr_def lift_big_def sg_def)
  have v: "(if sg = ''-'' then - of_nat a else of_nat a) / of_nat b = frac_val f"
    using n(3,4) by (auto simp: sg_def a_b_def frac_val_def)
  have "computes (read_fr (sg @ dec a @ ''/'' @ dec b)) (frac_val f)"
    using read_signed [of sg b a] n(4) unfolding v by (simp add: sg_def a_b_def)
  then show ?thesis using s normal_fr_unique [OF _ assms] by (auto simp: computes_def)
qed

text \<open>The power by repeated squaring is exact while the power of the larger part stays below 2 to the power
  of 1024.\<close>
theorem fraction_pow_exact:
  assumes "normal_fr f" "\<bar>value (numerator f)\<bar> ^ n < 2 ^ 1024" "\<bar>value (denominator f)\<bar> ^ n < 2 ^ 1024"
  shows "computes (pow f n) (frac_val f ^ n)"
proof -
  obtain e where e: "fraction_of (lit 1) (lit 1) = return e" "normal_fr e" "frac_val e = 1"
    using fraction_of_computes [of 1 1] by (auto elim: computesE)
  have "fits (frac_val f ^ j)" if "j \<le> n" for j
  proof -
    have "frac_val f ^ j = of_int (value (numerator f) ^ j) / of_int (value (denominator f) ^ j)"
      by (simp add: frac_val_def power_divide)
    then show ?thesis
      using fitsI [of "value (denominator f) ^ j" "value (numerator f) ^ j"] normal_frD(4) [OF assms(1)]
        power_below [OF assms(2) that] power_below [OF assms(3) that] by simp
  qed
  then have "computes (pow_loop f e n) (frac_val f ^ n)" using pow_loop_computes [OF assms(1) e(2)] e(3) by simp
  then show ?thesis using e computesI [OF e(1,2)] by (simp add: pow_def)
qed

text \<open>-3/4 and 5/7.\<close>

definition minus_three_quarters :: fraction where
  "minus_three_quarters = \<lparr>numerator = \<lparr>sign = True, digits = [3]\<rparr>, denominator = \<lparr>sign = False, digits = [4]\<rparr>\<rparr>"

definition five_sevenths :: fraction where
  "five_sevenths = \<lparr>numerator = \<lparr>sign = True, digits = [5]\<rparr>, denominator = \<lparr>sign = True, digits = [7]\<rparr>\<rparr>"

lemma sample_fractions:
  "normal_fr minus_three_quarters" "normal_fr five_sevenths" "short minus_three_quarters" "short five_sevenths"
  "frac_val minus_three_quarters = - 3 / 4" "frac_val five_sevenths = 5 / 7"
  by (simp_all add: minus_three_quarters_def five_sevenths_def normal_fr_def short_def frac_val_def wf_def normal_def value_def
    coprime_iff_gcd_eq_1 gcd_non_0_int)



theorem fraction_text_reads_back_witness: "\<exists>s. to_string_fr minus_three_quarters = return s \<and> read_fr s = return minus_three_quarters"
  by (rule fraction_text_reads_back [OF sample_fractions(1)])

theorem fraction_pow_exact_witness: "computes (pow minus_three_quarters 3) (- 27 / 64)"
  using fraction_pow_exact [OF sample_fractions(1), of 3]
  by (simp add: sample_fractions) (simp add: minus_three_quarters_def value_def power3_eq_cube)

end
