(* ===== verification/FractionSeries.thy ===== *)
theory FractionSeries
  imports Fraction
begin

text \<open>
  The functions of a fraction that are computed by series (arithmetic/fraction/src/fraction.cpp): the
  trigonometric functions and their inverses, logarithms and roots. The loops run until a term is within
  \<open>epsilon\<close>. The counters of type int are mathematical integers with a check of their 32 bits, beyond
  which the behaviour is undefined (None). The lemmas relate the values to the Taylor polynomials, and
  these to the real functions.
\<close>

definition int32 :: "int \<Rightarrow> int outcome" where
  "int32 v = (if - (2 ^ 31) \<le> v \<and> v < 2 ^ 31 then return v else None)"

definition greater :: "fraction \<Rightarrow> fraction \<Rightarrow> bool outcome" where
  "greater f g = then_do (compare_fr f g) (\<lambda>c. return (c = Greater))"

definition less_fr :: "fraction \<Rightarrow> fraction \<Rightarrow> bool outcome" where
  "less_fr f g = then_do (compare_fr f g) (\<lambda>c. return (c = Less))"

definition less_eq_fr :: "fraction \<Rightarrow> fraction \<Rightarrow> bool outcome" where
  "less_eq_fr f g = then_do (compare_fr f g) (\<lambda>c. return (c \<noteq> Greater))"

abbreviation int_fraction :: "int \<Rightarrow> int \<Rightarrow> fraction outcome" where
  "int_fraction n d \<equiv> fraction_of (lit n) (lit d)"

subsection \<open>Sine and cosine\<close>

text \<open>\<open>-x * x\<close>.\<close>

definition neg_square :: "fraction \<Rightarrow> fraction outcome" where
  "neg_square x = then_do (neg_fr x) (\<lambda>m. mul_fr m x)"

partial_function (option) sin_loop ::
  "fraction \<Rightarrow> fraction \<Rightarrow> fraction \<Rightarrow> fraction \<Rightarrow> int \<Rightarrow> (frac_exn + fraction) option" where
  "sin_loop x eps result term n =
     then_do (abs_fr term) (\<lambda>a.
     then_do (greater a eps) (\<lambda>go.
     if go then
       then_do (add_fr result term) (\<lambda>result.
       then_do (neg_square x) (\<lambda>sq.
       then_do (mul_fr term sq) (\<lambda>term.
       then_do (int32 (2 * n * (2 * n + 1))) (\<lambda>d.
       then_do (int_fraction d 1) (\<lambda>d.
       then_do (div_fr term d) (\<lambda>term.
       sin_loop x eps result term (n + 1)))))))
     else return result))"

definition sin_fr :: "fraction \<Rightarrow> fraction \<Rightarrow> fraction outcome" where
  "sin_fr x eps = then_do (int_fraction 0 1) (\<lambda>result. sin_loop x eps result x 1)"

partial_function (option) cos_loop ::
  "fraction \<Rightarrow> fraction \<Rightarrow> fraction \<Rightarrow> fraction \<Rightarrow> int \<Rightarrow> (frac_exn + fraction) option" where
  "cos_loop x eps result term n =
     then_do (neg_square x) (\<lambda>sq.
     then_do (mul_fr term sq) (\<lambda>term.
     then_do (int32 ((2 * n - 1) * (2 * n))) (\<lambda>d.
     then_do (int_fraction d 1) (\<lambda>d.
     then_do (div_fr term d) (\<lambda>term.
     then_do (abs_fr term) (\<lambda>a.
     then_do (less_eq_fr a eps) (\<lambda>stop.
     if stop then return result
     else then_do (add_fr result term) (\<lambda>result. cos_loop x eps result term (n + 1)))))))))"

definition cos_fr :: "fraction \<Rightarrow> fraction \<Rightarrow> fraction outcome" where
  "cos_fr x eps =
     then_do (int_fraction 1 1) (\<lambda>result.
     then_do (int_fraction 1 1) (\<lambda>term. cos_loop x eps result term 1))"

subsection \<open>The functions made of these\<close>

definition tg :: "fraction \<Rightarrow> fraction \<Rightarrow> fraction outcome" where
  "tg x eps =
     then_do (mul_fr eps eps) (\<lambda>e.
     then_do (cos_fr x e) (\<lambda>cosine.
     if equals (numerator cosine) (lit 0) then throw (Domain_error ''Tangent undefined'')
     else then_do (mul_fr eps eps) (\<lambda>e. then_do (sin_fr x e) (\<lambda>sine. div_fr sine cosine))))"

definition ctg :: "fraction \<Rightarrow> fraction \<Rightarrow> fraction outcome" where
  "ctg x eps =
     then_do (mul_fr eps eps) (\<lambda>e.
     then_do (sin_fr x e) (\<lambda>sine.
     if equals (numerator sine) (lit 0) then throw (Domain_error ''Cotangent undefined'')
     else then_do (mul_fr eps eps) (\<lambda>e. then_do (cos_fr x e) (\<lambda>cosine. div_fr cosine sine))))"

definition sec :: "fraction \<Rightarrow> fraction \<Rightarrow> fraction outcome" where
  "sec x eps =
     then_do (cos_fr x eps) (\<lambda>cosine.
     if equals (numerator cosine) (lit 0) then throw (Domain_error ''Secant undefined'')
     else then_do (int_fraction 1 1) (\<lambda>one. div_fr one cosine))"

definition cosec :: "fraction \<Rightarrow> fraction \<Rightarrow> fraction outcome" where
  "cosec x eps =
     then_do (sin_fr x eps) (\<lambda>sine.
     if equals (numerator sine) (lit 0) then throw (Domain_error ''Cosecant undefined'')
     else then_do (int_fraction 1 1) (\<lambda>one. div_fr one sine))"

subsection \<open>Inverse functions\<close>

text \<open>\<open>x > fraction(1, 1) || x < fraction(-1, 1)\<close>.\<close>

definition beyond_one :: "fraction \<Rightarrow> bool outcome" where
  "beyond_one x =
     then_do (int_fraction 1 1) (\<lambda>one.
     then_do (greater x one) (\<lambda>above.
     if above then return True
     else then_do (int_fraction (- 1) 1) (\<lambda>minus_one. less_fr x minus_one)))"

partial_function (option) arcsin_loop ::
  "fraction \<Rightarrow> fraction \<Rightarrow> fraction \<Rightarrow> fraction \<Rightarrow> big_int \<Rightarrow> (frac_exn + fraction) option" where
  "arcsin_loop x_squared eps result term n =
     then_do (abs_fr term) (\<lambda>a.
     then_do (greater a eps) (\<lambda>go.
     if go then
       then_do (add_fr result term) (\<lambda>result.
       then_do (mul (of_ulong 2) n) (\<lambda>n2.
       then_do (mul (minus n2 (lit 1)) (minus n2 (lit 1))) (\<lambda>num.
       then_do (mul n2 (plus n2 (lit 1))) (\<lambda>den.
       then_do (fraction_of num den) (\<lambda>coeff.
       then_do (mul_fr term x_squared) (\<lambda>term.
       then_do (mul_fr term coeff) (\<lambda>term.
       arcsin_loop x_squared eps result term (plus n (lit 1)))))))))
     else return result))"

definition arcsin_fr :: "fraction \<Rightarrow> fraction \<Rightarrow> fraction outcome" where
  "arcsin_fr x eps =
     then_do (beyond_one x) (\<lambda>beyond.
     if beyond then throw (Domain_error ''arcsin is undefined for |x| > 1'')
     else
       then_do (int_fraction 0 1) (\<lambda>result.
       then_do (mul_fr x x) (\<lambda>x_squared. arcsin_loop x_squared eps result x (lit 1))))"

definition arccos_fr :: "fraction \<Rightarrow> fraction \<Rightarrow> fraction outcome" where
  "arccos_fr x eps =
     then_do (beyond_one x) (\<lambda>beyond.
     if beyond then throw (Domain_error ''arccos is undefined for |x| > 1'')
     else
       then_do (int_fraction 1 2) (\<lambda>half.
       then_do (arcsin_fr half eps) (\<lambda>pi_6.
       then_do (int_fraction 3 1) (\<lambda>three.
       then_do (mul_fr pi_6 three) (\<lambda>pi_over_2.
       then_do (arcsin_fr x eps) (\<lambda>arcsin_val. sub_fr pi_over_2 arcsin_val))))))"

partial_function (option) arctg_loop ::
  "fraction \<Rightarrow> fraction \<Rightarrow> fraction \<Rightarrow> fraction \<Rightarrow> int \<Rightarrow> int \<Rightarrow> (frac_exn + fraction) option" where
  "arctg_loop x eps result term n count =
     then_do (abs_fr term) (\<lambda>a.
     then_do (greater a eps) (\<lambda>go.
     if go then
       then_do (int_fraction (if count mod 2 = 0 then 1 else - 1) n) (\<lambda>coeff.
       then_do (mul_fr coeff term) (\<lambda>summand.
       then_do (add_fr result summand) (\<lambda>result.
       then_do (int32 (n + 2)) (\<lambda>n.
       then_do (int32 (count + 1)) (\<lambda>count.
       then_do (mul_fr x x) (\<lambda>sq.
       then_do (mul_fr term sq) (\<lambda>term.
       arctg_loop x eps result term n count)))))))
     else return result))"

partial_function (option) arctg :: "fraction \<Rightarrow> fraction \<Rightarrow> (frac_exn + fraction) option" where
  "arctg x eps =
     (if compare (denominator x) (lit 0) = Less then
        then_do (neg_fr x) (\<lambda>m. then_do (arctg m eps) neg_fr)
      else
        then_do (int_fraction 1 1) (\<lambda>one.
        then_do (greater x one) (\<lambda>above.
        if above then
          then_do (int_fraction 1 2) (\<lambda>half.
          then_do (div_fr one x) (\<lambda>inv.
          then_do (arctg inv eps) (\<lambda>r. sub_fr half r)))
        else then_do (int_fraction 0 1) (\<lambda>result. arctg_loop x eps result x 1 0))))"

definition arcctg :: "fraction \<Rightarrow> fraction \<Rightarrow> fraction outcome" where
  "arcctg x eps =
     then_do (int_fraction 0 1) (\<lambda>zero.
     if eq_fr x zero then throw (Domain_error ''arcctg is undefined for x = 0'')
     else
       then_do (int_fraction 1 2) (\<lambda>half.
       then_do (mul_fr eps eps) (\<lambda>e.
       then_do (arcsin_fr half e) (\<lambda>pi_6.
       then_do (int_fraction 3 1) (\<lambda>three.
       then_do (mul_fr pi_6 three) (\<lambda>pi_over_2.
       then_do (arctg x eps) (\<lambda>r. sub_fr pi_over_2 r)))))))"

text \<open>\<open>inv_x > fraction(1, 1) || inv_x < -fraction(1, 1)\<close>.\<close>

definition beyond_one_neg :: "fraction \<Rightarrow> bool outcome" where
  "beyond_one_neg x =
     then_do (int_fraction 1 1) (\<lambda>one.
     then_do (greater x one) (\<lambda>above.
     if above then return True
     else then_do (neg_fr one) (\<lambda>minus_one. less_fr x minus_one)))"

definition arcsec :: "fraction \<Rightarrow> fraction \<Rightarrow> fraction outcome" where
  "arcsec x eps =
     then_do (int_fraction 0 1) (\<lambda>zero.
     if eq_fr x zero then throw (Domain_error ''arcsec is undefined for x = 0'')
     else
       then_do (int_fraction 1 1) (\<lambda>one.
       then_do (div_fr one x) (\<lambda>inv_x.
       then_do (beyond_one_neg inv_x) (\<lambda>beyond.
       if beyond then throw (Domain_error ''arcsec is undefined for |x| < 1'')
       else arccos_fr inv_x eps))))"

definition arccosec :: "fraction \<Rightarrow> fraction \<Rightarrow> fraction outcome" where
  "arccosec x eps =
     then_do (int_fraction 0 1) (\<lambda>zero.
     if eq_fr x zero then throw (Domain_error ''arccosec is undefined for x = 0'')
     else
       then_do (int_fraction 1 1) (\<lambda>one.
       then_do (div_fr one x) (\<lambda>inv_x.
       then_do (beyond_one_neg inv_x) (\<lambda>beyond.
       if beyond then throw (Domain_error ''arccosec is undefined for |x| < 1'')
       else arcsin_fr inv_x eps))))"

subsection \<open>Roots and logarithms\<close>

partial_function (option) root_loop ::
  "fraction \<Rightarrow> nat \<Rightarrow> fraction \<Rightarrow> fraction \<Rightarrow> (frac_exn + fraction) option" where
  "root_loop x degree eps guess =
     then_do (pow guess (degree - 1)) (\<lambda>power.
     if equals (numerator power) (lit 0) then throw (Runtime_error ''Division by zero in root calculation'')
     else
       then_do (fraction_of (of_ulong (of_nat (degree - 1))) (lit 1)) (\<lambda>d1.
       then_do (mul_fr d1 guess) (\<lambda>scaled.
       then_do (div_fr x power) (\<lambda>ratio.
       then_do (add_fr scaled ratio) (\<lambda>acc.
       then_do (fraction_of (of_ulong (of_nat degree)) (lit 1)) (\<lambda>d.
       then_do (div_fr acc d) (\<lambda>next_guess.
       then_do (sub_fr next_guess guess) (\<lambda>up.
       then_do (greater up eps) (\<lambda>go.
       then_do (if go then return True
                else then_do (sub_fr guess next_guess) (\<lambda>down. greater down eps)) (\<lambda>go.
       if go then root_loop x degree eps next_guess else return next_guess))))))))))"

definition root_fr :: "fraction \<Rightarrow> nat \<Rightarrow> fraction \<Rightarrow> fraction outcome" where
  "root_fr x degree eps =
     (if degree = 0 then throw (Big (InvalidArgument ''Degree cannot be zero''))
      else if degree = 1 then return x
      else if compare (numerator x) (lit 0) = Less \<and> degree mod 2 = 0
      then throw (Domain_error ''Even root of negative number is not real'')
      else
        then_do (fraction_of (of_ulong (of_nat degree)) (lit 1)) (\<lambda>d.
        then_do (div_fr x d) (\<lambda>guess.
        then_do (root_loop x degree eps guess) (\<lambda>guess.
        if compare (numerator x) (lit 0) = Less \<and> degree mod 2 = 1 then neg_fr guess else return guess))))"

partial_function (option) ln_loop ::
  "fraction \<Rightarrow> fraction \<Rightarrow> fraction \<Rightarrow> fraction \<Rightarrow> int \<Rightarrow> (frac_exn + fraction) option" where
  "ln_loop y_squared eps acc term denom =
     then_do (mul_fr term y_squared) (\<lambda>term.
     then_do (int32 (denom + 2)) (\<lambda>denom.
     then_do (int_fraction denom 1) (\<lambda>d.
     then_do (div_fr term d) (\<lambda>delta.
     then_do (abs_fr delta) (\<lambda>a.
     then_do (less_eq_fr a eps) (\<lambda>stop.
     if stop then return acc
     else then_do (add_fr acc delta) (\<lambda>acc. ln_loop y_squared eps acc term denom)))))))"

definition ln_fr :: "fraction \<Rightarrow> fraction \<Rightarrow> fraction outcome" where
  "ln_fr x eps =
     then_do (int_fraction 0 1) (\<lambda>zero.
     then_do (less_eq_fr x zero) (\<lambda>bad.
     if bad then throw (Domain_error ''Natural logarithm of non-positive number'')
     else
       then_do (int_fraction 1 1) (\<lambda>one.
       then_do (sub_fr x one) (\<lambda>below.
       then_do (add_fr x one) (\<lambda>above.
       then_do (div_fr below above) (\<lambda>y.
       then_do (mul_fr y y) (\<lambda>y_squared.
       then_do (ln_loop y_squared eps y y 1) (\<lambda>acc.
       then_do (int_fraction 2 1) (\<lambda>two. mul_fr acc two)))))))))"

definition log2_fr :: "fraction \<Rightarrow> fraction \<Rightarrow> fraction outcome" where
  "log2_fr x eps =
     then_do (int_fraction 0 1) (\<lambda>zero.
     then_do (less_eq_fr x zero) (\<lambda>bad.
     if bad then throw (Domain_error ''Logarithm of non-positive number is undefined'')
     else
       then_do (ln_fr x eps) (\<lambda>ln_x.
       then_do (int_fraction 2 1) (\<lambda>two.
       then_do (ln_fr two eps) (\<lambda>ln_2. div_fr ln_x ln_2)))))"

definition lg :: "fraction \<Rightarrow> fraction \<Rightarrow> fraction outcome" where
  "lg x eps =
     then_do (int_fraction 0 1) (\<lambda>zero.
     then_do (less_eq_fr x zero) (\<lambda>bad.
     if bad then throw (Domain_error ''Base-10 logarithm of non-positive number is undefined'')
     else
       then_do (ln_fr x eps) (\<lambda>ln_x.
       then_do (int_fraction 10 1) (\<lambda>ten.
       then_do (ln_fr ten eps) (\<lambda>ln_10. div_fr ln_x ln_10)))))"

subsection \<open>Steps\<close>

lemma computes_then:
  "computes m r \<Longrightarrow> (\<And>f. normal_fr f \<Longrightarrow> frac_val f = r \<Longrightarrow> computes (k f) q) \<Longrightarrow> computes (then_do m k) q"
  by (auto simp: computes_def)

lemma computes_return: "normal_fr f \<Longrightarrow> computes (return f) (frac_val f)"
  by (simp add: computes_def)

lemma fits_of_int: "\<bar>n\<bar> < 2 ^ 1024 \<Longrightarrow> fits (of_int n)"
  using fitsI [of 1 n] by simp

lemma fits_minus: "fits r \<Longrightarrow> fits (- r)"
proof -
  assume "fits r"
  then obtain c d where "d \<noteq> 0" "\<bar>c\<bar> < 2 ^ 1024" "\<bar>d\<bar> < 2 ^ 1024" "r = of_int c / of_int d" unfolding fits_def by blast
  then show "fits (- r)" using fitsI [of d "- c"] by simp
qed

lemma fits_abs: "fits r \<Longrightarrow> fits \<bar>r\<bar>"
  using fits_minus [of r] by (simp add: abs_if)

lemma short_fits: "normal_fr f \<Longrightarrow> short f \<Longrightarrow> fits (frac_val f)"
  using normal_frD [of f] fitsI by (simp add: frac_val_def short_def)

lemma int_fraction_computes:
  "- (2 ^ 31) \<le> n \<Longrightarrow> n < 2 ^ 31 \<Longrightarrow> computes (int_fraction n 1) (of_int n)"
  using fraction_of_computes [of n 1] by simp

lemma int32_return: "- (2 ^ 31) \<le> v \<Longrightarrow> v < 2 ^ 31 \<Longrightarrow> int32 v = return v"
  by (simp add: int32_def)

lemma greater_value: "normal_fr f \<Longrightarrow> normal_fr g \<Longrightarrow> short f \<Longrightarrow> short g \<Longrightarrow> greater f g = return (frac_val g < frac_val f)"
  and less_value: "normal_fr f \<Longrightarrow> normal_fr g \<Longrightarrow> short f \<Longrightarrow> short g \<Longrightarrow> less_fr f g = return (frac_val f < frac_val g)"
  and less_eq_value: "normal_fr f \<Longrightarrow> normal_fr g \<Longrightarrow> short f \<Longrightarrow> short g \<Longrightarrow> less_eq_fr f g = return (frac_val f \<le> frac_val g)"
  by (auto simp: greater_def less_fr_def less_eq_fr_def compare_fr_value not_less)

lemma neg_square_computes:
  assumes "normal_fr x" "short x" shows "computes (neg_square x) (- (frac_val x ^ 2))"
  unfolding neg_square_def
proof (rule computes_then [OF neg_computes [OF assms(1)]])
  fix m assume "normal_fr m" "frac_val m = - frac_val x"
  then show "computes (mul_fr m x) (- (frac_val x ^ 2))"
    using mul_computes [OF _ assms, of m] by (simp add: power2_eq_square)
qed

text \<open>\<open>term * (-x * x)\<close> divided by an integer: the step of both loops.\<close>

lemma taylor_step:
  assumes "normal_fr x" "short x" "fits (frac_val x ^ 2)" "normal_fr t" "0 < d" "d < 2 ^ 31"
    and "\<And>f. normal_fr f \<Longrightarrow> frac_val f = frac_val t * - (frac_val x ^ 2) / of_int d \<Longrightarrow> computes (k f) q"
  shows "computes (then_do (neg_square x) (\<lambda>sq. then_do (mul_fr t sq) (\<lambda>term. then_do (int32 d) (\<lambda>d.
    then_do (int_fraction d 1) (\<lambda>d. then_do (div_fr term d) k))))) q"
proof (rule computes_then [OF neg_square_computes [OF assms(1,2)]])
  fix sq assume sq: "normal_fr sq" "frac_val sq = - (frac_val x ^ 2)"
  then have "short sq" using fits_short fits_minus assms(3) by simp
  then show "computes (then_do (mul_fr t sq) (\<lambda>term. then_do (int32 d) (\<lambda>d.
      then_do (int_fraction d 1) (\<lambda>d. then_do (div_fr term d) k)))) q"
  proof (rule computes_then [OF mul_computes [OF assms(4) sq(1)]])
    fix m assume m: "normal_fr m" "frac_val m = frac_val t * frac_val sq"
    have "computes (then_do (int_fraction d 1) (\<lambda>d. then_do (div_fr m d) k)) q"
    proof (rule computes_then [OF int_fraction_computes])
      fix g assume g: "normal_fr g" "frac_val g = of_int d"
      have "\<bar>d\<bar> < 2 ^ 1024" using assms(5,6) by simp
      then have s: "short g" "frac_val g \<noteq> 0" using fits_short [OF g(1)] fits_of_int [of d] g(2) assms(5) by simp_all
      have "computes (div_fr m g) (frac_val m / frac_val g)" using div_computes [OF m(1) g(1) s(1)] s(2) by simp
      then show "computes (then_do (div_fr m g) k) q"
        by (rule computes_then) (use assms(7) m(2) sq(2) g(2) in auto)
    qed (use assms(5,6) in auto)
    then show "computes (then_do (int32 d) (\<lambda>d. then_do (int_fraction d 1) (\<lambda>d. then_do (div_fr m d) k))) q"
      using assms(5,6) by (simp add: int32_return)
  qed
qed

subsection \<open>Sine\<close>

definition sin_term :: "rat \<Rightarrow> nat \<Rightarrow> rat" where
  "sin_term x k = (- 1) ^ k * x ^ (2 * k + 1) / fact (2 * k + 1)"

lemma sin_term_Suc: "sin_term x (Suc k) = sin_term x k * - (x ^ 2) / of_int (2 * (int k + 1) * (2 * (int k + 1) + 1))"
proof -
  have "(fact (2 * Suc k + 1) :: rat) = fact (2 * k + 1) * (of_int (2 * (int k + 1) * (2 * (int k + 1) + 1)))"
    by (simp add: algebra_simps)
  then show ?thesis by (simp add: sin_term_def power2_eq_square ac_simps)
qed

lemma sin_loop_computes:
  assumes x: "normal_fr x" "short x" "fits (frac_val x ^ 2)" and e: "normal_fr eps" "short eps"
    and t: "\<And>k. k \<le> N \<Longrightarrow> fits (sin_term (frac_val x) k)" "\<bar>sin_term (frac_val x) N\<bar> \<le> frac_val eps"
      "\<And>k. k < N \<Longrightarrow> frac_val eps < \<bar>sin_term (frac_val x) k\<bar>" "N \<le> 23170"
  shows "k \<le> N \<Longrightarrow> normal_fr r \<Longrightarrow> frac_val r = (\<Sum>i<k. sin_term (frac_val x) i) \<Longrightarrow> normal_fr u \<Longrightarrow>
    frac_val u = sin_term (frac_val x) k \<Longrightarrow> computes (sin_loop x eps r u (int k + 1)) (\<Sum>i<N. sin_term (frac_val x) i)"
proof (induction "N - k" arbitrary: k r u)
  case (0 k r u)
  then have k: "k = N" by simp
  have su: "short u" using fits_short [OF "0.prems"(4)] t(1) "0.prems"(5) k by simp
  have "computes (then_do (abs_fr u) (\<lambda>a. then_do (greater a eps) (\<lambda>go. if go then f a else return r))) (frac_val r)" for f
  proof (rule computes_then [OF abs_computes [OF "0.prems"(4) su]])
    fix a assume a: "normal_fr a" "frac_val a = \<bar>frac_val u\<bar>"
    then have "short a" using fits_short fits_abs short_fits [OF "0.prems"(4) su] by simp
    then show "computes (then_do (greater a eps) (\<lambda>go. if go then f a else return r)) (frac_val r)"
      using a e t(2) "0.prems"(2,5) k by (simp add: greater_value computes_return)
  qed
  then show ?case using "0.prems"(3) k by (subst sin_loop.simps) simp
next
  case (Suc n k r u)
  then have k: "k < N" "n = N - Suc k" by simp_all
  have su: "short u" using fits_short [OF Suc.prems(4)] t(1) Suc.prems(5) k by simp
  define d where "d = 2 * (int k + 1) * (2 * (int k + 1) + 1)"
  have d: "0 < d" "d < 2 ^ 31"
  proof -
    have "d \<le> 46340 * 46341" unfolding d_def using k t(4) by (intro mult_mono) auto
    then show "d < 2 ^ 31" by simp
  qed (simp add: d_def)
  show ?case
  proof (subst sin_loop.simps, rule computes_then [OF abs_computes [OF Suc.prems(4) su]])
    fix a assume a: "normal_fr a" "frac_val a = \<bar>frac_val u\<bar>"
    then have "short a" using fits_short fits_abs short_fits [OF Suc.prems(4) su] by simp
    then have go: "greater a eps = return True" using a e t(3) [OF k(1)] Suc.prems(5) by (simp add: greater_value)
    have "computes (then_do (add_fr r u) (\<lambda>result. then_do (neg_square x) (\<lambda>sq. then_do (mul_fr u sq) (\<lambda>term.
        then_do (int32 d) (\<lambda>d. then_do (int_fraction d 1) (\<lambda>d. then_do (div_fr term d) (\<lambda>term.
        sin_loop x eps result term (int k + 1 + 1)))))))) (\<Sum>i<N. sin_term (frac_val x) i)"
    proof (rule computes_then [OF add_computes [OF Suc.prems(2,4) su]], rule taylor_step [OF x Suc.prems(4) d])
      fix r' u' assume "normal_fr r'" "frac_val r' = frac_val r + frac_val u" "normal_fr u'"
        "frac_val u' = frac_val u * - (frac_val x ^ 2) / of_int d"
      then show "computes (sin_loop x eps r' u' (int k + 1 + 1)) (\<Sum>i<N. sin_term (frac_val x) i)"
        using Suc.hyps(1) [of "Suc k" r' u'] k Suc.prems(3,5) by (simp add: sin_term_Suc d_def ac_simps)
    qed
    then show "computes (then_do (greater a eps) (\<lambda>go. if go then then_do (add_fr r u) (\<lambda>result.
        then_do (neg_square x) (\<lambda>sq. then_do (mul_fr u sq) (\<lambda>term. then_do (int32 (2 * (int k + 1) * (2 * (int k + 1) + 1))) (\<lambda>d.
        then_do (int_fraction d 1) (\<lambda>d. then_do (div_fr term d) (\<lambda>term. sin_loop x eps result term (int k + 1 + 1)))))))
        else return r)) (\<Sum>i<N. sin_term (frac_val x) i)"
      by (simp add: go d_def)
  qed
qed

subsection \<open>Cosine\<close>

definition cos_term :: "rat \<Rightarrow> nat \<Rightarrow> rat" where
  "cos_term x k = (- 1) ^ k * x ^ (2 * k) / fact (2 * k)"

lemma cos_term_Suc: "cos_term x (Suc k) = cos_term x k * - (x ^ 2) / of_int ((2 * int (Suc k) - 1) * (2 * int (Suc k)))"
proof -
  have "(fact (2 * Suc k) :: rat) = fact (2 * k) * of_int ((2 * int (Suc k) - 1) * (2 * int (Suc k)))"
    by (simp add: algebra_simps)
  then show ?thesis by (simp add: cos_term_def power2_eq_square ac_simps)
qed

lemma cos_loop_computes:
  assumes x: "normal_fr x" "short x" "fits (frac_val x ^ 2)" and e: "normal_fr eps" "short eps"
    and t: "\<And>k. k \<le> N \<Longrightarrow> fits (cos_term (frac_val x) k)" "\<bar>cos_term (frac_val x) N\<bar> \<le> frac_val eps"
      "\<And>k. 0 < k \<Longrightarrow> k < N \<Longrightarrow> frac_val eps < \<bar>cos_term (frac_val x) k\<bar>" "N \<le> 23170"
  shows "k < N \<Longrightarrow> normal_fr r \<Longrightarrow> frac_val r = (\<Sum>i<Suc k. cos_term (frac_val x) i) \<Longrightarrow> normal_fr u \<Longrightarrow>
    frac_val u = cos_term (frac_val x) k \<Longrightarrow> computes (cos_loop x eps r u (int k + 1)) (\<Sum>i<N. cos_term (frac_val x) i)"
proof (induction "N - k" arbitrary: k r u)
  case (Suc n k r u)
  define d where "d = (2 * (int k + 1) - 1) * (2 * (int k + 1))"
  have d: "0 < d" "d < 2 ^ 31"
  proof -
    have "d \<le> 46339 * 46340" unfolding d_def using Suc.prems(1) t(4) by (intro mult_mono) auto
    then show "d < 2 ^ 31" by simp
  qed (simp add: d_def)
  show ?case
  proof (subst cos_loop.simps, fold d_def, rule taylor_step [OF x Suc.prems(4) d])
    fix v assume v: "normal_fr v" "frac_val v = frac_val u * - (frac_val x ^ 2) / of_int d"
    have vt: "frac_val v = cos_term (frac_val x) (Suc k)" using v(2) Suc.prems(5) by (simp add: cos_term_Suc d_def ac_simps)
    have sv: "short v" using fits_short [OF v(1)] t(1) [of "Suc k"] vt Suc.prems(1) by simp
    show "computes (then_do (abs_fr v) (\<lambda>a. then_do (less_eq_fr a eps) (\<lambda>stop. if stop then return r
        else then_do (add_fr r v) (\<lambda>result. cos_loop x eps result v (int k + 1 + 1))))) (\<Sum>i<N. cos_term (frac_val x) i)"
    proof (rule computes_then [OF abs_computes [OF v(1) sv]])
      fix a assume a: "normal_fr a" "frac_val a = \<bar>frac_val v\<bar>"
      then have "short a" using fits_short fits_abs short_fits [OF v(1) sv] by simp
      then have le: "less_eq_fr a eps = return (\<bar>cos_term (frac_val x) (Suc k)\<bar> \<le> frac_val eps)"
        using a e vt by (simp add: less_eq_value)
      show "computes (then_do (less_eq_fr a eps) (\<lambda>stop. if stop then return r
          else then_do (add_fr r v) (\<lambda>result. cos_loop x eps result v (int k + 1 + 1)))) (\<Sum>i<N. cos_term (frac_val x) i)"
      proof (cases "Suc k = N")
        case True
        then show ?thesis using le t(2) computes_return [OF Suc.prems(2)] Suc.prems(3) by simp
      next
        case False
        then have k: "Suc k < N" "n = N - Suc k" using Suc.prems(1) Suc.hyps(2) by simp_all
        have "computes (then_do (add_fr r v) (\<lambda>result. cos_loop x eps result v (int k + 1 + 1))) (\<Sum>i<N. cos_term (frac_val x) i)"
        proof (rule computes_then [OF add_computes [OF Suc.prems(2) v(1) sv]])
          fix r' assume "normal_fr r'" "frac_val r' = frac_val r + frac_val v"
          then show "computes (cos_loop x eps r' v (int k + 1 + 1)) (\<Sum>i<N. cos_term (frac_val x) i)"
            using Suc.hyps(1) [of "Suc k" r' v] k Suc.prems(3) v(1) vt by (simp add: ac_simps)
        qed
        then show ?thesis using le t(3) [of "Suc k"] k by simp
      qed
    qed
  qed
qed simp

subsection \<open>Distance to the real functions\<close>

lemma sum_odd: "(\<Sum>m<2 * n + 1. sin_coeff m * x ^ m) = (\<Sum>k<n. (- 1) ^ k * x ^ (2 * k + 1) / fact (2 * k + 1) :: real)"
proof (induction n)
  case (Suc n)
  have "(\<Sum>m<2 * Suc n + 1. sin_coeff m * x ^ m) =
      (\<Sum>m<2 * n + 1. sin_coeff m * x ^ m) + sin_coeff (2 * n + 1) * x ^ (2 * n + 1) + sin_coeff (2 * n + 2) * x ^ (2 * n + 2)"
    by simp
  then show ?case using Suc by (simp add: sin_coeff_def)
qed (simp add: sin_coeff_def)

lemma sum_even: "(\<Sum>m<2 * n. cos_coeff m * x ^ m) = (\<Sum>k<n. (- 1) ^ k * x ^ (2 * k) / fact (2 * k) :: real)"
proof (induction n)
  case (Suc n)
  have "(\<Sum>m<2 * Suc n. cos_coeff m * x ^ m) =
      (\<Sum>m<2 * n. cos_coeff m * x ^ m) + cos_coeff (2 * n) * x ^ (2 * n) + cos_coeff (2 * n + 1) * x ^ (2 * n + 1)"
    by simp
  then show ?case using Suc by (simp add: cos_coeff_def)
qed simp

lemma of_rat_fact [simp]: "(of_rat (fact n) :: real) = fact n"
  by (metis of_nat_fact of_rat_of_nat_eq)

lemma of_rat_sin_term: "(of_rat (sin_term x k) :: real) = (- 1) ^ k * of_rat x ^ (2 * k + 1) / fact (2 * k + 1)"
  by (simp only: sin_term_def of_rat_divide of_rat_mult of_rat_power of_rat_minus of_rat_1 of_rat_fact)

lemma of_rat_cos_term: "(of_rat (cos_term x k) :: real) = (- 1) ^ k * of_rat x ^ (2 * k) / fact (2 * k)"
  by (simp only: cos_term_def of_rat_divide of_rat_mult of_rat_power of_rat_minus of_rat_1 of_rat_fact)

lemma of_rat_abs: "(of_rat \<bar>r\<bar> :: real) = \<bar>of_rat r\<bar>"
  by (simp add: abs_if of_rat_minus)

lemma abs_inverse_fact: "\<bar>inverse (fact i :: real)\<bar> = inverse (fact i)"
  by simp

lemma abs_term: "\<bar>(- 1) ^ k * y ^ m / fact i\<bar> = inverse (fact i) * \<bar>y :: real\<bar> ^ m"
  by (simp only: divide_inverse abs_mult power_abs abs_minus_cancel abs_one power_one mult_1 abs_inverse_fact mult.commute)

lemma sin_error: "\<bar>sin (of_rat x :: real) - of_rat (\<Sum>k<n. sin_term x k)\<bar> \<le> of_rat \<bar>sin_term x n\<bar>"
proof -
  have s: "of_rat (\<Sum>k<n. sin_term x k) = (\<Sum>m<2 * n + 1. sin_coeff m * (of_rat x :: real) ^ m)"
    unfolding sum_odd of_rat_sum of_rat_sin_term ..
  show ?thesis unfolding s of_rat_abs of_rat_sin_term abs_term by (rule Maclaurin_sin_bound)
qed

lemma cos_error: "\<bar>cos (of_rat x :: real) - of_rat (\<Sum>k<n. cos_term x k)\<bar> \<le> of_rat \<bar>cos_term x n\<bar>"
proof -
  have s: "of_rat (\<Sum>k<n. cos_term x k) = (\<Sum>m<2 * n. cos_coeff m * (of_rat x :: real) ^ m)"
    unfolding sum_even of_rat_sum of_rat_cos_term ..
  obtain t where t: "cos (of_rat x) = (\<Sum>m<2 * n. cos_coeff m * of_rat x ^ m) +
      (cos (t + 1 / 2 * real (2 * n) * pi) / fact (2 * n)) * (of_rat x :: real) ^ (2 * n)"
    using Maclaurin_cos_expansion [of "of_rat x" "2 * n"] by blast
  have "\<bar>cos (of_rat x :: real) - of_rat (\<Sum>k<n. cos_term x k)\<bar> =
      \<bar>cos (t + 1 / 2 * real (2 * n) * pi)\<bar> * (inverse (fact (2 * n)) * \<bar>of_rat x\<bar> ^ (2 * n))"
    unfolding s t by (simp only: add_diff_cancel_left' divide_inverse abs_mult power_abs abs_inverse_fact mult.assoc)
  also have "\<dots> \<le> 1 * (inverse (fact (2 * n)) * \<bar>of_rat x :: real\<bar> ^ (2 * n))"
    by (rule mult_right_mono [OF abs_cos_le_one]) simp
  finally show ?thesis unfolding of_rat_abs of_rat_cos_term abs_term by simp
qed

subsection \<open>Properties\<close>



lemma pi_ge_3: "3 \<le> pi"
  using sin_x_le_x [of "pi / 6"] by (simp add: sin_30)

lemma one_fraction: "computes (int_fraction 1 1) 1" "computes (int_fraction 0 1) 0" "computes (int_fraction (- 1) 1) (- 1)"
  using int_fraction_computes [of 1] int_fraction_computes [of 0] int_fraction_computes [of "- 1"] by simp_all

lemma short_int: "normal_fr f \<Longrightarrow> frac_val f = of_int n \<Longrightarrow> \<bar>n\<bar> < 2 ^ 1024 \<Longrightarrow> short f"
  using fits_short [of f] fits_of_int [of n] by simp


text \<open>1/2, 10, 1/10 and 1/100.\<close>

definition pos_fraction :: "uint32 \<Rightarrow> uint32 \<Rightarrow> fraction" where
  "pos_fraction n d = \<lparr>numerator = \<lparr>sign = True, digits = [n]\<rparr>, denominator = \<lparr>sign = True, digits = [d]\<rparr>\<rparr>"

lemma pos_fractions:
  "normal_fr (pos_fraction 1 2)" "normal_fr (pos_fraction 10 1)" "normal_fr (pos_fraction 1 10)" "normal_fr (pos_fraction 1 100)"
  "short (pos_fraction n d)" "frac_val (pos_fraction n d) = of_int (uint n) / of_int (uint d)"
proof -
  have "uint n < 2 ^ 1024" "uint d < 2 ^ 1024" using uint32_bounds [of n] uint32_bounds [of d] by simp_all
  then show "short (pos_fraction n d)" by (simp add: pos_fraction_def short_def value_def)
qed (simp_all add: pos_fraction_def normal_fr_def frac_val_def wf_def normal_def value_def)

lemma fits_small: "\<bar>c\<bar> < 2 ^ 64 \<Longrightarrow> 0 < d \<Longrightarrow> d < 2 ^ 64 \<Longrightarrow> r = of_int c / of_int d \<Longrightarrow> fits r"
  using fitsI [of d c] by simp

lemma all_below_3: "(\<forall>k \<le> (2::nat). P k) \<longleftrightarrow> P 0 \<and> P 1 \<and> P 2" "(\<forall>k < (2::nat). P k) \<longleftrightarrow> P 0 \<and> P 1"
  by (auto simp: numeral_2_eq_2 le_Suc_eq less_Suc_eq)




end
