(* ===== verification/River.thy ===== *)
theory River
  imports Main
begin

text \<open>
  The wolf, goat and cabbage server and its client (src/SP/task4). The server keeps a linked list of
  sessions, one per client queue, and answers each message; the client reads a command list, sends it
  message by message and stops at the first error or when everything has been moved. A handler maps
  the session list to the new one and the messages sent. The abstract puzzle at the end is what the
  sessions refine.
\<close>

subsection \<open>Messages and sessions\<close>

datatype object_id = OBJ_WOLF | OBJ_GOAT | OBJ_CABBAGE | OBJ_NONE

definition MSG_INIT :: int where "MSG_INIT = 1"
definition MSG_TAKE :: int where "MSG_TAKE = 2"
definition MSG_PUT :: int where "MSG_PUT = 3"
definition MSG_MOVE :: int where "MSG_MOVE = 4"
definition MSG_OK :: int where "MSG_OK = 5"
definition MSG_ERR :: int where "MSG_ERR = 6"
definition MSG_FIN :: int where "MSG_FIN = 7"
definition MSG_ALL_MOVED :: int where "MSG_ALL_MOVED = 8"

lemmas msg_defs = MSG_INIT_def MSG_TAKE_def MSG_PUT_def MSG_MOVE_def MSG_OK_def MSG_ERR_def
  MSG_FIN_def MSG_ALL_MOVED_def

record message =
  msg_id :: int
  queue_id :: int
  obj_id :: object_id
  err_msg :: string

record session =
  sess_queue :: int
  obj_in_boat :: object_id
  wolf_on_right :: bool
  goat_on_right :: bool
  cabbage_on_right :: bool
  boat_on_right :: bool

type_synonym sent = "(int \<times> message) list"

definition blank :: message where
  "blank = \<lparr>msg_id = 0, queue_id = 0, obj_id = OBJ_WOLF, err_msg = []\<rparr>"

definition register_client :: "bool \<Rightarrow> int \<Rightarrow> session list \<Rightarrow> session list option" where
  "register_client malloc_ok q sessions =
     (if \<not> malloc_ok then None
      else Some (\<lparr>sess_queue = q, obj_in_boat = OBJ_NONE, wolf_on_right = False, goat_on_right = False,
                  cabbage_on_right = False, boat_on_right = False\<rparr> # sessions))"

fun unregister_client :: "int \<Rightarrow> session list \<Rightarrow> session list" where
  "unregister_client q [] = []"
| "unregister_client q (current # rest) =
     (if sess_queue current = q then rest else current # unregister_client q rest)"

fun get_session :: "int \<Rightarrow> session list \<Rightarrow> session option" where
  "get_session q [] = None"
| "get_session q (current # rest) = (if sess_queue current = q then Some current else get_session q rest)"

text \<open>Writing through the pointer get_session returned.\<close>

fun set_session :: "int \<Rightarrow> session \<Rightarrow> session list \<Rightarrow> session list" where
  "set_session q s [] = []"
| "set_session q s (current # rest) =
     (if sess_queue current = q then s # rest else current # set_session q s rest)"

definition send_error :: "int \<Rightarrow> string \<Rightarrow> sent" where
  "send_error q err = [(q, blank\<lparr>msg_id := MSG_ERR, err_msg := take 255 err\<rparr>)]"

definition send_ok :: "int \<Rightarrow> sent" where
  "send_ok q = [(q, blank\<lparr>msg_id := MSG_OK\<rparr>)]"

definition send_all_moved :: "int \<Rightarrow> sent" where
  "send_all_moved q = [(q, blank\<lparr>msg_id := MSG_ALL_MOVED\<rparr>)]"

subsection \<open>The handlers\<close>

definition handle_init :: "bool \<Rightarrow> message \<Rightarrow> session list \<Rightarrow> session list \<times> sent" where
  "handle_init malloc_ok msg sessions =
     (case register_client malloc_ok (queue_id msg) sessions of
        None \<Rightarrow> (sessions, send_error (queue_id msg) ''Failed to register client'')
      | Some sessions' \<Rightarrow> (sessions', send_ok (queue_id msg)))"

definition handle_take :: "message \<Rightarrow> session list \<Rightarrow> session list \<times> sent" where
  "handle_take msg sessions =
     (case get_session (queue_id msg) sessions of
        None \<Rightarrow> (sessions, send_error (queue_id msg) ''Not registered'')
      | Some s \<Rightarrow>
          (if obj_in_boat s \<noteq> OBJ_NONE then (sessions, send_error (queue_id msg) ''Object already in boat'')
           else (set_session (queue_id msg) (s\<lparr>obj_in_boat := obj_id msg\<rparr>) sessions, send_ok (queue_id msg))))"

definition handle_put :: "message \<Rightarrow> session list \<Rightarrow> session list \<times> sent" where
  "handle_put msg sessions =
     (case get_session (queue_id msg) sessions of
        None \<Rightarrow> (sessions, send_error (queue_id msg) ''Not registered'')
      | Some s \<Rightarrow>
          (if obj_in_boat s = OBJ_NONE then (sessions, send_error (queue_id msg) ''No object in boat'')
           else
             (set_session (queue_id msg) (s\<lparr>obj_in_boat := OBJ_NONE\<rparr>) sessions,
              if wolf_on_right s \<and> goat_on_right s \<and> cabbage_on_right s \<and> boat_on_right s
              then send_all_moved (queue_id msg) else send_ok (queue_id msg))))"

definition move_boat :: "session \<Rightarrow> session" where
  "move_boat s =
     (let s = s\<lparr>boat_on_right := \<not> boat_on_right s\<rparr> in
      case obj_in_boat s of
        OBJ_WOLF \<Rightarrow> s\<lparr>wolf_on_right := boat_on_right s\<rparr>
      | OBJ_GOAT \<Rightarrow> s\<lparr>goat_on_right := boat_on_right s\<rparr>
      | OBJ_CABBAGE \<Rightarrow> s\<lparr>cabbage_on_right := boat_on_right s\<rparr>
      | OBJ_NONE \<Rightarrow> s)"

definition handle_move :: "message \<Rightarrow> session list \<Rightarrow> session list \<times> sent" where
  "handle_move msg sessions =
     (case get_session (queue_id msg) sessions of
        None \<Rightarrow> (sessions, send_error (queue_id msg) ''Not registered'')
      | Some s \<Rightarrow>
          (let s = move_boat s in
           (set_session (queue_id msg) s sessions,
            if wolf_on_right s = goat_on_right s \<and> wolf_on_right s \<noteq> boat_on_right s
            then send_error (queue_id msg) ''Goat eaten''
            else if goat_on_right s = cabbage_on_right s \<and> goat_on_right s \<noteq> boat_on_right s
            then send_error (queue_id msg) ''Cabbage eaten''
            else send_ok (queue_id msg))))"

definition handle_fin :: "message \<Rightarrow> session list \<Rightarrow> session list \<times> sent" where
  "handle_fin msg sessions = (unregister_client (queue_id msg) sessions, [])"

text \<open>One turn of the receive loop; \<open>malloc_ok\<close> is what malloc answers in it.\<close>

definition dispatch :: "bool \<times> message \<Rightarrow> session list \<Rightarrow> session list \<times> sent" where
  "dispatch e sessions =
     (let msg = snd e in
      if msg_id msg = MSG_INIT then handle_init (fst e) msg sessions
      else if msg_id msg = MSG_TAKE then handle_take msg sessions
      else if msg_id msg = MSG_PUT then handle_put msg sessions
      else if msg_id msg = MSG_MOVE then handle_move msg sessions
      else if msg_id msg = MSG_FIN then handle_fin msg sessions
      else (sessions, []))"

fun serve :: "(bool \<times> message) list \<Rightarrow> session list \<Rightarrow> session list \<times> sent" where
  "serve [] sessions = (sessions, [])"
| "serve (e # es) sessions =
     (let (sessions', out) = dispatch e sessions;
          (sessions'', out') = serve es sessions'
      in (sessions'', out @ out'))"

subsection \<open>The client\<close>

text \<open>strtok with the delimiter blank: the non-empty words of the line.\<close>

fun words_acc :: "string \<Rightarrow> string \<Rightarrow> string list" where
  "words_acc [] w = (if w = [] then [] else [w])"
| "words_acc (ch # s) w =
     (if ch = CHR '' '' then (if w = [] then words_acc s [] else w # words_acc s [])
      else words_acc s (w @ [ch]))"

definition strtok_words :: "string \<Rightarrow> string list" where
  "strtok_words line = words_acc line []"

text \<open>getline: the lines of the file without their newline.\<close>

fun lines_acc :: "string \<Rightarrow> string \<Rightarrow> string list" where
  "lines_acc [] l = (if l = [] then [] else [l])"
| "lines_acc (ch # s) l = (if ch = CHR 0x0A then l # lines_acc s [] else lines_acc s (l @ [ch]))"

datatype parsed = Invalid | Cmd message

text \<open>One line; None where the code compares a null pointer with strcmp.\<close>

definition parse_line :: "string \<Rightarrow> parsed option" where
  "parse_line line =
     (case strtok_words line of
        [] \<Rightarrow> None
      | cmd # args \<Rightarrow>
          (if cmd = ''take'' then
             (case args of
                [] \<Rightarrow> None
              | arg # _ \<Rightarrow>
                  Some (if arg = ''wolf;'' then Cmd (blank\<lparr>msg_id := MSG_TAKE, obj_id := OBJ_WOLF\<rparr>)
                        else if arg = ''goat;'' then Cmd (blank\<lparr>msg_id := MSG_TAKE, obj_id := OBJ_GOAT\<rparr>)
                        else if arg = ''cabbage;'' then Cmd (blank\<lparr>msg_id := MSG_TAKE, obj_id := OBJ_CABBAGE\<rparr>)
                        else Invalid))
           else if cmd = ''put;'' then Some (Cmd (blank\<lparr>msg_id := MSG_PUT\<rparr>))
           else if cmd = ''move;'' then Some (Cmd (blank\<lparr>msg_id := MSG_MOVE\<rparr>))
           else Some Invalid))"

fun parse_lines :: "string list \<Rightarrow> message list option option" where
  "parse_lines [] = Some (Some [])"
| "parse_lines (l # ls) =
     (case parse_line l of
        None \<Rightarrow> None
      | Some Invalid \<Rightarrow> Some None
      | Some (Cmd m) \<Rightarrow>
          (case parse_lines ls of
             None \<Rightarrow> None
           | Some None \<Rightarrow> Some None
           | Some (Some ms) \<Rightarrow> Some (Some (m # ms))))"

text \<open>The outer option is undefined behaviour, the inner one the null result for an invalid list.\<close>

definition parse_cmd_list :: "string \<Rightarrow> message list option option" where
  "parse_cmd_list content = parse_lines (lines_acc content [])"

text \<open>The loop over the commands: send one, receive the answer from the own queue, stop at an error or
  at MSG_ALL_MOVED. The flags are all_objects_moved and task_failed.\<close>

definition answer_to :: "int \<Rightarrow> sent \<Rightarrow> message option" where
  "answer_to q out = (case filter (\<lambda>p. fst p = q) out of [] \<Rightarrow> None | p # _ \<Rightarrow> Some (snd p))"

fun client_loop :: "int \<Rightarrow> message list \<Rightarrow> session list \<Rightarrow> (session list \<times> bool \<times> bool) option" where
  "client_loop q [] sessions = Some (sessions, False, False)"
| "client_loop q (c # cs) sessions =
     (let (sessions', out) = dispatch (True, c\<lparr>queue_id := q\<rparr>) sessions in
      case answer_to q out of
        None \<Rightarrow> None
      | Some m \<Rightarrow>
          (if msg_id m = MSG_ERR then Some (sessions', False, True)
           else if msg_id m = MSG_ALL_MOVED then Some (sessions', True, False)
           else client_loop q cs sessions'))"

text \<open>A whole run of the client against the server: registration, commands, MSG_FIN.\<close>

definition client_run :: "int \<Rightarrow> message list \<Rightarrow> session list \<Rightarrow> (session list \<times> bool \<times> bool) option" where
  "client_run q cmds sessions =
     (let (s1, _) = dispatch (True, blank\<lparr>msg_id := MSG_INIT, queue_id := q\<rparr>) sessions in
      case client_loop q cmds s1 of
        None \<Rightarrow> None
      | Some (s2, moved, failed) \<Rightarrow>
          (let (s3, _) = dispatch (True, blank\<lparr>msg_id := MSG_FIN, queue_id := q\<rparr>) s2
           in Some (s3, moved, failed)))"

subsection \<open>Sessions of different clients\<close>

definition of_queue :: "int \<Rightarrow> session list \<Rightarrow> session list" where
  "of_queue q sessions = filter (\<lambda>s. sess_queue s = q) sessions"

definition sent_to :: "int \<Rightarrow> sent \<Rightarrow> sent" where
  "sent_to q out = filter (\<lambda>p. fst p = q) out"

lemma get_session_of_queue: "get_session q (of_queue q ss) = get_session q ss"
  by (induction ss) (auto simp: of_queue_def)

lemma get_session_queue: "get_session q ss = Some s \<Longrightarrow> sess_queue s = q"
  by (induction ss) (auto split: if_splits)

lemma of_queue_set_same:
  "sess_queue s = q \<Longrightarrow> of_queue q (set_session q s ss) = set_session q s (of_queue q ss)"
  by (induction ss) (auto simp: of_queue_def)

lemma of_queue_set_other:
  "sess_queue s = q' \<Longrightarrow> q' \<noteq> q \<Longrightarrow> of_queue q (set_session q' s ss) = of_queue q ss"
  by (induction ss) (auto simp: of_queue_def)

lemma of_queue_unregister:
  "of_queue q (unregister_client q' ss) =
     (if q' = q then unregister_client q (of_queue q ss) else of_queue q ss)"
  by (induction ss) (auto simp: of_queue_def)

lemma get_set_session:
  "get_session q ss = Some s0 \<Longrightarrow> sess_queue s = q \<Longrightarrow> get_session q (set_session q s ss) = Some s"
  by (induction ss) (auto split: if_splits)

lemma move_boat_queue [simp]: "sess_queue (move_boat s) = sess_queue s"
  by (simp add: move_boat_def Let_def split: object_id.split)

lemmas handler_defs = handle_init_def handle_take_def handle_put_def handle_move_def handle_fin_def
  register_client_def send_error_def send_ok_def send_all_moved_def

lemma dispatch_other:
  "queue_id (snd e) \<noteq> q \<Longrightarrow> dispatch e ss = (ss', out) \<Longrightarrow> of_queue q ss' = of_queue q ss \<and> sent_to q out = []"
  by (auto simp: dispatch_def handler_defs Let_def sent_to_def of_queue_set_other of_queue_unregister
      split: option.splits if_splits dest: get_session_queue)
    (auto simp: of_queue_def)

lemma dispatch_same:
  assumes "queue_id (snd e) = q"
  shows "dispatch e (of_queue q ss) = (let (ss', out) = dispatch e ss in (of_queue q ss', out))"
proof -
  have "of_queue q (x # ss) = (if sess_queue x = q then x # of_queue q ss else of_queue q ss)" for x
    by (simp add: of_queue_def)
  then show ?thesis
    using assms
    by (auto simp: dispatch_def handler_defs Let_def get_session_of_queue of_queue_set_same
        of_queue_unregister dest: get_session_queue split: option.splits)
qed

lemma sent_to_append: "sent_to q (a @ b) = sent_to q a @ sent_to q b"
  by (simp add: sent_to_def)

lemma serve_projects:
  "sent_to q (snd (serve es ss)) =
     sent_to q (snd (serve (filter (\<lambda>e. queue_id (snd e) = q) es) (of_queue q ss)))"
proof (induction es arbitrary: ss)
  case Nil
  then show ?case by simp
next
  case (Cons e es)
  obtain ss' out where d: "dispatch e ss = (ss', out)" by fastforce
  show ?case
  proof (cases "queue_id (snd e) = q")
    case True
    then show ?thesis
      using d dispatch_same [OF True, of ss] Cons.IH [of ss'] True by (simp add: sent_to_append split_beta)
  next
    case False
    then show ?thesis
      using d dispatch_other [OF False d] Cons.IH [of ss'] False by (simp add: sent_to_append split_beta)
  qed
qed

subsection \<open>The puzzle\<close>

record pos =
  wolf :: bool
  goat :: bool
  cabbage :: bool
  boat :: bool

fun side :: "object_id \<Rightarrow> pos \<Rightarrow> bool" where
  "side OBJ_WOLF p = wolf p"
| "side OBJ_GOAT p = goat p"
| "side OBJ_CABBAGE p = cabbage p"
| "side OBJ_NONE p = boat p"

definition safe :: "pos \<Rightarrow> bool" where
  "safe p \<longleftrightarrow> \<not> (wolf p = goat p \<and> wolf p \<noteq> boat p) \<and> \<not> (goat p = cabbage p \<and> goat p \<noteq> boat p)"

fun cross :: "object_id \<Rightarrow> pos \<Rightarrow> pos" where
  "cross OBJ_WOLF p = p\<lparr>boat := \<not> boat p, wolf := \<not> boat p\<rparr>"
| "cross OBJ_GOAT p = p\<lparr>boat := \<not> boat p, goat := \<not> boat p\<rparr>"
| "cross OBJ_CABBAGE p = p\<lparr>boat := \<not> boat p, cabbage := \<not> boat p\<rparr>"
| "cross OBJ_NONE p = p\<lparr>boat := \<not> boat p\<rparr>"

definition left_shore :: pos where
  "left_shore = \<lparr>wolf = False, goat = False, cabbage = False, boat = False\<rparr>"

definition right_shore :: pos where
  "right_shore = \<lparr>wolf = True, goat = True, cabbage = True, boat = True\<rparr>"

text \<open>Positions reached by \<open>n\<close> crossings, each with an object of the boat's shore or none, nobody eaten.\<close>

inductive crossings :: "nat \<Rightarrow> pos \<Rightarrow> bool" where
  start: "crossings 0 left_shore"
| step: "crossings n p \<Longrightarrow> side ob p = boat p \<Longrightarrow> safe (cross ob p) \<Longrightarrow> crossings (Suc n) (cross ob p)"

fun layer :: "nat \<Rightarrow> pos list" where
  "layer 0 = [left_shore]"
| "layer (Suc n) =
     remdups (concat (map (\<lambda>p. map (\<lambda>ob. cross ob p)
       (filter (\<lambda>ob. side ob p = boat p \<and> safe (cross ob p)) [OBJ_WOLF, OBJ_GOAT, OBJ_CABBAGE, OBJ_NONE]))
       (layer n)))"

lemma crossings_layer: "crossings n p \<Longrightarrow> p \<in> set (layer n)"
proof (induction rule: crossings.induct)
  case start
  then show ?case by simp
next
  case (step n p ob)
  then have "ob \<in> set (filter (\<lambda>ob. side ob p = boat p \<and> safe (cross ob p))
      [OBJ_WOLF, OBJ_GOAT, OBJ_CABBAGE, OBJ_NONE])"
    by (cases ob) auto
  then have "cross ob p \<in> set (map (\<lambda>ob. cross ob p) (filter (\<lambda>ob. side ob p = boat p \<and> safe (cross ob p))
      [OBJ_WOLF, OBJ_GOAT, OBJ_CABBAGE, OBJ_NONE]))"
    unfolding set_map by (rule imageI)
  then show ?case
    using step.IH unfolding layer.simps set_remdups set_concat set_map [where xs = "map _ (layer n)"]
    by (auto simp del: filter.simps)
qed

lemma crossings_at_least: "crossings n right_shore \<Longrightarrow> 7 \<le> n"
proof (rule ccontr)
  assume "crossings n right_shore" and "\<not> 7 \<le> n"
  then have "n \<in> {0, 1, 2, 3, 4, 5, 6}" and m: "right_shore \<in> set (layer n)"
    by (auto dest: crossings_layer)
  then consider "n = 0" | "n = 1" | "n = 2" | "n = 3" | "n = 4" | "n = 5" | "n = 6" by auto
  then show False
    using m
    by cases (simp_all add: eval_nat_numeral left_shore_def right_shore_def safe_def)
qed

subsection \<open>Sessions refine the puzzle\<close>

definition session_pos :: "session \<Rightarrow> pos" where
  "session_pos s = \<lparr>wolf = wolf_on_right s, goat = goat_on_right s, cabbage = cabbage_on_right s,
                    boat = boat_on_right s\<rparr>"

text \<open>An object taken on the other shore stays where it is when the boat arrives: an empty crossing.\<close>

lemma move_boat_crosses:
  "\<exists>ob. side ob (session_pos s) = boat (session_pos s) \<and> session_pos (move_boat s) = cross ob (session_pos s)"
proof (cases "side (obj_in_boat s) (session_pos s) = boat (session_pos s)")
  case True
  then show ?thesis
    by (intro exI [of _ "obj_in_boat s"]) (cases "obj_in_boat s"; simp add: move_boat_def session_pos_def Let_def)
next
  case False
  then show ?thesis
    by (intro exI [of _ OBJ_NONE]) (cases "obj_in_boat s"; simp add: move_boat_def session_pos_def Let_def)
qed

definition is_move :: "message \<Rightarrow> bool" where
  "is_move m = (msg_id m = MSG_MOVE)"

definition is_cmd :: "message \<Rightarrow> bool" where
  "is_cmd m \<longleftrightarrow> msg_id m = MSG_TAKE \<or> msg_id m = MSG_PUT \<or> msg_id m = MSG_MOVE"

lemma answers:
  "answer_to q (send_ok q) = Some (blank\<lparr>msg_id := MSG_OK\<rparr>)"
  "answer_to q (send_all_moved q) = Some (blank\<lparr>msg_id := MSG_ALL_MOVED\<rparr>)"
  "answer_to q (send_error q e) = Some (blank\<lparr>msg_id := MSG_ERR, err_msg := take 255 e\<rparr>)"
  by (simp_all add: answer_to_def send_ok_def send_all_moved_def send_error_def)

lemma dispatch_cmd:
  assumes g: "get_session q ss = Some s" and n: "crossings n (session_pos s)" and c: "is_cmd c"
    and d: "dispatch (True, c\<lparr>queue_id := q\<rparr>) ss = (ss', out)"
  shows "\<exists>m. answer_to q out = Some m \<and>
     (msg_id m = MSG_ALL_MOVED \<longrightarrow> crossings n right_shore) \<and>
     (msg_id m = MSG_OK \<longrightarrow> (\<exists>s'. get_session q ss' = Some s' \<and>
        crossings (n + (if is_move c then 1 else 0)) (session_pos s'))) \<and>
     msg_id m \<in> {MSG_ERR, MSG_OK, MSG_ALL_MOVED}"
proof -
  have q: "sess_queue s = q" using g by (rule get_session_queue)
  consider "msg_id c = MSG_TAKE" | "msg_id c = MSG_PUT" | "msg_id c = MSG_MOVE"
    using c by (auto simp: is_cmd_def)
  then show ?thesis
  proof cases
    case 1
    then have "dispatch (True, c\<lparr>queue_id := q\<rparr>) ss =
        (if obj_in_boat s \<noteq> OBJ_NONE then (ss, send_error q ''Object already in boat'')
         else (set_session q (s\<lparr>obj_in_boat := obj_id c\<rparr>) ss, send_ok q))"
      using g by (simp add: dispatch_def handle_take_def msg_defs)
    then show ?thesis
      using 1 d q n get_set_session [OF g, of "s\<lparr>obj_in_boat := obj_id c\<rparr>"]
      by (cases "obj_in_boat s = OBJ_NONE") (auto simp: answers is_move_def msg_defs session_pos_def)
  next
    case 2
    then have "dispatch (True, c\<lparr>queue_id := q\<rparr>) ss =
        (if obj_in_boat s = OBJ_NONE then (ss, send_error q ''No object in boat'')
         else (set_session q (s\<lparr>obj_in_boat := OBJ_NONE\<rparr>) ss,
           if session_pos s = right_shore then send_all_moved q else send_ok q))"
      using g by (simp add: dispatch_def handle_put_def msg_defs session_pos_def right_shore_def Let_def)
    then show ?thesis
      using 2 d q n get_set_session [OF g, of "s\<lparr>obj_in_boat := OBJ_NONE\<rparr>"]
      by (cases "obj_in_boat s = OBJ_NONE"; cases "session_pos s = right_shore")
        (auto simp: answers is_move_def msg_defs session_pos_def)
  next
    case 3
    obtain ob where ob: "side ob (session_pos s) = boat (session_pos s)"
        "session_pos (move_boat s) = cross ob (session_pos s)"
      using move_boat_crosses by blast
    have safe: "safe (session_pos (move_boat s)) \<Longrightarrow> crossings (Suc n) (session_pos (move_boat s))"
      using crossings.step [OF n ob(1)] ob(2) by simp
    have "\<exists>e. dispatch (True, c\<lparr>queue_id := q\<rparr>) ss =
        (set_session q (move_boat s) ss, if safe (session_pos (move_boat s)) then send_ok q else send_error q e)"
      using 3 g by (auto simp: dispatch_def handle_move_def msg_defs safe_def session_pos_def Let_def)
    then show ?thesis
      using 3 d q safe get_set_session [OF g, of "move_boat s"]
      by (cases "safe (session_pos (move_boat s))") (auto simp: answers is_move_def msg_defs)
  qed
qed

lemma client_loop_solves:
  "get_session q ss = Some s \<Longrightarrow> crossings n (session_pos s) \<Longrightarrow> \<forall>c \<in> set cs. is_cmd c \<Longrightarrow>
     client_loop q cs ss = Some (ss', True, failed) \<Longrightarrow>
     \<exists>m \<le> n + length (filter is_move cs). crossings m right_shore"
proof (induction cs arbitrary: ss s n)
  case Nil
  then show ?case by simp
next
  case (Cons c cs)
  obtain ss1 out where d: "dispatch (True, c\<lparr>queue_id := q\<rparr>) ss = (ss1, out)" by fastforce
  obtain m where m: "answer_to q out = Some m" "msg_id m = MSG_ALL_MOVED \<longrightarrow> crossings n right_shore"
      "msg_id m = MSG_OK \<longrightarrow> (\<exists>s'. get_session q ss1 = Some s' \<and>
        crossings (n + (if is_move c then 1 else 0)) (session_pos s'))"
      "msg_id m \<in> {MSG_ERR, MSG_OK, MSG_ALL_MOVED}"
    using dispatch_cmd [OF Cons.prems(1,2) _ d] Cons.prems(3) by auto
  consider "msg_id m = MSG_ERR" | "msg_id m = MSG_ALL_MOVED" | "msg_id m = MSG_OK"
    using m(4) by blast
  then show ?case
  proof cases
    case 1
    then show ?thesis using Cons.prems(4) d m(1) by simp
  next
    case 2
    then show ?thesis using m(2) by (intro exI [of _ n]) auto
  next
    case 3
    then obtain s' where "get_session q ss1 = Some s'"
        "crossings (n + (if is_move c then 1 else 0)) (session_pos s')"
      using m(3) by blast
    moreover have "client_loop q cs ss1 = Some (ss', True, failed)"
      using Cons.prems(4) d m(1) 3 by (simp add: msg_defs)
    ultimately show ?thesis
      using Cons.IH [of ss1 s' "n + (if is_move c then 1 else 0)"] Cons.prems(3) by auto
  qed
qed


subsection \<open>Command lists\<close>

text \<open>The commands the file format can express, and their text.\<close>

definition commands :: "message set" where
  "commands = {blank\<lparr>msg_id := MSG_TAKE, obj_id := OBJ_WOLF\<rparr>, blank\<lparr>msg_id := MSG_TAKE, obj_id := OBJ_GOAT\<rparr>,
     blank\<lparr>msg_id := MSG_TAKE, obj_id := OBJ_CABBAGE\<rparr>, blank\<lparr>msg_id := MSG_PUT\<rparr>, blank\<lparr>msg_id := MSG_MOVE\<rparr>}"

definition render :: "message \<Rightarrow> string" where
  "render m =
     (if msg_id m = MSG_TAKE then
        (case obj_id m of OBJ_WOLF \<Rightarrow> ''take wolf;'' | OBJ_GOAT \<Rightarrow> ''take goat;'' | _ \<Rightarrow> ''take cabbage;'')
      else if msg_id m = MSG_PUT then ''put;'' else ''move;'')"

lemma lines_acc_line:
  "CHR 0x0A \<notin> set w \<Longrightarrow> lines_acc (w @ CHR 0x0A # rest) l = (l @ w) # lines_acc rest []"
  by (induction w arbitrary: l) auto

lemma render_no_newline: "m \<in> commands \<Longrightarrow> CHR 0x0A \<notin> set (render m)"
  by (auto simp: commands_def render_def msg_defs blank_def)

lemma parse_render: "m \<in> commands \<Longrightarrow> parse_line (render m) = Some (Cmd m)"
  by (auto simp: commands_def render_def msg_defs blank_def parse_line_def strtok_words_def)

lemma parse_lines_rendered:
  "set ms \<subseteq> commands \<Longrightarrow> parse_lines (lines_acc (concat (map (\<lambda>m. render m @ [CHR 0x0A]) ms)) []) = Some (Some ms)"
proof (induction ms)
  case Nil
  then show ?case by simp
next
  case (Cons m ms)
  then show ?case
    using lines_acc_line [OF render_no_newline, of m] by (simp add: parse_render)
qed

lemma parse_line_cmd: "parse_line l = Some (Cmd m) \<Longrightarrow> m \<in> commands"
  by (auto simp: parse_line_def commands_def split: list.splits if_splits)

lemma parse_lines_commands: "parse_lines ls = Some (Some ms) \<Longrightarrow> set ms \<subseteq> commands"
  by (induction ls arbitrary: ms) (auto split: option.splits parsed.splits dest: parse_line_cmd)

lemma commands_is_cmd: "m \<in> commands \<Longrightarrow> is_cmd m"
  by (auto simp: commands_def is_cmd_def)

subsection \<open>Properties\<close>

text \<open>C34: whatever the messages of the clients and however they are interleaved, the answers the server
  sends to a queue are those it would send if that client's messages and sessions were alone.\<close>

theorem sessions_isolated:
  "sent_to q (snd (serve es sessions)) =
     sent_to q (snd (serve (filter (\<lambda>e. queue_id (snd e) = q) es) (of_queue q sessions)))"
  by (rule serve_projects)


definition solution_file :: string where
  "solution_file = concat (map (\<lambda>l. l @ [CHR 0x0A])
     [''take goat;'', ''move;'', ''put;'', ''move;'', ''take wolf;'', ''move;'', ''put;'', ''take goat;'', ''move;'',
      ''put;'', ''take cabbage;'', ''move;'', ''put;'', ''move;'', ''take goat;'', ''move;'', ''put;''])"


text \<open>a command file written in the format is read back as the commands it was written from.\<close>

theorem parse_reads_back:
  assumes "set ms \<subseteq> commands"
  shows "parse_cmd_list (concat (map (\<lambda>m. render m @ [CHR 0x0A]) ms)) = Some (Some ms)"
  using parse_lines_rendered [OF assms] by (simp add: parse_cmd_list_def)

theorem parse_reads_back_witness:
  "parse_cmd_list ''take goat;\<newline>move;\<newline>'' =
     Some (Some [blank\<lparr>msg_id := MSG_TAKE, obj_id := OBJ_GOAT\<rparr>, blank\<lparr>msg_id := MSG_MOVE\<rparr>])"
  using parse_reads_back [of "[blank\<lparr>msg_id := MSG_TAKE, obj_id := OBJ_GOAT\<rparr>, blank\<lparr>msg_id := MSG_MOVE\<rparr>]"]
  by (simp add: commands_def render_def msg_defs blank_def)

end
