(* ===== verification/Kmp.thy ===== *)
theory Kmp
  imports Main "HOL-Library.Monad_Syntax" "HOL-Library.Sublist" "HOL-Library.Word"
begin

text \<open>
  The substring search of src/SP/task2/find_string.c: the prefix table compute_lps and the matching
  loop kmp_search. Bytes are 8-bit words; the character of the file is an int between 0 and 255
  (fgetc) while a character of the pattern is a signed char, and the comparison is on ints, so a
  pattern byte from 0x80 on never equals a file byte. The table is an array whose cells are undefined
  until written; reading an undefined cell or outside an array has the value None, as has a loop that
  does not end.
\<close>

subsection \<open>The code\<close>

definition at :: "'a list \<Rightarrow> nat \<Rightarrow> 'a option" where
  "at xs i = (if i < length xs then Some (xs ! i) else None)"

type_synonym table = "nat option list"

definition lps_read :: "table \<Rightarrow> nat \<Rightarrow> nat option" where
  "lps_read lps i = do { c \<leftarrow> at lps i; c }"

definition lps_write :: "table \<Rightarrow> nat \<Rightarrow> nat \<Rightarrow> table option" where
  "lps_write lps i v = (if i < length lps then Some (lps[i := Some v]) else None)"

partial_function (option) lps_loop :: "int list \<Rightarrow> nat \<Rightarrow> nat \<Rightarrow> nat \<Rightarrow> table \<Rightarrow> table option" where
  "lps_loop pattern pattern_len len i lps =
     (if i < pattern_len then do {
        pi \<leftarrow> at pattern i;
        pl \<leftarrow> at pattern len;
        (if pi = pl then do {
           lps \<leftarrow> lps_write lps i (len + 1);
           lps_loop pattern pattern_len (len + 1) (i + 1) lps
         }
         else if len \<noteq> 0 then do {
           len \<leftarrow> lps_read lps (len - 1);
           lps_loop pattern pattern_len len i lps
         }
         else do {
           lps \<leftarrow> lps_write lps i 0;
           lps_loop pattern pattern_len len (i + 1) lps
         })
      } else Some lps)"

definition compute_lps :: "int list \<Rightarrow> table \<Rightarrow> nat \<Rightarrow> table option" where
  "compute_lps pattern lps pattern_len = do {
     lps \<leftarrow> lps_write lps 0 0;
     lps_loop pattern pattern_len 0 1 lps
   }"

partial_function (option) fallback :: "int list \<Rightarrow> table \<Rightarrow> int \<Rightarrow> nat \<Rightarrow> nat option" where
  "fallback pattern lps ch j = do {
     pj \<leftarrow> at pattern j;
     (if j > 0 \<and> ch \<noteq> pj then do { j \<leftarrow> lps_read lps (j - 1); fallback pattern lps ch j }
      else Some j)
   }"

fun match_loop :: "int list \<Rightarrow> table \<Rightarrow> int list \<Rightarrow> nat \<Rightarrow> bool option" where
  "match_loop pattern lps [] j = Some False"
| "match_loop pattern lps (ch # file) j = do {
     j \<leftarrow> fallback pattern lps ch j;
     pj \<leftarrow> at pattern j;
     let j = (if ch = pj then j + 1 else j);
     (if j = length pattern then Some True else match_loop pattern lps file j)
   }"

text \<open>\<open>malloc_ok\<close> is whether malloc gives the table.\<close>

definition kmp_search :: "bool \<Rightarrow> 8 word list \<Rightarrow> 8 word list \<Rightarrow> bool option" where
  "kmp_search malloc_ok file pattern =
     (let pat = map sint pattern in
      if length pat = 0 then Some False
      else if \<not> malloc_ok then Some False
      else do {
        lps \<leftarrow> compute_lps pat (replicate (length pat) None) (length pat);
        match_loop pat lps (map uint file) 0
      })"

subsection \<open>Borders\<close>

text \<open>\<open>m\<close> characters of the pattern are a suffix of what has been read.\<close>

abbreviation ends_with :: "'a list \<Rightarrow> nat \<Rightarrow> 'a list \<Rightarrow> bool" where
  "ends_with p m s \<equiv> m \<le> length p \<and> suffix (take m p) s"

text \<open>The longest proper border of the first \<open>k\<close> characters.\<close>

definition border :: "'a list \<Rightarrow> nat \<Rightarrow> nat \<Rightarrow> bool" where
  "border p k m \<longleftrightarrow> m < k \<and> ends_with p m (take k p) \<and>
     (\<forall>i < k. ends_with p i (take k p) \<longrightarrow> i \<le> m)"

lemma suffix_le:
  "suffix xs zs \<Longrightarrow> suffix ys zs \<Longrightarrow> length xs \<le> length ys \<Longrightarrow> suffix xs ys"
  by (rule suffix_length_suffix)

lemma ends_with_nested:
  "ends_with p j s \<Longrightarrow> ends_with p i s \<Longrightarrow> i \<le> j \<Longrightarrow> ends_with p i (take j p)"
  using suffix_le [of "take i p" s "take j p"] by auto

lemma ends_with_trans:
  "ends_with p j s \<Longrightarrow> ends_with p i (take j p) \<Longrightarrow> ends_with p i s"
  using suffix_order.trans by auto

lemma ends_with_snoc:
  "ends_with p (Suc m) (s @ [x]) \<longleftrightarrow> m < length p \<and> ends_with p m s \<and> p ! m = x"
  by (auto simp: take_Suc_conv_app_nth)

lemma ends_with_0 [simp]: "ends_with p 0 s"
  by simp

text \<open>Falling back along the table loses no candidate: if every candidate is at most \<open>j\<close> and \<open>j\<close>
  itself is not one, every candidate is at most the longest border of the first \<open>j\<close> characters.\<close>

lemma fall_back:
  assumes "ends_with p j s" "border p j m" "\<forall>i. ends_with p i s \<and> Q i \<longrightarrow> i \<le> j" "\<not> Q j"
  shows "ends_with p m s \<and> (\<forall>i. ends_with p i s \<and> Q i \<longrightarrow> i \<le> m) \<and> m < j"
proof (intro conjI allI impI)
  show "m \<le> length p" "suffix (take m p) s" "m < j"
    using assms(1,2) ends_with_trans unfolding border_def by blast+
next
  fix i
  assume i: "ends_with p i s \<and> Q i"
  then have "i < j"
    using assms(3,4) nat_less_le by blast
  then show "i \<le> m"
    using i assms(1,2) ends_with_nested [where p = p and j = j and s = s and i = i] unfolding border_def by simp
qed

subsection \<open>The table\<close>

definition table_ok :: "int list \<Rightarrow> nat \<Rightarrow> table \<Rightarrow> bool" where
  "table_ok p i lps \<longleftrightarrow> length lps = length p \<and> (\<forall>k < i. \<exists>m. lps ! k = Some m \<and> border p (Suc k) m)"

lemma table_read:
  "table_ok p i lps \<Longrightarrow> 0 < j \<Longrightarrow> j \<le> i \<Longrightarrow> i \<le> length p \<Longrightarrow> \<exists>m. lps_read lps (j - 1) = Some m \<and> border p j m"
  by (auto simp: table_ok_def lps_read_def at_def dest!: spec [of _ "j - 1"])

lemma table_write:
  "table_ok p i lps \<Longrightarrow> i < length p \<Longrightarrow> border p (Suc i) m \<Longrightarrow>
     \<exists>lps'. lps_write lps i m = Some lps' \<and> table_ok p (Suc i) lps'"
  by (auto simp: table_ok_def lps_write_def nth_list_update less_Suc_eq)

lemma border_match:
  assumes "ends_with p len (take i p)" "len < i" "i < length p" "p ! len = p ! i"
    "\<forall>m < i. ends_with p m (take i p) \<and> p ! m = p ! i \<longrightarrow> m \<le> len"
  shows "border p (Suc i) (Suc len)"
  unfolding border_def
proof (intro conjI allI impI)
  have t: "take (Suc i) p = take i p @ [p ! i]"
    using assms(3) by (rule take_Suc_conv_app_nth)
  show "Suc len < Suc i" using assms(2) by simp
  have "ends_with p (Suc len) (take (Suc i) p)"
    unfolding t ends_with_snoc using assms by simp
  then show "Suc len \<le> length p" "suffix (take (Suc len) p) (take (Suc i) p)" by blast+
  fix m
  assume m: "m < Suc i" "ends_with p m (take (Suc i) p)"
  show "m \<le> Suc len"
  proof (cases m)
    case (Suc m')
    then show ?thesis
      using m assms(5) unfolding t by (simp only: Suc ends_with_snoc) auto
  qed simp
qed

lemma border_none:
  assumes "i < length p" "\<forall>m < i. \<not> (ends_with p m (take i p) \<and> p ! m = p ! i)"
  shows "border p (Suc i) 0"
  unfolding border_def
proof (intro conjI allI impI)
  have t: "take (Suc i) p = take i p @ [p ! i]"
    using assms(1) by (rule take_Suc_conv_app_nth)
  fix m
  assume m: "m < Suc i" "ends_with p m (take (Suc i) p)"
  show "m \<le> 0"
  proof (cases m)
    case (Suc m')
    then show ?thesis
      using m assms(2) unfolding t by (simp only: Suc ends_with_snoc) auto
  qed simp
qed auto

lemma lps_loop_ok:
  assumes "table_ok p i lps" "len < i" "i \<le> length p" "ends_with p len (take i p)"
    "i < length p \<Longrightarrow> \<forall>m < i. ends_with p m (take i p) \<and> p ! m = p ! i \<longrightarrow> m \<le> len"
  shows "\<exists>lps'. lps_loop p (length p) len i lps = Some lps' \<and> table_ok p (length p) lps'"
  using assms
proof (induction "2 * (length p - i) + len" arbitrary: i len lps rule: less_induct)
  case less
  note prems = less.prems
  show ?case
  proof (cases "i < length p")
    case False
    then have "i = length p" using prems by simp
    then show ?thesis
      using prems by (subst lps_loop.simps) auto
  next
    case True
    have at: "at p i = Some (p ! i)" "at p len = Some (p ! len)"
      using True prems by (simp_all add: at_def)
    have t: "take (Suc i) p = take i p @ [p ! i]"
      using True by (rule take_Suc_conv_app_nth)
    show ?thesis
    proof (cases "p ! i = p ! len")
      case match: True
      have b: "border p (Suc i) (Suc len)"
        using border_match [where p = p and len = len and i = i] prems True match by simp
      then obtain lps1 where l: "lps_write lps i (len + 1) = Some lps1" "table_ok p (Suc i) lps1"
        using table_write [OF prems(1) True] by auto
      have "\<exists>lps'. lps_loop p (length p) (len + 1) (i + 1) lps1 = Some lps' \<and> table_ok p (length p) lps'"
      proof (rule less.hyps)
        show "\<forall>m < i + 1. ends_with p m (take (i + 1) p) \<and> p ! m = p ! (i + 1) \<longrightarrow> m \<le> len + 1"
          using b by (auto simp: border_def)
      qed (use l(2) prems True b in \<open>auto simp: border_def\<close>)
      then show ?thesis
        using True at match l(1) by (subst lps_loop.simps) simp
    next
      case mis: False
      show ?thesis
      proof (cases "len = 0")
        case z: True
        have b: "border p (Suc i) 0"
          using border_none [where p = p and i = i] prems(5) [OF True] True mis z by fastforce
        then obtain lps1 where l: "lps_write lps i 0 = Some lps1" "table_ok p (Suc i) lps1"
          using table_write [OF prems(1) True] by auto
        have "\<exists>lps'. lps_loop p (length p) 0 (i + 1) lps1 = Some lps' \<and> table_ok p (length p) lps'"
        proof (rule less.hyps)
          show "\<forall>m < i + 1. ends_with p m (take (i + 1) p) \<and> p ! m = p ! (i + 1) \<longrightarrow> m \<le> 0"
            using b by (auto simp: border_def)
        qed (use l(2) prems True z in auto)
        then show ?thesis
          using True at mis z l(1) by (subst lps_loop.simps) simp
      next
        case nz: False
        obtain m where m: "lps_read lps (len - 1) = Some m" "border p len m"
          using table_read [OF prems(1), of len] nz prems(2,3) by auto
        have f: "ends_with p m (take i p) \<and> (\<forall>j. ends_with p j (take i p) \<and> (j < i \<and> p ! j = p ! i) \<longrightarrow> j \<le> m) \<and> m < len"
          by (rule fall_back [OF prems(4) m(2)]) (use prems(5) [OF True] mis in auto)
        have "\<exists>lps'. lps_loop p (length p) m i lps = Some lps' \<and> table_ok p (length p) lps'"
          by (rule less.hyps) (use f prems True in auto)
        then show ?thesis
          using True at mis nz m(1) by (subst lps_loop.simps) simp
      qed
    qed
  qed
qed


lemma compute_lps_ok:
  assumes "p \<noteq> []"
  shows "\<exists>lps. compute_lps p (replicate (length p) None) (length p) = Some lps \<and> table_ok p (length p) lps"
proof -
  let ?l = "(replicate (length p) None)[0 := Some 0]"
  have "lps_write (replicate (length p) None) 0 0 = Some ?l"
    using assms by (simp add: lps_write_def)
  moreover have "border p (Suc 0) 0"
    by (simp add: border_def)
  then have "table_ok p 1 ?l"
    using assms by (auto simp: table_ok_def)
  moreover have "1 \<le> length p"
    using assms by (cases p) auto
  ultimately show ?thesis
    using lps_loop_ok [of p 1 ?l 0] by (auto simp: compute_lps_def)
qed

subsection \<open>The matching loop\<close>

lemma fallback_ok:
  assumes "table_ok p (length p) lps" "ends_with p j s" "j < length p"
    "\<forall>i. ends_with p i s \<and> i < length p \<and> p ! i = ch \<longrightarrow> i \<le> j"
  shows "\<exists>j'. fallback p lps ch j = Some j' \<and> ends_with p j' s \<and> j' < length p \<and> (p ! j' = ch \<or> j' = 0) \<and>
     (\<forall>i. ends_with p i s \<and> i < length p \<and> p ! i = ch \<longrightarrow> i \<le> j')"
  using assms(2-)
proof (induction j rule: less_induct)
  case (less j)
  have at: "at p j = Some (p ! j)"
    using less.prems(2) by (simp add: at_def)
  show ?case
  proof (cases "j > 0 \<and> ch \<noteq> p ! j")
    case False
    then have "fallback p lps ch j = Some j"
      using at by (subst fallback.simps) auto
    then show ?thesis using False less.prems by auto
  next
    case True
    obtain m where m: "lps_read lps (j - 1) = Some m" "border p j m"
      using table_read [OF assms(1), of j] True less.prems(2) by auto
    have f: "ends_with p m s \<and> (\<forall>i. ends_with p i s \<and> (i < length p \<and> p ! i = ch) \<longrightarrow> i \<le> m) \<and> m < j"
      by (rule fall_back [OF less.prems(1) m(2)]) (use less.prems(3) True in auto)
    then have "\<exists>j'. fallback p lps ch m = Some j' \<and> ends_with p j' s \<and> j' < length p \<and> (p ! j' = ch \<or> j' = 0) \<and>
        (\<forall>i. ends_with p i s \<and> i < length p \<and> p ! i = ch \<longrightarrow> i \<le> j')"
      by (intro less.IH) (use less.prems(2) in auto)
    then show ?thesis
      using True at m(1) by (subst fallback.simps) simp
  qed
qed

lemma match_loop_ok:
  assumes "table_ok p (length p) lps" "ends_with p j s" "j < length p"
    "\<forall>i. ends_with p i s \<longrightarrow> i \<le> j" "\<not> sublist p s"
  shows "match_loop p lps rest j = Some (sublist p (s @ rest))"
  using assms(2-)
proof (induction rest arbitrary: j s)
  case Nil
  then show ?case by simp
next
  case (Cons ch rest)
  have "\<forall>i. ends_with p i s \<and> i < length p \<and> p ! i = ch \<longrightarrow> i \<le> j"
    using Cons.prems(3) by blast
  from fallback_ok [OF assms(1) Cons.prems(1,2) this] obtain j' where
    j': "fallback p lps ch j = Some j'" "ends_with p j' s" "j' < length p" "p ! j' = ch \<or> j' = 0"
     "\<forall>i. ends_with p i s \<and> i < length p \<and> p ! i = ch \<longrightarrow> i \<le> j'" by blast
  define k where "k = (if ch = p ! j' then j' + 1 else j')"
  have k: "ends_with p k (s @ [ch])"
  proof (cases "ch = p ! j'")
    case True
    then have "ends_with p (Suc j') (s @ [ch])"
      unfolding ends_with_snoc using j'(2,3) by simp
    then show ?thesis using True by (simp add: k_def)
  qed (use j'(4) in \<open>auto simp: k_def\<close>)
  have max: "i \<le> k" if "ends_with p i (s @ [ch])" for i
  proof (cases i)
    case (Suc i')
    then have "i' < length p \<and> ends_with p i' s \<and> p ! i' = ch"
      using that unfolding Suc ends_with_snoc by simp
    then show ?thesis
      using j'(4,5) Suc by (auto simp: k_def)
  qed simp
  have run: "match_loop p lps (ch # rest) j = (if k = length p then Some True else match_loop p lps rest k)"
    using j'(1,3) by (simp add: at_def k_def Let_def)
  show ?case
  proof (cases "k = length p")
    case True
    then have "sublist p (s @ [ch])"
      using k by (simp add: sublist_snoc)
    then have "sublist p (s @ ch # rest)"
      by (auto simp: sublist_def) (metis append.assoc append_Cons append_Nil)
    then show ?thesis using run True by simp
  next
    case False
    then have "k < length p"
      using k by simp
    moreover have "\<not> sublist p (s @ [ch])"
      using max [of "length p"] calculation Cons.prems(4) by (auto simp: sublist_snoc)
    ultimately have "match_loop p lps rest k = Some (sublist p ((s @ [ch]) @ rest))"
      using max by (intro Cons.IH [OF k]) auto
    then show ?thesis using run False by simp
  qed
qed

lemma kmp_search_ok:
  assumes "pattern \<noteq> []"
  shows "kmp_search True file pattern = Some (sublist (map sint pattern) (map uint file))"
proof -
  let ?p = "map sint pattern"
  obtain lps where l: "compute_lps ?p (replicate (length ?p) None) (length ?p) = Some lps" "table_ok ?p (length ?p) lps"
    using compute_lps_ok [of ?p] assms by auto
  have "match_loop ?p lps (map uint file) 0 = Some (sublist ?p ([] @ map uint file))"
    using l(2) assms by (intro match_loop_ok) auto
  then show ?thesis
    using l(1) assms by (simp add: kmp_search_def Let_def)
qed

subsection \<open>Properties\<close>

lemma sint_ascii: "uint (w :: 8 word) < 128 \<Longrightarrow> sint w = uint w"
  using signed_take_bit_int_eq_self [of 7 "uint w"] uint_ge_0 [of w] by (simp add: sint_uint)

text \<open>C7: for a non-empty pattern of ASCII bytes the search ends, reads no undefined table cell and nothing
  outside its arrays, and answers true exactly when the pattern occurs in the file.\<close>

theorem kmp_finds_substring:
  assumes "pattern \<noteq> []" and "\<forall>b \<in> set pattern. uint b < 128"
  shows "kmp_search True file pattern = Some (sublist pattern file)"
proof -
  have "map sint pattern = map uint pattern"
    using assms(2) by (simp add: sint_ascii)
  then have "sublist (map sint pattern) (map uint file) = sublist (map uint pattern) (map uint file)"
    by (rule arg_cong)
  also have "\<dots> = sublist pattern file"
  proof
    assume "sublist (map uint pattern) (map uint file)"
    then obtain u v where e: "map uint file = u @ map uint pattern @ v"
      by (auto simp: sublist_def)
    then obtain xs rest where f: "file = xs @ rest" "map uint rest = map uint pattern @ v"
      by (metis map_eq_append_conv)
    then obtain ys zs where "rest = ys @ zs" "map uint ys = map uint pattern"
      by (metis map_eq_append_conv)
    with f(1) have "file = xs @ ys @ zs" "map uint ys = map uint pattern"
      by simp_all
    moreover from this(2) have "ys = pattern"
      by (rule map_injective) (auto intro: injI simp: word_uint_eq_iff)
    ultimately show "sublist pattern file" by auto
  qed (rule map_mono_sublist)
  finally show ?thesis
    using kmp_search_ok [OF assms(1)] by simp
qed

theorem kmp_finds_substring_witness:
  "kmp_search True [97, 98, 97, 98, 99] [97, 98, 99] = Some True \<and> kmp_search True [97, 98, 97] [97, 98, 99] = Some False"
  using kmp_finds_substring [of "[97, 98, 99]" "[97, 98, 97, 98, 99]"]
    kmp_finds_substring [of "[97, 98, 99]" "[97, 98, 97]"]
  by (simp add: sublist_Cons_right)

text \<open>a pattern with a byte from 0x80 on is never found, whatever the file holds: the pattern byte is
  compared as a negative int with a file byte between 0 and 255.\<close>

theorem kmp_misses_high_bytes:
  assumes "b \<in> set pattern" and "128 \<le> uint b"
  shows "kmp_search True file pattern = Some False"
proof -
  have "uint b < 256"
    using uint_lt2p [of b] by simp
  then have "uint b div 128 = 1"
    using assms(2) by linarith
  then have "bit (uint b) 7"
    by (simp add: bit_iff_odd)
  then have "sint b < 0"
    by (simp add: sint_uint signed_take_bit_negative_iff)
  then have "\<not> sublist (map sint pattern) (map uint file)"
    using set_mono_sublist [of "map sint pattern" "map uint file"] assms(1) by force
  then show ?thesis
    using kmp_search_ok [of pattern "file"] assms(1) by (cases pattern) auto
qed

theorem kmp_misses_high_bytes_witness:
  "kmp_search True [200] [200] = Some False"
  by (rule kmp_misses_high_bytes [of 200]) simp_all

end
