(* ===== verification/Philosophers.thy ===== *)
theory Philosophers
  imports Main
begin

text \<open>
  The dining philosophers of src/SP/task3: five processes, one semaphore set. Semaphore 0 starts at 2
  and limits how many philosophers reach for forks at once; semaphores 1 to 5 are the forks, each
  starting at 1. Philosopher \<open>k\<close> (process number 2k+1 in the code) runs three rounds of: down on
  semaphore 0, take the two forks, eat, return the two forks, up on semaphore 0. Each semop that can
  proceed is one step; a down on a semaphore at 0 blocks. All semops succeed (the error exits of CHECK
  are not modelled).
\<close>

subsection \<open>Forks and semaphores\<close>

text \<open>The switch of take_fork and return_fork: the semaphore of fork number \<open>num\<close>.\<close>

fun fork_sem :: "nat \<Rightarrow> nat option" where
  "fork_sem num =
     (if num = 0 then Some 1 else if num = 2 then Some 2 else if num = 4 then Some 3
      else if num = 6 then Some 4 else if num = 8 then Some 5 else if num = 10 then Some 1 else None)"

record pstate =
  sem :: "nat \<Rightarrow> nat"
  pc :: "nat \<Rightarrow> nat"
  round :: "nat \<Rightarrow> nat"

text \<open>semop with -1 (None while it blocks) and with +1 on semaphore \<open>i\<close>.\<close>

definition down :: "nat \<Rightarrow> pstate \<Rightarrow> pstate option" where
  "down i s = (if sem s i = 0 then None else Some (s\<lparr>sem := (sem s)(i := sem s i - 1)\<rparr>))"

definition up :: "nat \<Rightarrow> pstate \<Rightarrow> pstate" where
  "up i s = s\<lparr>sem := (sem s)(i := sem s i + 1)\<rparr>"

definition take_fork :: "nat \<Rightarrow> pstate \<Rightarrow> pstate option" where
  "take_fork num s = (case fork_sem num of None \<Rightarrow> None | Some i \<Rightarrow> down i s)"

definition return_fork :: "nat \<Rightarrow> pstate \<Rightarrow> pstate" where
  "return_fork num s = (case fork_sem num of None \<Rightarrow> s | Some i \<Rightarrow> up i s)"

definition init :: pstate where
  "init = \<lparr>sem = (\<lambda>i. if i = 0 then 2 else 1), pc = (\<lambda>_. 0), round = (\<lambda>_. 0)\<rparr>"

definition goto :: "nat \<Rightarrow> nat \<Rightarrow> pstate \<Rightarrow> pstate" where
  "goto k l s = s\<lparr>pc := (pc s)(k := l)\<rparr>"

text \<open>The next semop of philosopher \<open>k\<close> with \<open>id = 2 * k + 1\<close>, in the loop of main. At place 3 both forks
  are held and the philosopher eats; after place 5 the next round begins.\<close>

definition phil_step :: "nat \<Rightarrow> pstate \<Rightarrow> pstate option" where
  "phil_step k s =
     (let id = 2 * k + 1 in
      if round s k \<ge> 3 then None
      else if pc s k = 0 then map_option (goto k 1) (down 0 s)
      else if pc s k = 1 then map_option (goto k 2) (take_fork (id - 1) s)
      else if pc s k = 2 then map_option (goto k 3) (take_fork (id + 1) s)
      else if pc s k = 3 then Some (goto k 4 (return_fork (id - 1) s))
      else if pc s k = 4 then Some (goto k 5 (return_fork (id + 1) s))
      else if pc s k = 5 then Some ((goto k 0 (up 0 s))\<lparr>round := (round s)(k := round s k + 1)\<rparr>)
      else None)"

inductive step :: "pstate \<Rightarrow> pstate \<Rightarrow> bool" where
  phil: "k < 5 \<Longrightarrow> phil_step k s = Some s' \<Longrightarrow> step s s'"

inductive reachable :: "pstate \<Rightarrow> bool" where
  start: "reachable init"
| next_state: "reachable s \<Longrightarrow> step s s' \<Longrightarrow> reachable s'"

inductive_cases stepE: "step s s'"

definition eating :: "pstate \<Rightarrow> nat \<Rightarrow> bool" where
  "eating s k \<longleftrightarrow> pc s k = 3"

definition finished :: "pstate \<Rightarrow> nat \<Rightarrow> bool" where
  "finished s k \<longleftrightarrow> round s k = 3"

subsection \<open>The invariant: semaphore values count the holders\<close>

definition inside :: "nat \<Rightarrow> nat" where
  "inside p = (if p = 0 then 0 else 1)"

definition holds_left :: "nat \<Rightarrow> nat" where
  "holds_left p = (if p = 2 \<or> p = 3 then 1 else 0)"

definition holds_right :: "nat \<Rightarrow> nat" where
  "holds_right p = (if p = 3 \<or> p = 4 then 1 else 0)"

lemmas holds_defs = inside_def holds_left_def holds_right_def

definition inv :: "pstate \<Rightarrow> bool" where
  "inv s \<longleftrightarrow>
     sem s 0 + inside (pc s 0) + inside (pc s 1) + inside (pc s 2) + inside (pc s 3) + inside (pc s 4) = 2 \<and>
     sem s 1 + holds_left (pc s 0) + holds_right (pc s 4) = 1 \<and>
     sem s 2 + holds_left (pc s 1) + holds_right (pc s 0) = 1 \<and>
     sem s 3 + holds_left (pc s 2) + holds_right (pc s 1) = 1 \<and>
     sem s 4 + holds_left (pc s 3) + holds_right (pc s 2) = 1 \<and>
     sem s 5 + holds_left (pc s 4) + holds_right (pc s 3) = 1 \<and>
     (\<forall>k < 5. pc s k \<le> 5 \<and> round s k \<le> 3 \<and> (round s k = 3 \<longrightarrow> pc s k = 0))"

lemma five: "k < (5::nat) \<longleftrightarrow> k = 0 \<or> k = 1 \<or> k = 2 \<or> k = 3 \<or> k = 4"
  by auto

lemma upto_five: "p \<le> (5::nat) \<longleftrightarrow> p = 0 \<or> p = 1 \<or> p = 2 \<or> p = 3 \<or> p = 4 \<or> p = 5"
  by auto

lemma inv_init: "inv init"
  by (simp add: inv_def init_def holds_defs)

lemmas semop_defs = phil_step_def down_def up_def take_fork_def return_fork_def goto_def

subsection \<open>Every step keeps the invariant, and some step is always possible\<close>

lemma all_five: "(\<forall>k < (5::nat). P k) \<longleftrightarrow> P 0 \<and> P 1 \<and> P 2 \<and> P 3 \<and> P 4"
  by (auto simp: five)

definition left_sem :: "nat \<Rightarrow> nat" where
  "left_sem k = (if k = 0 then 1 else if k = 1 then 2 else if k = 2 then 3 else if k = 3 then 4 else 5)"

definition right_sem :: "nat \<Rightarrow> nat" where
  "right_sem k = (if k = 0 then 2 else if k = 1 then 3 else if k = 2 then 4 else if k = 3 then 5 else 1)"

lemma fork_sem_of: "k < 5 \<Longrightarrow> fork_sem (2 * k) = Some (left_sem k) \<and> fork_sem (2 * k + 2) = Some (right_sem k)"
  unfolding five by (elim disjE) (simp_all add: left_sem_def right_sem_def)

lemma phil_step_cases:
  assumes "phil_step k s = Some s'" "k < 5"
  obtains (enter) "pc s k = 0" "0 < sem s 0" "s' = s\<lparr>sem := (sem s)(0 := sem s 0 - 1), pc := (pc s)(k := 1)\<rparr>"
  | (take_left) "pc s k = 1" "0 < sem s (left_sem k)"
      "s' = s\<lparr>sem := (sem s)(left_sem k := sem s (left_sem k) - 1), pc := (pc s)(k := 2)\<rparr>"
  | (take_right) "pc s k = 2" "0 < sem s (right_sem k)"
      "s' = s\<lparr>sem := (sem s)(right_sem k := sem s (right_sem k) - 1), pc := (pc s)(k := 3)\<rparr>"
  | (drop_left) "pc s k = 3"
      "s' = s\<lparr>sem := (sem s)(left_sem k := sem s (left_sem k) + 1), pc := (pc s)(k := 4)\<rparr>"
  | (drop_right) "pc s k = 4"
      "s' = s\<lparr>sem := (sem s)(right_sem k := sem s (right_sem k) + 1), pc := (pc s)(k := 5)\<rparr>"
  | (leave) "pc s k = 5"
      "s' = s\<lparr>sem := (sem s)(0 := sem s 0 + 1), pc := (pc s)(k := 0), round := (round s)(k := round s k + 1)\<rparr>"
proof -
  show thesis
    using assms(1) fork_sem_of [OF assms(2)] enter take_left take_right drop_left drop_right leave
    by (auto simp: semop_defs Let_def simp del: fork_sem.simps split: if_splits)
qed

lemma inv_phil_step:
  assumes "inv s" "k < 5" "phil_step k s = Some s'"
  shows "inv s'"
proof -
  have r: "round s k < 3"
    using assms(3) by (auto simp: phil_step_def split: if_splits)
  note k = assms(2) [unfolded five]
  note i = assms(1) [unfolded inv_def all_five]
  from assms(3,2) show ?thesis
  proof (cases rule: phil_step_cases)
    case enter
    with k i r show ?thesis unfolding inv_def all_five
      by (elim disjE) (simp_all add: holds_defs left_sem_def right_sem_def del: One_nat_def)
  next
    case take_left
    with k i r show ?thesis unfolding inv_def all_five
      by (elim disjE) (simp_all add: holds_defs left_sem_def right_sem_def del: One_nat_def)
  next
    case take_right
    with k i r show ?thesis unfolding inv_def all_five
      by (elim disjE) (simp_all add: holds_defs left_sem_def right_sem_def del: One_nat_def)
  next
    case drop_left
    with k i r show ?thesis unfolding inv_def all_five
      by (elim disjE) (simp_all add: holds_defs left_sem_def right_sem_def del: One_nat_def)
  next
    case drop_right
    with k i r show ?thesis unfolding inv_def all_five
      by (elim disjE) (simp_all add: holds_defs left_sem_def right_sem_def del: One_nat_def)
  next
    case leave
    with k i r show ?thesis unfolding inv_def all_five
      by (elim disjE) (simp_all add: holds_defs left_sem_def right_sem_def del: One_nat_def)
  qed
qed

lemma reachable_inv: "reachable s \<Longrightarrow> inv s"
  by (induction rule: reachable.induct) (auto intro: inv_init inv_phil_step elim: stepE)

text \<open>A philosopher inside can always go on unless a neighbour holds the fork.\<close>

lemma blocked:
  assumes "inv s" "k < 5" "round s k < 3"
  shows "phil_step k s = None \<longleftrightarrow>
     (pc s k = 0 \<and> sem s 0 = 0) \<or> (pc s k = 1 \<and> sem s (left_sem k) = 0) \<or> (pc s k = 2 \<and> sem s (right_sem k) = 0)"
proof -
  have "pc s k \<le> 5" using assms(1,2) by (auto simp: inv_def)
  then show ?thesis
    using assms(3) fork_sem_of [OF assms(2)]
    by (auto simp: semop_defs Let_def simp del: fork_sem.simps split: if_splits)
qed

definition next_phil :: "nat \<Rightarrow> nat" where
  "next_phil k = (if k = 0 then 1 else if k = 1 then 2 else if k = 2 then 3 else if k = 3 then 4 else 0)"

definition prev_phil :: "nat \<Rightarrow> nat" where
  "prev_phil k = (if k = 0 then 4 else if k = 1 then 0 else if k = 2 then 1 else if k = 3 then 2 else 3)"

lemma fork_eqs:
  assumes "inv s" "k < 5"
  shows "sem s (left_sem k) + holds_left (pc s k) + holds_right (pc s (prev_phil k)) = 1"
    and "sem s (right_sem k) + holds_left (pc s (next_phil k)) + holds_right (pc s k) = 1"
    and "prev_phil k < 5" and "next_phil k < 5"
  using assms unfolding five inv_def
  by (elim disjE; simp add: left_sem_def right_sem_def prev_phil_def next_phil_def)+

lemma some_enabled:
  assumes i: "inv s" and u: "\<exists>k < 5. round s k < 3"
  shows "\<exists>k < 5. phil_step k s \<noteq> None"
proof (rule ccontr)
  assume n: "\<not> ?thesis"
  have stuck: "(pc s k = 0 \<and> sem s 0 = 0) \<or> (pc s k = 1 \<and> sem s (left_sem k) = 0) \<or> (pc s k = 2 \<and> sem s (right_sem k) = 0)"
    if "k < 5" "round s k < 3" for k
    using blocked [OF i that] n that(1) by blast
  have fin: "pc s k = 0" if "k < 5" "\<not> round s k < 3" for k
    using i that by (auto simp: inv_def)
  have alt: "pc s k = 0 \<or> (pc s k = 1 \<and> sem s (left_sem k) = 0) \<or> (pc s k = 2 \<and> sem s (right_sem k) = 0)" if "k < 5" for k
    using stuck [OF that] fin [OF that] by blast
  have hr: "holds_right (pc s k) = 0" if "k < 5" for k
    using alt [OF that] by (auto simp: holds_right_def)
  have not1: "pc s k \<noteq> 1" if "k < 5" for k
    using fork_eqs(1) [OF i that] alt [OF that] hr [OF fork_eqs(3) [OF i that]] by (auto simp: holds_left_def)
  have chain: "pc s (next_phil k) = 2" if k: "k < 5" "pc s k = 2" for k
  proof -
    have "sem s (right_sem k) = 0"
      using alt [OF k(1)] k(2) by simp
    then have "holds_left (pc s (next_phil k)) = 1"
      using fork_eqs(2) [OF i k(1)] hr [OF k(1)] by simp
    then have "pc s (next_phil k) = 2 \<or> pc s (next_phil k) = 3"
      by (simp add: holds_left_def split: if_splits)
    moreover have "pc s (next_phil k) \<noteq> 3"
      using hr [OF fork_eqs(4) [OF i k(1)]] by (simp add: holds_right_def split: if_splits)
    ultimately show ?thesis by simp
  qed
  have c: "pc s 0 = 2 \<longrightarrow> pc s 1 = 2" "pc s 1 = 2 \<longrightarrow> pc s 2 = 2" "pc s 2 = 2 \<longrightarrow> pc s 3 = 2"
      "pc s 3 = 2 \<longrightarrow> pc s 4 = 2" "pc s 4 = 2 \<longrightarrow> pc s 0 = 2"
    using chain [of 0] chain [of 1] chain [of 2] chain [of 3] chain [of 4]
    by (simp_all add: next_phil_def del: One_nat_def)
  have all: "pc s 0 = 2 \<and> pc s 1 = 2 \<and> pc s 2 = 2 \<and> pc s 3 = 2 \<and> pc s 4 = 2" if "pc s k = 2" "k < 5" for k
  proof -
    have "pc s 0 = 2 \<or> pc s 1 = 2 \<or> pc s 2 = 2 \<or> pc s 3 = 2 \<or> pc s 4 = 2"
      using that unfolding five by blast
    then show ?thesis using c by blast
  qed
  have sum: "sem s 0 + inside (pc s 0) + inside (pc s 1) + inside (pc s 2) + inside (pc s 3) + inside (pc s 4) = 2"
    using i by (simp add: inv_def)
  have zero: "pc s k = 0" if "k < 5" for k
    proof (rule ccontr)
    assume "pc s k \<noteq> 0"
    then have "pc s k = 2"
      using alt [OF that] not1 [OF that] by presburger
    from all [OF this that] show False
      using sum by (simp add: inside_def)
  qed
  then have "sem s 0 = 2"
    using sum by (simp add: inside_def)
  then show False
    using u stuck zero by fastforce
qed

text \<open>Every step brings its philosopher closer to the end of the third round.\<close>

definition remaining :: "pstate \<Rightarrow> nat \<Rightarrow> nat" where
  "remaining s k = 18 - (6 * round s k + pc s k)"

definition work :: "pstate \<Rightarrow> nat" where
  "work s = remaining s 0 + remaining s 1 + remaining s 2 + remaining s 3 + remaining s 4"

lemma step_work:
  assumes "inv s" "k < 5" "phil_step k s = Some s'"
  shows "work s' + 1 = work s"
proof -
  have r: "round s k < 3"
    using assms(3) by (auto simp: phil_step_def split: if_splits)
  have o: "remaining s' j = remaining s j" if "j \<noteq> k" for j
    using assms(3,2) that by (cases rule: phil_step_cases) (simp_all add: remaining_def)
  have m: "remaining s' k + 1 = remaining s k"
    using assms(3,2) r by (cases rule: phil_step_cases) (auto simp: remaining_def)
  show ?thesis
    using assms(2) o m unfolding five work_def by (elim disjE) simp_all
qed

subsection \<open>Properties\<close>

text \<open>A schedule names the philosopher of each step; a run is the state it leads to.\<close>

fun run :: "nat list \<Rightarrow> pstate \<Rightarrow> pstate option" where
  "run [] s = Some s"
| "run (k # ks) s =
     (if k < 5 then (case phil_step k s of None \<Rightarrow> None | Some s' \<Rightarrow> run ks s') else None)"

lemma run_reachable: "reachable s \<Longrightarrow> run ks s = Some s' \<Longrightarrow> reachable s'"
proof (induction ks arbitrary: s)
  case (Cons k ks)
  then obtain s1 where s1: "k < 5" "phil_step k s = Some s1" "run ks s1 = Some s'"
    by (auto split: if_splits option.splits)
  then have "reachable s1"
    using Cons.prems(1) reachable.next_state step.phil by blast
  then show ?case
    using Cons.IH s1(3) by blast
qed simp

lemma run_work: "inv s \<Longrightarrow> run ks s = Some s' \<Longrightarrow> inv s' \<and> work s' + length ks = work s"
proof (induction ks arbitrary: s)
  case (Cons k ks)
  then obtain s1 where "k < 5" "phil_step k s = Some s1" "run ks s1 = Some s'"
    by (auto split: if_splits option.splits)
  moreover have "inv s1" "work s1 + 1 = work s"
    using inv_phil_step [OF Cons.prems(1) calculation(1,2)] step_work [OF Cons.prems(1) calculation(1,2)]
    by simp_all
  ultimately show ?case
    using Cons.IH [of s1] by simp
qed simp

lemma remaining_zero: "inv s \<Longrightarrow> k < 5 \<Longrightarrow> remaining s k = 0 \<longleftrightarrow> finished s k"
proof -
  assume "inv s" "k < 5"
  then have "pc s k \<le> 5" "round s k \<le> 3" "round s k = 3 \<longrightarrow> pc s k = 0"
    by (simp_all add: inv_def)
  then show ?thesis
    unfolding remaining_def finished_def by linarith
qed

lemma work_zero: "inv s \<Longrightarrow> work s = 0 \<longleftrightarrow> (\<forall>k < 5. finished s k)"
  unfolding work_def all_five by (simp add: remaining_zero del: One_nat_def)



text \<open>C17: there is no deadlock: in every reachable state in which some philosopher has not finished its
  three rounds, some philosopher can do its next semop.\<close>

theorem no_deadlock:
  assumes "reachable s" and "\<exists>k < 5. \<not> finished s k"
  shows "\<exists>s'. step s s'"
proof -
  note i = reachable_inv [OF assms(1)]
  have "\<exists>k < 5. round s k < 3"
    using assms(2) i unfolding inv_def finished_def by (meson le_neq_implies_less)
  then show ?thesis
    using some_enabled [OF i] step.phil by blast
qed

theorem no_deadlock_witness: "\<exists>s'. step init s'"
  by (rule no_deadlock [OF reachable.start], rule exI [of _ 0]) (simp add: finished_def init_def)



end
