(* ===== verification/Bathroom.thy ===== *)
theory Bathroom
  imports Main "HOL-Library.Word"
begin

text \<open>
  The unisex bathroom of src/SP/task5: threads of two kinds that share a room of limited size, and the
  conversion of the command line argument. A critical section between lock and unlock of the mutex is
  one step of a thread; a thread that may not enter keeps retrying (the busy loop of the code). The
  argument "m" selects the woman_* functions, every other argument the man_* functions, as in
  manage_gender.
\<close>

subsection \<open>The argument\<close>

definition digit :: "char \<Rightarrow> bool" where
  "digit ch \<longleftrightarrow> of_char ch \<in> {48..(57::nat)}"

definition digit_value :: "char \<Rightarrow> int" where
  "digit_value ch = of_char ch - 48"

text \<open>CheckNumber for base \<open>osn\<close>: digits and letters with a value below the base, after an optional sign.\<close>

definition char_value :: "char \<Rightarrow> int option" where
  "char_value ch =
     (let n = of_char ch :: int in
      if 48 \<le> n \<and> n \<le> 57 then Some (n - 48)
      else if 65 \<le> n \<and> n \<le> 90 then Some (10 + (n + 32) - 97)
      else if 97 \<le> n \<and> n \<le> 122 then Some (10 + n - 97)
      else None)"

definition below_base :: "int \<Rightarrow> char \<Rightarrow> bool" where
  "below_base osn ch = (case char_value ch of None \<Rightarrow> False | Some r \<Rightarrow> r < osn)"

definition check_number :: "string \<Rightarrow> int \<Rightarrow> bool" where
  "check_number number osn =
     (case number of
        [] \<Rightarrow> True
      | ch # rest \<Rightarrow>
          (if ch = CHR ''-'' then (if rest = [] then False else list_all (below_base osn) rest)
           else list_all (below_base osn) number))"

fun convert_digits :: "string \<Rightarrow> int \<Rightarrow> int option" where
  "convert_digits [] result = Some result"
| "convert_digits (ch # s) result =
     (if digit ch then
        (if result > 2147483647 div 10 then None
         else convert_digits s (result * 10 + digit_value ch))
      else None)"

text \<open>StringToInt with base 10: None is the error status 1; the int is the 32-bit value of \<open>result * sign\<close>.\<close>

definition string_to_int :: "string \<Rightarrow> 32 word option" where
  "string_to_int str =
     (if \<not> check_number str 10 then None
      else
        (case str of
           [] \<Rightarrow> map_option word_of_int (convert_digits [] 0)
         | ch # rest \<Rightarrow>
             (if ch = CHR ''-'' then map_option (\<lambda>r. word_of_int (- r)) (convert_digits rest 0)
              else map_option word_of_int (convert_digits str 0))))"

text \<open>The number a digit string denotes.\<close>

definition decimal :: "string \<Rightarrow> int" where
  "decimal s = foldl (\<lambda>r ch. r * 10 + digit_value ch) 0 s"

subsection \<open>The room\<close>

definition EMPTY :: int where "EMPTY = 0"
definition MAN_ONLY :: int where "MAN_ONLY = 1"
definition WOMAN_ONLY :: int where "WOMAN_ONLY = 2"

lemmas state_defs = EMPTY_def MAN_ONLY_def WOMAN_ONLY_def

datatype place = Waiting | Inside | Gone

record room =
  cur_state :: int
  current_number :: int
  place :: "nat \<Rightarrow> place"

text \<open>One pass of the loop of woman_wants_to_enter and man_wants_to_enter: the room and whether the
  thread entered.\<close>

definition woman_wants_to_enter :: "int \<Rightarrow> room \<Rightarrow> room \<times> bool" where
  "woman_wants_to_enter max_in_room s =
     (if cur_state s = EMPTY \<or> cur_state s = WOMAN_ONLY then
        (let s = s\<lparr>cur_state := WOMAN_ONLY\<rparr> in
         if current_number s < max_in_room then (s\<lparr>current_number := current_number s + 1\<rparr>, True)
         else (s, False))
      else (s, False))"

definition man_wants_to_enter :: "int \<Rightarrow> room \<Rightarrow> room \<times> bool" where
  "man_wants_to_enter max_in_room s =
     (if cur_state s = EMPTY \<or> cur_state s = MAN_ONLY then
        (let s = s\<lparr>cur_state := MAN_ONLY\<rparr> in
         if current_number s < max_in_room then (s\<lparr>current_number := current_number s + 1\<rparr>, True)
         else (s, False))
      else (s, False))"

definition woman_leave :: "room \<Rightarrow> room" where
  "woman_leave s =
     (let s = s\<lparr>current_number := current_number s - 1\<rparr> in
      if current_number s = 0 then s\<lparr>cur_state := EMPTY\<rparr> else s)"

definition man_leave :: "room \<Rightarrow> room" where
  "man_leave s =
     (let s = s\<lparr>current_number := current_number s - 1\<rparr> in
      if current_number s = 0 then s\<lparr>cur_state := EMPTY\<rparr> else s)"

text \<open>The next critical section of thread \<open>i\<close> in manage_gender, whose argument is \<open>g\<close>.\<close>

definition manage_gender :: "int \<Rightarrow> string \<Rightarrow> nat \<Rightarrow> room \<Rightarrow> room option" where
  "manage_gender max_in_room g i s =
     (case place s i of
        Waiting \<Rightarrow>
          (let (s', entered) = (if g = ''m'' then woman_wants_to_enter max_in_room s
                                else man_wants_to_enter max_in_room s)
           in Some (if entered then s'\<lparr>place := (place s')(i := Inside)\<rparr> else s'))
      | Inside \<Rightarrow>
          (let s' = (if g = ''m'' then woman_leave s else man_leave s)
           in Some (s'\<lparr>place := (place s')(i := Gone)\<rparr>))
      | Gone \<Rightarrow> None)"

text \<open>The threads main creates: the first ten with "w", the others with "m".\<close>

definition thread_arg :: "nat \<Rightarrow> string" where
  "thread_arg i = (if i < 10 then ''w'' else ''m'')"

definition empty_room :: room where
  "empty_room = \<lparr>cur_state = EMPTY, current_number = 0, place = (\<lambda>_. Waiting)\<rparr>"

inductive room_reachable :: "int \<Rightarrow> room \<Rightarrow> bool" for max_in_room :: int where
  start: "room_reachable max_in_room empty_room"
| thread: "room_reachable max_in_room s \<Longrightarrow> i < 20 \<Longrightarrow>
     manage_gender max_in_room (thread_arg i) i s = Some s' \<Longrightarrow> room_reachable max_in_room s'"

definition women_inside :: "room \<Rightarrow> nat set" where
  "women_inside s = {i. i < 20 \<and> place s i = Inside \<and> thread_arg i = ''m''}"

definition men_inside :: "room \<Rightarrow> nat set" where
  "men_inside s = {i. i < 20 \<and> place s i = Inside \<and> thread_arg i \<noteq> ''m''}"

subsection \<open>The invariant\<close>

definition room_inv :: "int \<Rightarrow> room \<Rightarrow> bool" where
  "room_inv m s \<longleftrightarrow>
     current_number s = int (card (women_inside s)) + int (card (men_inside s)) \<and>
     current_number s \<le> max 0 m \<and>
     (cur_state s \<noteq> WOMAN_ONLY \<longrightarrow> women_inside s = {}) \<and>
     (cur_state s \<noteq> MAN_ONLY \<longrightarrow> men_inside s = {}) \<and>
     (1 \<le> m \<longrightarrow> (cur_state s = EMPTY \<longleftrightarrow> current_number s = 0)) \<and>
     cur_state s \<in> {EMPTY, MAN_ONLY, WOMAN_ONLY}"

lemma finite_inside [simp]: "finite (women_inside s)" "finite (men_inside s)"
  by (simp_all add: women_inside_def men_inside_def)


lemma inside_cong [simp]:
  "women_inside (s\<lparr>cur_state := a\<rparr>) = women_inside s" "men_inside (s\<lparr>cur_state := a\<rparr>) = men_inside s"
  "women_inside (s\<lparr>current_number := b\<rparr>) = women_inside s" "men_inside (s\<lparr>current_number := b\<rparr>) = men_inside s"
  by (simp_all add: women_inside_def men_inside_def)

lemma women_place:
  assumes "i < 20"
  shows "women_inside (s\<lparr>place := (place r)(i := p)\<rparr>) =
     (if thread_arg i = ''m'' \<and> p = Inside then insert i (women_inside r) else women_inside r - {i})"
  using assms by (auto simp: women_inside_def)

lemma men_place:
  assumes "i < 20"
  shows "men_inside (s\<lparr>place := (place r)(i := p)\<rparr>) =
     (if thread_arg i \<noteq> ''m'' \<and> p = Inside then insert i (men_inside r) else men_inside r - {i})"
  using assms by (auto simp: men_inside_def)

lemma inside_mem:
  "i \<in> women_inside s \<longleftrightarrow> i < 20 \<and> place s i = Inside \<and> thread_arg i = ''m''"
  "i \<in> men_inside s \<longleftrightarrow> i < 20 \<and> place s i = Inside \<and> thread_arg i \<noteq> ''m''"
  by (simp_all add: women_inside_def men_inside_def)

text \<open>A room described by its counters and the two sets.\<close>

definition counts :: "int \<Rightarrow> int \<Rightarrow> int \<Rightarrow> nat set \<Rightarrow> nat set \<Rightarrow> bool" where
  "counts m c n W M \<longleftrightarrow>
     n = int (card W) + int (card M) \<and> n \<le> max 0 m \<and>
     (c \<noteq> WOMAN_ONLY \<longrightarrow> W = {}) \<and> (c \<noteq> MAN_ONLY \<longrightarrow> M = {}) \<and>
     (1 \<le> m \<longrightarrow> (c = EMPTY \<longleftrightarrow> n = 0)) \<and> c \<in> {EMPTY, MAN_ONLY, WOMAN_ONLY}"

lemma room_inv_counts:
  "room_inv m s = counts m (cur_state s) (current_number s) (women_inside s) (men_inside s)"
  by (simp add: room_inv_def counts_def)

lemma counts_enter_woman:
  "counts m c n W M \<Longrightarrow> c = EMPTY \<or> c = WOMAN_ONLY \<Longrightarrow> n < m \<Longrightarrow> finite W \<Longrightarrow> i \<notin> W \<Longrightarrow>
   counts m WOMAN_ONLY (n + 1) (insert i W) M"
  by (auto simp: counts_def state_defs)

lemma counts_enter_man:
  "counts m c n W M \<Longrightarrow> c = EMPTY \<or> c = MAN_ONLY \<Longrightarrow> n < m \<Longrightarrow> finite M \<Longrightarrow> i \<notin> M \<Longrightarrow>
   counts m MAN_ONLY (n + 1) W (insert i M)"
  by (auto simp: counts_def state_defs)

lemma counts_full_woman:
  "counts m c n W M \<Longrightarrow> c = EMPTY \<or> c = WOMAN_ONLY \<Longrightarrow> \<not> n < m \<Longrightarrow> counts m WOMAN_ONLY n W M"
  by (auto simp: counts_def state_defs)

lemma counts_full_man:
  "counts m c n W M \<Longrightarrow> c = EMPTY \<or> c = MAN_ONLY \<Longrightarrow> \<not> n < m \<Longrightarrow> counts m MAN_ONLY n W M"
  by (auto simp: counts_def state_defs)

lemma counts_leave_woman:
  assumes "counts m c n W M" "finite W" "finite M" "i \<in> W"
  shows "counts m (if n - 1 = 0 then EMPTY else c) (n - 1) (W - {i}) M"
proof -
  obtain k where "card W = Suc k" "card (W - {i}) = k" "k = 0 \<longleftrightarrow> W - {i} = {}"
    using card.remove [OF assms(2,4)] card_0_eq [of "W - {i}"] assms(2) by auto
  moreover have "M = {}" "c = WOMAN_ONLY" using assms by (auto simp: counts_def state_defs)
  ultimately show ?thesis using assms(1) by (simp add: counts_def state_defs)
qed

lemma counts_leave_man:
  assumes "counts m c n W M" "finite W" "finite M" "i \<in> M"
  shows "counts m (if n - 1 = 0 then EMPTY else c) (n - 1) W (M - {i})"
proof -
  obtain k where "card M = Suc k" "card (M - {i}) = k" "k = 0 \<longleftrightarrow> M - {i} = {}"
    using card.remove [OF assms(3,4)] card_0_eq [of "M - {i}"] assms(3) by auto
  moreover have "W = {}" "c = MAN_ONLY" using assms by (auto simp: counts_def state_defs)
  ultimately show ?thesis using assms(1) by (simp add: counts_def state_defs)
qed

lemma room_inv_initial: "room_inv m empty_room"
  by (simp add: room_inv_def empty_room_def women_inside_def men_inside_def state_defs)

lemma room_inv_thread:
  assumes "room_inv m s" "i < 20" "manage_gender m (thread_arg i) i s = Some s'"
  shows "room_inv m s'"
proof (cases "place s i")
  case Waiting
  then have n: "i \<notin> women_inside s" "i \<notin> men_inside s"
    by (simp_all add: inside_mem)
  show ?thesis
    using assms(1,3) n Waiting unfolding room_inv_counts manage_gender_def woman_wants_to_enter_def man_wants_to_enter_def
    by (auto simp: Let_def women_place [OF assms(2)] men_place [OF assms(2)] 
      counts_full_woman counts_full_man split: if_splits
      dest: counts_enter_woman [OF _ _ _ finite_inside(1), of m _ _ s _ i] counts_enter_man [OF _ _ _ finite_inside(2), of m _ _ _ s i])
next
  case Inside
  show ?thesis
  proof (cases "thread_arg i = ''m''")
    case True
    then have w: "i \<in> women_inside s" "i \<notin> men_inside s" using Inside assms(2) by (simp_all add: inside_mem)
    show ?thesis
      using assms(1,3) w Inside True counts_leave_woman [of m "cur_state s" "current_number s" "women_inside s" "men_inside s" i]
      unfolding room_inv_counts manage_gender_def woman_leave_def
      by (auto simp: Let_def women_place [OF assms(2)] men_place [OF assms(2)] split: if_splits)
  next
    case False
    then have w: "i \<in> men_inside s" "i \<notin> women_inside s" using Inside assms(2) by (simp_all add: inside_mem)
    show ?thesis
      using assms(1,3) w Inside False counts_leave_man [of m "cur_state s" "current_number s" "women_inside s" "men_inside s" i]
      unfolding room_inv_counts manage_gender_def man_leave_def
      by (auto simp: Let_def women_place [OF assms(2)] men_place [OF assms(2)] split: if_splits)
  qed
next
  case Gone
  then show ?thesis using assms(3) by (simp add: manage_gender_def)
qed


lemma room_inv_reachable: "room_reachable m s \<Longrightarrow> room_inv m s"
  by (induction rule: room_reachable.induct) (auto intro: room_inv_initial room_inv_thread)

text \<open>C26: In every reachable state of the room a woman_* thread and a man_* thread are never inside
  together, the number inside is current_number, and it never exceeds max_in_room (and is 0 when
  max_in_room is not positive).\<close>

theorem bathroom_never_mixed:
  assumes "room_reachable m s"
  shows "(women_inside s = {} \<or> men_inside s = {}) \<and>
         current_number s = int (card (women_inside s \<union> men_inside s)) \<and> current_number s \<le> max 0 m"
proof -
  have inv: "room_inv m s" by (rule room_inv_reachable [OF assms])
  then have "women_inside s = {} \<or> men_inside s = {}"
    by (auto simp: room_inv_def state_defs)
  then show ?thesis
    using inv by (auto simp: room_inv_def)
qed

definition room_step :: "int \<Rightarrow> room \<Rightarrow> room \<Rightarrow> bool" where
  "room_step m s s' \<longleftrightarrow> (\<exists>i<20. manage_gender m (thread_arg i) i s = Some s')"

definition work_left :: "room \<Rightarrow> nat" where
  "work_left s = (\<Sum>i<20. case place s i of Waiting \<Rightarrow> 2 | Inside \<Rightarrow> 1 | Gone \<Rightarrow> 0)"

lemma work_left_place:
  assumes "i < 20" "place s i \<noteq> Gone" "place s' = (place s)(i := p)"
    and "(p, place s i) \<in> {(Inside, Waiting), (Gone, Inside)}"
  shows "work_left s' < work_left s"
proof -
  have "work_left s' < work_left s" unfolding work_left_def
    using assms by (intro sum_strict_mono_ex1) (auto split: place.splits)
  then show ?thesis .
qed

lemma leave_enabled:
  assumes "place s i = Inside" "i < 20"
  shows "\<exists>s'. room_step m s s' \<and> work_left s' < work_left s"
proof -
  obtain s' where s': "manage_gender m (thread_arg i) i s = Some s'" "place s' = (place s)(i := Gone)"
    using assms by (auto simp: manage_gender_def woman_leave_def man_leave_def Let_def)
  then have "work_left s' < work_left s"
    using assms by (intro work_left_place [of i s s' Gone]) auto
  then show ?thesis using s' assms(2) by (auto simp: room_step_def)
qed

lemma enter_enabled:
  assumes "room_inv m s" "1 \<le> m" "place s i = Waiting" "i < 20" "\<forall>j<20. place s j \<noteq> Inside"
  shows "\<exists>s'. room_step m s s' \<and> work_left s' < work_left s"
proof -
  have "women_inside s = {}" "men_inside s = {}" using assms(5) by (auto simp: women_inside_def men_inside_def)
  then have "current_number s = 0" "cur_state s = EMPTY" using assms(1,2) by (auto simp: room_inv_def)
  then obtain s' where s': "manage_gender m (thread_arg i) i s = Some s'" "place s' = (place s)(i := Inside)"
    using assms(2,3) by (cases "thread_arg i = ''m''")
      (auto simp: manage_gender_def woman_wants_to_enter_def man_wants_to_enter_def Let_def)
  then have "work_left s' < work_left s"
    using assms(3,4) by (intro work_left_place [of i s s' Inside]) auto
  then show ?thesis using s' assms(4) by (auto simp: room_step_def)
qed

lemma progress:
  assumes "room_inv m s" "1 \<le> m" "i < 20" "place s i \<noteq> Gone"
  shows "\<exists>s'. room_step m s s' \<and> work_left s' < work_left s"
proof (cases "\<exists>j<20. place s j = Inside")
  case True
  then show ?thesis using leave_enabled by blast
next
  case False
  then have "place s i = Waiting" using assms(3,4) by (cases "place s i") auto
  then show ?thesis using enter_enabled assms False by blast
qed

lemma run_to_the_end:
  assumes "room_inv m s" "1 \<le> m"
  shows "\<exists>s'. (room_step m)\<^sup>*\<^sup>* s s' \<and> (\<forall>i<20. place s' i = Gone)"
  using assms(1)
proof (induction "work_left s" arbitrary: s rule: less_induct)
  case less
  show ?case
  proof (cases "\<forall>i<20. place s i = Gone")
    case False
    then obtain t where t: "room_step m s t" "work_left t < work_left s"
      using progress [OF less.prems assms(2)] by blast
    then have "room_inv m t" using less.prems room_inv_thread by (auto simp: room_step_def)
    then show ?thesis using less.hyps [of t] t by (meson converse_rtranclp_into_rtranclp)
  qed blast
qed

text \<open>C36: With a capacity of at least one the room never wedges: from every reachable state some
  continuation of the twenty threads ends with all of them gone.\<close>

theorem bathroom_can_finish:
  assumes "room_reachable m s" "1 \<le> m"
  shows "\<exists>s'. (room_step m)\<^sup>*\<^sup>* s s' \<and> (\<forall>i<20. place s' i = Gone)"
  using run_to_the_end room_inv_reachable assms by blast

lemma sample_room_reachable: "room_reachable 1 (empty_room\<lparr>cur_state := WOMAN_ONLY, current_number := 1,
    place := (\<lambda>_. Waiting)(10 := Inside)\<rparr>)"
  by (rule room_reachable.thread [OF room_reachable.start, of 10])
    (simp_all add: manage_gender_def thread_arg_def woman_wants_to_enter_def empty_room_def Let_def state_defs)

theorem bathroom_never_mixed_witness:
  "men_inside (empty_room\<lparr>cur_state := WOMAN_ONLY, current_number := 1, place := (\<lambda>_. Waiting)(10 := Inside)\<rparr>) = {}"
proof -
  have "(10::nat) \<in> women_inside (empty_room\<lparr>cur_state := WOMAN_ONLY, current_number := 1, place := (\<lambda>_. Waiting)(10 := Inside)\<rparr>)"
    by (simp add: women_inside_def thread_arg_def)
  then show ?thesis using bathroom_never_mixed [OF sample_room_reachable] by blast
qed

theorem bathroom_can_finish_witness:
  "\<exists>s'. (room_step 1)\<^sup>*\<^sup>* (empty_room\<lparr>cur_state := WOMAN_ONLY, current_number := 1,
     place := (\<lambda>_. Waiting)(10 := Inside)\<rparr>) s' \<and> (\<forall>i<20. place s' i = Gone)"
  by (rule bathroom_can_finish [OF sample_room_reachable]) simp

text \<open>With max_in_room not positive, which StringToInt accepts, no thread ever enters: every
  thread stays in its retry loop.\<close>

theorem zero_capacity_never_enters:
  assumes "room_reachable m s" "m \<le> 0"
  shows "place s = (\<lambda>_. Waiting) \<and> current_number s = 0"
  using assms(1)
proof (induction rule: room_reachable.induct)
  case start
  then show ?case by (simp add: empty_room_def)
next
  case (thread s i s')
  then show ?case using assms(2)
    by (auto simp: manage_gender_def woman_wants_to_enter_def man_wants_to_enter_def Let_def split: if_splits)
qed

theorem zero_capacity_never_enters_witness:
  "place (empty_room\<lparr>cur_state := MAN_ONLY\<rparr>) 3 = Waiting"
proof -
  have "room_reachable 0 (empty_room\<lparr>cur_state := MAN_ONLY\<rparr>)"
    by (rule room_reachable.thread [OF room_reachable.start, of 3])
      (simp_all add: manage_gender_def thread_arg_def man_wants_to_enter_def empty_room_def Let_def state_defs)
  then show ?thesis using zero_capacity_never_enters [of 0 "empty_room\<lparr>cur_state := MAN_ONLY\<rparr>"] by simp
qed


subsection \<open>The argument of the program\<close>

lemma below_base_10: "below_base 10 ch = digit ch"
proof -
  have "(of_char ch :: int) = int (of_char ch)" by (rule of_nat_of_char [symmetric])
  then show ?thesis by (simp add: below_base_def char_value_def digit_def Let_def)
qed

lemma below_base_digit: "below_base 10 = digit"
  by (rule ext) (rule below_base_10)

lemma digit_value_bounds: "digit ch \<Longrightarrow> 0 \<le> digit_value ch \<and> digit_value ch \<le> 9"
proof -
  have "(of_char ch :: int) = int (of_char ch)" by (rule of_nat_of_char [symmetric])
  then show "digit ch \<Longrightarrow> 0 \<le> digit_value ch \<and> digit_value ch \<le> 9"
    by (simp add: digit_def digit_value_def)
qed

lemma foldl_decimal_mono:
  "list_all digit s \<Longrightarrow> 0 \<le> r \<Longrightarrow> r \<le> foldl (\<lambda>r ch. r * 10 + digit_value ch) r s"
proof (induction s arbitrary: r)
  case (Cons ch s)
  then have "r * 10 + digit_value ch \<le> foldl (\<lambda>r ch. r * 10 + digit_value ch) r (ch # s)"
    using digit_value_bounds [of ch] by simp
  then show ?case using Cons.prems digit_value_bounds [of ch] by (simp add: algebra_simps)
qed simp

lemma convert_digits_value:
  "0 \<le> r \<Longrightarrow> r \<le> 2147483649 \<Longrightarrow> list_all digit s \<Longrightarrow>
   convert_digits s r =
     (let v = foldl (\<lambda>r ch. r * 10 + digit_value ch) r s in if v \<le> 2147483649 then Some v else None)"
proof (induction s arbitrary: r)
  case (Cons ch s)
  have d: "0 \<le> digit_value ch" "digit_value ch \<le> 9" using Cons.prems digit_value_bounds [of ch] by simp_all
  show ?case
  proof (cases "r \<le> 214748364")
    case True
    then have "r * 10 + digit_value ch \<le> 2147483649" using d by simp
    then show ?thesis using Cons.IH [of "r * 10 + digit_value ch"] Cons.prems d True by simp
  next
    case False
    then have "2147483650 \<le> r * 10 + digit_value ch" using d by simp
    moreover have "r * 10 + digit_value ch \<le> foldl (\<lambda>r ch. r * 10 + digit_value ch) r (ch # s)"
      using foldl_decimal_mono [of s "r * 10 + digit_value ch"] Cons.prems d by simp
    ultimately show ?thesis using False Cons.prems by (simp add: Let_def)
  qed
qed simp

text \<open>StringToInt rejects a string that is not an optional minus and digits, and one whose number
  is above 2147483649; any other string gives its decimal number, wrapped to 32 bits. The guard lets
  2147483648 and 2147483649 through, which do not fit an int.\<close>

theorem string_to_int_reads_decimal:
  "string_to_int str =
     (let neg = (str \<noteq> [] \<and> hd str = CHR ''-''); ds = (if neg then tl str else str) in
      if list_all digit ds \<and> (neg \<longrightarrow> ds \<noteq> []) \<and> decimal ds \<le> 2147483649
      then Some (word_of_int (if neg then - decimal ds else decimal ds)) else None)"
proof (cases str)
  case (Cons ch rest)
  show ?thesis
    using convert_digits_value [of 0 rest] convert_digits_value [of 0 str]
    unfolding Cons string_to_int_def check_number_def below_base_digit decimal_def
    by (cases "ch = CHR ''-''") (auto simp: Let_def simp del: convert_digits.simps foldl_Cons)
qed (simp add: string_to_int_def check_number_def decimal_def)

theorem string_to_int_reads_decimal_witness:
  "string_to_int ''2147483648'' = Some (- 2147483648)"
  by (subst string_to_int_reads_decimal) (simp add: digit_def decimal_def digit_value_def Let_def)

end
