(* ===== verification/Spec2Isabelle.thy ===== *)
theory Spec2Isabelle
  imports BstErase BstRequests SplayTree AvlTree RbAlloc Buddies BoundaryTags SortedList BigIntInv FractionSeries River Kmp Philosophers Bathroom
begin

text \<open>
  A verification library for the data structures and the system programs of this repository. It is a
  shallow embedding: every function of the C and C++ code that is modelled is an executable HOL function
  on an explicit state, and the theorems speak about those functions.

  Conventions. A pointer is a natural number or nullptr (\<open>ptr = nat option\<close>), a heap is a partial map from
  addresses to nodes, and every routine that follows pointers is written in the option monad: None is
  undefined behaviour (a null or dangling dereference, a read outside an array, a signed overflow) or a
  loop that does not end. Loops that may not end are \<open>partial_function (option)\<close>, so that "the call returns"
  is the theorem that the value is Some. Exceptions are the left side of a sum. The address that operator
  new returns is an argument of the function that allocates. The comparator of a container is the
  argument \<open>cmp\<close>; \<open>key_order\<close> states that it is a strict weak order whose equivalence is equality of keys, and
  \<open>std_less\<close> is the default of the templates. Machine integers are words, or numbers with the wrap-around
  written out (\<open>size_add\<close>, \<open>size_sub\<close>).

  Binary search trees (src/associative_container/search_tree/binary_search_tree). The tags of the C++
  template (plain, AVL, red-black, splay) supply three hooks; the tree itself calls them. A node of a
  derived class has one more field, here \<open>ext\<close>.
    \<^item> BstHeap, BstExt: nodes, heaps, and \<open>rep\<close>, which relates a heap to the abstract tree of its addresses.
    \<^item> BstRotate: the six rotations, shown to be the rotations of the abstract tree in every context.
    \<^item> BstTraverse, BstIter, BstRequests: the six step functions, the twelve iterator classes, begin and
      end in all their forms. The locale \<open>traversable\<close> states the contract of a step function;
      the infix iterator visits the nodes in the order of the keys.
    \<^item> BstSearch: search, bounds, contains and at.
    \<^item> BstInsert: insertion and its overloads, for every hook that satisfies the locale \<open>tree_policy\<close> (the
      locale \<open>ordered_policy\<close> adds the order of the keys); interpreted for the plain, AVL, red-black and
      splay hooks.
    \<^item> BstErase: deletion in the plain tree, the destructor, moving.
    \<^item> AvlTree, RedBlackTree, RedBlackErase, SplayTree: the hooks. Insertion keeps the balance and the stored heights,
      the red-black invariant, and the search order; deletion from the red-black tree takes exactly the
      node out and keeps the invariant exactly when the node cut out was not a black leaf below the root.

  Allocators (src/allocator). Addresses are numbers, a header is a value stored at its address. AllocCommon holds what they share and
  the locale \<open>memory_resource\<close>, the contract of a resource (a block that is handed out lies in the memory and
  apart from every other one), from which the separation of the blocks in every program of allocate
  and deallocate calls follows; it is interpreted for each allocator.
    \<^item> Buddies: the abstract state is the binary tree of the blocks, allocation splits it and deallocation merges it.
    \<^item> BoundaryTags: the abstract state is the list of occupied blocks, the holes between them are free.
    \<^item> SortedList: the abstract state is the list of all blocks, the free ones linked by address.

  Numbers (src/arithmetic).
    \<^item> BigInt, BigIntAdd, BigIntBits, BigIntMul, BigIntDiv, BigIntText, BigIntInv: vectors of 32-bit
      digits with the 64-bit intermediate values of the code. Every operation computes the integer operation; the
      product does so when the second operand has at most 32 digits, beyond which operator*= chooses the
      Karatsuba rule, which is not exact.
    \<^item> Fraction, FractionSeries: a fraction and its operations as \<open>outcome\<close> values (None, an exception, or
      a result) sequenced by \<open>then_do\<close>. The bounds \<open>short\<close> and \<open>fits\<close> (magnitudes below 2 to the 1024th) are
      those under which the products are exact. The loops of sine and cosine end and are within epsilon
      of the real functions.

  System programs (src/SP).
    \<^item> River: the wolf, goat and cabbage server, its messages and its client; the sessions refine the puzzle.
    \<^item> Kmp: the substring search of task2, on bytes as the C code compares them.
    \<^item> Philosophers, Bathroom: step relations for the processes of task3 and the threads of task5; safety,
      absence of deadlock, and that every execution can finish.

  Bounds. No fuel is used: recursion is structural, has a measure, or is a partial function. In AVL trees the heights are
  those of trees with fewer than 2 to the 64th nodes, since addresses are 64 bits wide. The counters of
  type int in the series are checked against 32 bits. The most negative 64-bit integer has no
  negation and is excluded where a constructor negates it.

  Not modelled. Logging calls, mutexes around whole operations and the bytes of a user's payload change
  nothing the theorems speak about. Two handles on one object (assigning a number or a tree to itself) are
  outside the model, since values are copied. The hash table, the B* and B*+ trees, the scapegoat tree and
  the continued fractions are stubs. The trees on disk and the server logger consist of calls to file streams
  and to an HTTP library; tasks 6 and 7 of system calls.
\<close>

end
